(* ===== verification/Prelude.thy ===== *)
theory Prelude
  imports Main "HOL-Library.Word" "HOL-Library.Multiset"
begin

text \<open>
  Shared vocabulary of the development: the machine types of the Go sources, the ways a Go
  function can fail to return, checked slice access, and the generic facts on lists, maps, words
  and step relations that the component theories use. Nothing in this theory is specific to one
  component.
\<close>

section \<open>Collections of facts\<close>

text \<open>
  \<open>kv_simps\<close> unfolds the key/value server and its RPC records, \<open>raft_simps\<close> the handlers of one
  Raft peer, \<open>mr_simps\<close> the MapReduce coordinator, \<open>net_simps\<close> the simulated network and the
  tester's view of it.
\<close>

named_theorems kv_simps
named_theorems raft_simps
named_theorems mr_simps
named_theorems net_simps

section \<open>Machine types and failures\<close>

type_synonym uint8 = "8 word"
type_synonym uint32 = "32 word"
type_synonym uint64 = "64 word"
type_synonym int32 = "32 word"

text \<open>
  A Go function of the sources returns, panics (slice index out of range, nil dereference, integer division by zero, failed
  type assertion, misuse of \<open>reflect\<close>) or ends the process (\<open>log.Fatal\<close>) or the test (\<open>t.Fatal\<close>). The message texts
  carry no behaviour and are dropped.
\<close>

datatype fault = IndexPanic | NilPanic | DividePanic | TypePanic | ReflectPanic | LogFatal | TestFatal

type_synonym 'a go = "fault + 'a"

definition go_index :: "'a list \<Rightarrow> int \<Rightarrow> 'a go" where
  "go_index xs i = (if 0 \<le> i \<and> i < int (length xs) then Inr (xs ! nat i) else Inl IndexPanic)"

definition go_update :: "'a list \<Rightarrow> int \<Rightarrow> 'a \<Rightarrow> 'a list go" where
  "go_update xs i v =
     (if 0 \<le> i \<and> i < int (length xs) then Inr (xs[nat i := v]) else Inl IndexPanic)"

text \<open>Reading a Go map of element type \<open>int\<close> at a missing key gives the zero value.\<close>

definition map_get :: "('k \<rightharpoonup> 'v) \<Rightarrow> 'v \<Rightarrow> 'k \<Rightarrow> 'v" where
  "map_get m z k = (case m k of None \<Rightarrow> z | Some v \<Rightarrow> v)"

text \<open>A \<open>for\<close> loop over the elements of a slice whose body can fail.\<close>

fun go_fold :: "('a \<Rightarrow> 's \<Rightarrow> 's go) \<Rightarrow> 'a list \<Rightarrow> 's \<Rightarrow> 's go" where
  "go_fold f [] s = Inr s"
| "go_fold f (x # xs) s = (case f x s of Inl p \<Rightarrow> Inl p | Inr t \<Rightarrow> go_fold f xs t)"

lemma go_fold_append:
  "go_fold f (xs @ ys) s = (case go_fold f xs s of Inl p \<Rightarrow> Inl p | Inr t \<Rightarrow> go_fold f ys t)"
  by (induction xs arbitrary: s) (auto split: sum.split)

text \<open>
  A loop of \<open>f\<close> whose body keeps an invariant and behaves like a total function under it never fails
  and is a fold.
\<close>

text \<open>What every step keeps, a loop keeps.\<close>

lemma go_fold_keeps:
  assumes "go_fold f xs s = Inr t" and "\<And>x s t. f x s = Inr t \<Longrightarrow> P t = P s"
  shows "P t = P s"
  using assms by (induction xs arbitrary: s) (auto split: sum.splits)

lemma go_fold_total:
  assumes "\<And>x s. x \<in> set xs \<Longrightarrow> I s \<Longrightarrow> f x s = Inr (g x s) \<and> I (g x s)" and "I s"
  shows "go_fold f xs s = Inr (fold g xs s) \<and> I (fold g xs s)"
  using assms by (induction xs arbitrary: s) auto

lemma go_index_nth: "i < length xs \<Longrightarrow> go_index xs (int i) = Inr (xs ! i)"
  by (simp add: go_index_def)

lemma go_update_nth: "i < length xs \<Longrightarrow> go_update xs (int i) v = Inr (xs[i := v])"
  by (simp add: go_update_def)

text \<open>A Go map whose traversal order matters is an association list; the order is that of insertion.\<close>

fun assoc_put :: "'k \<Rightarrow> 'v \<Rightarrow> ('k \<times> 'v) list \<Rightarrow> ('k \<times> 'v) list" where
  "assoc_put k v [] = [(k, v)]"
| "assoc_put k v ((k', v') # m) = (if k' = k then (k, v) # m else (k', v') # assoc_put k v m)"

definition assoc_del :: "'k \<Rightarrow> ('k \<times> 'v) list \<Rightarrow> ('k \<times> 'v) list" where
  "assoc_del k m = filter (\<lambda>(k', _). k' \<noteq> k) m"

lemma map_of_assoc_put: "map_of (assoc_put k v m) k' = (if k' = k then Some v else map_of m k')"
  by (induction k v m rule: assoc_put.induct) auto

lemma map_of_assoc_del: "map_of (assoc_del k m) k' = (if k' = k then None else map_of m k')"
  by (induction m) (auto simp: assoc_del_def)

section \<open>Lists\<close>

lemma find_distinct:
  "distinct (map f xs) \<Longrightarrow> x \<in> set xs \<Longrightarrow> find (\<lambda>y. f y = f x) xs = Some x"
  by (induction xs) (auto simp: image_iff)

lemma filter_fst_le_1:
  "distinct (map fst xs) \<Longrightarrow> length (filter (\<lambda>(i, q). i = k \<and> P q) xs) \<le> 1"
proof (induction xs)
  case (Cons x xs)
  then show ?case
    by (cases "fst x = k") (auto simp: split_beta filter_empty_conv image_iff)
qed simp

lemma nth_update_if: "j < length xs \<Longrightarrow> xs[i := v] ! j = (if i = j then v else xs ! j)"
  by simp

section \<open>Words\<close>

lemma word_Suc_no_wrap:
  fixes v :: "'a::len word"
  shows "Suc (unat v) < 2 ^ LENGTH('a) \<Longrightarrow> unat (v + 1) = Suc (unat v)"
  by (simp add: unat_word_ariths)

lemma unat_Suc_le: "unat (v + 1 :: 'a::len word) \<le> Suc (unat v)"
  by (simp add: unat_word_ariths)

lemma of_nat_word_inject:
  "n < 2 ^ LENGTH('a) \<Longrightarrow> m < 2 ^ LENGTH('a) \<Longrightarrow>
     (of_nat n :: 'a::len word) = of_nat m \<longleftrightarrow> n = m"
  by (simp add: word_of_nat_eq_iff take_bit_nat_eq_self)

section \<open>Step relations\<close>

text \<open>
  The states that a step relation reaches from an initial state, and the interface through which
  components use invariants: a predicate that holds initially and is kept by every step holds in
  every reachable state.
\<close>

inductive reachable :: "'s \<Rightarrow> ('s \<Rightarrow> 's \<Rightarrow> bool) \<Rightarrow> 's \<Rightarrow> bool" for init step where
  reach_init: "reachable init step init"
| reach_step: "reachable init step s \<Longrightarrow> step s t \<Longrightarrow> reachable init step t"

locale invariant_system =
  fixes init :: 's and step :: "'s \<Rightarrow> 's \<Rightarrow> bool" and inv :: "'s \<Rightarrow> bool"
  assumes inv_init: "inv init"
    and inv_step: "step s t \<Longrightarrow> inv s \<Longrightarrow> inv t"
begin

lemma inv_reachable: "reachable init step s \<Longrightarrow> inv s"
  by (induction rule: reachable.induct) (blast intro: inv_init inv_step)+

lemma inv_steps: "step\<^sup>*\<^sup>* s t \<Longrightarrow> inv s \<Longrightarrow> inv t"
  by (induction rule: rtranclp_induct) (blast intro: inv_step)+

end

text \<open>An invariant may rest on another one that is already known to hold.\<close>

locale relative_invariant = base: invariant_system init step inv0
  for init :: 's and step :: "'s \<Rightarrow> 's \<Rightarrow> bool" and inv0 :: "'s \<Rightarrow> bool" +
  fixes inv :: "'s \<Rightarrow> bool"
  assumes rel_init: "inv init"
    and rel_step: "step s t \<Longrightarrow> inv0 s \<Longrightarrow> inv s \<Longrightarrow> inv t"
begin

sublocale both: invariant_system init step "\<lambda>s. inv0 s \<and> inv s"
  by unfold_locales (auto intro: base.inv_init base.inv_step rel_init rel_step)

lemma rel_reachable: "reachable init step s \<Longrightarrow> inv s"
  using both.inv_reachable by blast

end

lemma reachable_iff_rtranclp: "reachable init step s \<longleftrightarrow> step\<^sup>*\<^sup>* init s"
proof
  assume "reachable init step s"
  then show "step\<^sup>*\<^sup>* init s" by (induction rule: reachable.induct) auto
next
  assume "step\<^sup>*\<^sup>* init s"
  then show "reachable init step s"
    by (induction rule: rtranclp_induct) (auto intro: reachable.intros)
qed

lemma reachable_steps: "reachable init step s \<Longrightarrow> step\<^sup>*\<^sup>* s t \<Longrightarrow> reachable init step t"
  by (simp add: reachable_iff_rtranclp)

section \<open>Functional refinement\<close>

text \<open>
  A detailed operation \<open>cop\<close> implements an abstract one \<open>aop\<close> through an abstraction function, on
  the states that satisfy an invariant; then every sequence of operations does.
\<close>

locale functional_refinement =
  fixes cop :: "'op \<Rightarrow> 'c \<Rightarrow> 'c" and aop :: "'op \<Rightarrow> 'a \<Rightarrow> 'a"
    and abs :: "'c \<Rightarrow> 'a" and inv :: "'c \<Rightarrow> bool"
  assumes op_inv: "inv c \<Longrightarrow> inv (cop x c)"
    and op_abs: "inv c \<Longrightarrow> abs (cop x c) = aop x (abs c)"
begin

lemma run_inv: "inv c \<Longrightarrow> inv (fold cop xs c)"
  by (induction xs arbitrary: c) (auto intro: op_inv)

lemma run_abs: "inv c \<Longrightarrow> abs (fold cop xs c) = fold aop xs (abs c)"
proof (induction xs arbitrary: c)
  case (Cons x xs)
  then show ?case using Cons.IH [OF op_inv [OF Cons.prems]] by (simp add: op_abs)
qed simp

end

text \<open>
  The same for operations that can fail: those that are in range (\<open>pre\<close>) do not fail on a state that
  satisfies the invariant.
\<close>

locale fallible_refinement =
  fixes cop :: "'op \<Rightarrow> 'c \<Rightarrow> 'c go" and aop :: "'op \<Rightarrow> 'a \<Rightarrow> 'a"
    and abs :: "'c \<Rightarrow> 'a" and inv :: "'c \<Rightarrow> bool" and pre :: "'op \<Rightarrow> bool"
  assumes op_ok: "inv c \<Longrightarrow> pre x \<Longrightarrow> \<exists>d. cop x c = Inr d \<and> inv d \<and> abs d = aop x (abs c)"
begin

lemma run_ok:
  "inv c \<Longrightarrow> \<forall>x\<in>set xs. pre x \<Longrightarrow> \<exists>d. go_fold cop xs c = Inr d \<and> inv d \<and> abs d = fold aop xs (abs c)"
proof (induction xs arbitrary: c)
  case (Cons x xs)
  then obtain d where d: "cop x c = Inr d" "inv d" "abs d = aop x (abs c)" using op_ok by force
  then show ?case using Cons.IH [OF d(2)] Cons.prems(2) by simp
qed simp

end

end
