(* ===== verification/Kv_Rpc.thy ===== *)
theory Kv_Rpc
  imports Prelude
begin

text \<open>
  The RPC vocabulary of \<open>kvsrv1/rpc/rpc.go\<close>: error codes, versions and the argument and reply
  structs that the key/value server, its clerks and the test model exchange.
\<close>

section \<open>Error codes\<close>

text \<open>
  \<open>rpc.Err\<close> is a Go string with six named values; \<open>ErrUnset\<close> is the empty string, the zero value
  of a reply that no handler has filled in. \<open>err_string\<close> gives the text of each value, which
  \<open>models1/kv.go\<close> compares.
\<close>

datatype Err = ErrUnset | OK | ErrNoKey | ErrVersion | ErrMaybe | ErrWrongLeader | ErrWrongGroup

fun err_string :: "Err \<Rightarrow> string" where
  "err_string ErrUnset = ''''"
| "err_string OK = ''OK''"
| "err_string ErrNoKey = ''ErrNoKey''"
| "err_string ErrVersion = ''ErrVersion''"
| "err_string ErrMaybe = ''ErrMaybe''"
| "err_string ErrWrongLeader = ''ErrWrongLeader''"
| "err_string ErrWrongGroup = ''ErrWrongGroup''"

type_synonym Tversion = uint64

section \<open>Arguments and replies\<close>

record PutArgs =
  put_Key :: string
  put_Value :: string
  put_Version :: Tversion

record PutReply =
  putr_Err :: Err

record GetArgs =
  get_Key :: string

record GetReply =
  getr_Value :: string
  getr_Version :: Tversion
  getr_Err :: Err

text \<open>The zero replies that \<open>reflect.New\<close> and the clerks' composite literals allocate.\<close>

definition PutReply0 :: PutReply where
  "PutReply0 = \<lparr>putr_Err = ErrUnset\<rparr>"

definition GetReply0 :: GetReply where
  "GetReply0 = \<lparr>getr_Value = '''', getr_Version = 0, getr_Err = ErrUnset\<rparr>"

lemma err_string_inject [simp]: "err_string a = err_string b \<longleftrightarrow> a = b"
  by (cases a; cases b) simp_all

lemmas reply0_simps = PutReply0_def GetReply0_def

end
