(* ===== verification/Kv_Server.thy ===== *)
theory Kv_Server
  imports Kv_Rpc
begin

text \<open>
  The single-node key/value server of \<open>kvsrv1/server.go\<close>: a map from keys to versioned values,
  guarded by one lock, with conditional puts. Each handler is one atomic function of the store,
  since it holds \<open>kv.mu\<close> from its first to its last statement.
\<close>

section \<open>State and operations\<close>

record Entry =
  entry_Value :: string
  entry_Version :: Tversion

record KVServer =
  KVStore :: "string \<rightharpoonup> Entry"

definition MakeKVServer :: KVServer where
  "MakeKVServer = \<lparr>KVStore = Map.empty\<rparr>"

text \<open>The server ignores its arguments; killing it does nothing.\<close>

definition StartKVServer :: "'e list \<Rightarrow> int \<Rightarrow> nat \<Rightarrow> 'p \<Rightarrow> KVServer list" where
  "StartKVServer servers gid srv persister = [MakeKVServer]"

definition Server_Kill :: "KVServer \<Rightarrow> KVServer" where
  "Server_Kill kv = kv"

definition AddRecord :: "KVServer \<Rightarrow> string \<Rightarrow> string \<Rightarrow> Tversion \<Rightarrow> KVServer" where
  "AddRecord kv key val ver =
     (let ver' = ver + 1
      in kv\<lparr>KVStore := (KVStore kv)(key \<mapsto> \<lparr>entry_Value = val, entry_Version = ver'\<rparr>)\<rparr>)"

text \<open>\<open>UpdateRecord\<close> ends the process when the key is missing (\<open>log.Fatal\<close>).\<close>

definition UpdateRecord :: "KVServer \<Rightarrow> string \<Rightarrow> string \<Rightarrow> (KVServer \<times> bool) go" where
  "UpdateRecord kv key val =
     (case KVStore kv key of
        None \<Rightarrow> Inl LogFatal
      | Some entryCurr \<Rightarrow>
          let ver = entry_Version entryCurr + 1
          in Inr (kv\<lparr>KVStore := (KVStore kv)(key \<mapsto>
                       \<lparr>entry_Value = val, entry_Version = ver\<rparr>)\<rparr>, True))"

definition Server_Get :: "KVServer \<Rightarrow> GetArgs \<Rightarrow> GetReply \<Rightarrow> GetReply" where
  "Server_Get kv args reply =
     (case KVStore kv (get_Key args) of
        Some entry \<Rightarrow>
          reply\<lparr>getr_Version := entry_Version entry, getr_Value := entry_Value entry,
                getr_Err := OK\<rparr>
      | None \<Rightarrow> reply\<lparr>getr_Err := ErrNoKey\<rparr>)"

definition Server_Put :: "KVServer \<Rightarrow> PutArgs \<Rightarrow> PutReply \<Rightarrow> (KVServer \<times> PutReply) go" where
  "Server_Put kv args reply =
     (let key = put_Key args; val = put_Value args; ver = put_Version args
      in case KVStore kv key of
           None \<Rightarrow>
             (if ver = 0 then Inr (AddRecord kv key val ver, reply\<lparr>putr_Err := OK\<rparr>)
              else Inr (kv, reply\<lparr>putr_Err := ErrNoKey\<rparr>))
         | Some entry \<Rightarrow>
             (if ver = entry_Version entry then
                (case UpdateRecord kv key val of
                   Inl f \<Rightarrow> Inl f
                 | Inr (kv', _) \<Rightarrow> Inr (kv', reply\<lparr>putr_Err := OK\<rparr>))
              else Inr (kv, reply\<lparr>putr_Err := ErrVersion\<rparr>)))"

text \<open>
  The version a key presents to a conditional put: that of its entry, 0 when it has none. A put
  on \<open>args\<close> is applied exactly when the two agree.
\<close>

definition key_version :: "KVServer \<Rightarrow> string \<Rightarrow> Tversion" where
  "key_version kv key = (case KVStore kv key of None \<Rightarrow> 0 | Some e \<Rightarrow> entry_Version e)"

definition key_value :: "KVServer \<Rightarrow> string \<Rightarrow> string" where
  "key_value kv key = (case KVStore kv key of None \<Rightarrow> '''' | Some e \<Rightarrow> entry_Value e)"

text \<open>The store after a put that is applied, and the error code of a put in a given store.\<close>

definition put_store :: "KVServer \<Rightarrow> PutArgs \<Rightarrow> KVServer" where
  "put_store kv args =
     kv\<lparr>KVStore := (KVStore kv)(put_Key args \<mapsto>
          \<lparr>entry_Value = put_Value args, entry_Version = put_Version args + 1\<rparr>)\<rparr>"

definition put_applies :: "KVServer \<Rightarrow> PutArgs \<Rightarrow> bool" where
  "put_applies kv args \<longleftrightarrow> put_Version args = key_version kv (put_Key args)"

definition put_err :: "KVServer \<Rightarrow> PutArgs \<Rightarrow> Err" where
  "put_err kv args =
     (if put_applies kv args then OK
      else if KVStore kv (put_Key args) = None then ErrNoKey else ErrVersion)"

section \<open>What a put does\<close>

text \<open>
  One equation covers every branch of the handler. In particular the \<open>log.Fatal\<close> of
  \<open>UpdateRecord\<close> is dead code: \<open>Put\<close> calls it only for a key it has just found.
\<close>

lemma Server_Put_eq [kv_simps]:
  "Server_Put kv args reply =
     Inr (if put_applies kv args then put_store kv args else kv,
          reply\<lparr>putr_Err := put_err kv args\<rparr>)"
  by (auto simp: Server_Put_def UpdateRecord_def AddRecord_def put_err_def put_applies_def
      put_store_def key_version_def Let_def split: option.splits)

lemma KVStore_put_store [kv_simps]:
  "KVStore (put_store kv args) =
     (KVStore kv)(put_Key args \<mapsto>
        \<lparr>entry_Value = put_Value args, entry_Version = put_Version args + 1\<rparr>)"
  by (simp add: put_store_def)

lemma key_version_put_store [kv_simps]:
  "key_version (put_store kv args) k =
     (if k = put_Key args then put_Version args + 1 else key_version kv k)"
  by (simp add: key_version_def put_store_def)

lemma key_value_put_store [kv_simps]:
  "key_value (put_store kv args) k =
     (if k = put_Key args then put_Value args else key_value kv k)"
  by (simp add: key_value_def put_store_def)

lemma Server_Get_eq [kv_simps]:
  "Server_Get kv args GetReply0 =
     \<lparr>getr_Value = key_value kv (get_Key args), getr_Version = key_version kv (get_Key args),
      getr_Err = (if KVStore kv (get_Key args) = None then ErrNoKey else OK)\<rparr>"
  by (simp add: Server_Get_def GetReply0_def key_value_def key_version_def split: option.splits)

text \<open>
  A run of puts in the order in which the server lock admits them: the final store, and the
  arguments of the puts that were answered \<open>OK\<close>.
\<close>

fun run_puts :: "KVServer \<Rightarrow> PutArgs list \<Rightarrow> (KVServer \<times> PutArgs list) go" where
  "run_puts kv [] = Inr (kv, [])"
| "run_puts kv (a # as) =
     (case Server_Put kv a PutReply0 of
        Inl f \<Rightarrow> Inl f
      | Inr (kv', reply) \<Rightarrow>
          (case run_puts kv' as of
             Inl f \<Rightarrow> Inl f
           | Inr (kv'', oks) \<Rightarrow> Inr (kv'', if putr_Err reply = OK then a # oks else oks)))"

lemma run_puts_total: "\<exists>kv' oks. run_puts kv as = Inr (kv', oks)"
proof (induction as arbitrary: kv)
  case (Cons a as)
  obtain kv1 reply where "Server_Put kv a PutReply0 = Inr (kv1, reply)"
    by (simp add: Server_Put_eq)
  moreover obtain kv2 oks where "run_puts kv1 as = Inr (kv2, oks)" using Cons.IH by blast
  ultimately show ?case by simp
qed simp

lemma run_puts_version:
  "run_puts kv as = Inr (kv', oks) \<Longrightarrow>
     key_version kv' k = key_version kv k + of_nat (length (filter (\<lambda>a. put_Key a = k) oks))"
proof (induction as arbitrary: kv oks)
  case (Cons a as)
  then show ?case
    by (fastforce simp: Server_Put_eq put_err_def put_applies_def key_version_put_store
        split: sum.splits if_splits)
qed simp

end
