(* ===== verification/Kv_Model.thy ===== *)
theory Kv_Model
  imports Kv_Server "HOL-Library.List_Lexorder" "HOL-Library.Char_ord"
begin

text \<open>
  The sequential specification of \<open>models1/kv.go\<close>, against which the testers check histories of
  clerk operations, and its relation to the server: the server's handlers refine \<open>KvModel.Step\<close>
  except for one error code. The linearizability checker itself (\<open>porcupine\<close>) is a third-party
  package; only the model it is given is in the sources. The type of its operation records is a
  type parameter here, read through the function that selects their input.
\<close>

section \<open>The model\<close>

record KvInput =
  in_Op :: uint8
  in_Key :: string
  in_Value :: string
  in_Version :: uint64

record KvOutput =
  out_Value :: string
  out_Version :: uint64
  out_Err :: string

record KvState =
  st_Value :: string
  st_Version :: uint64

text \<open>The model's state is an \<open>interface{}\<close>: a \<open>KvState\<close>, or the string of the invalid branch.\<close>

datatype model_state = KvSt KvState | InvalidSt string

definition KvModel_Init :: model_state where
  "KvModel_Init = KvSt \<lparr>st_Value = '''', st_Version = 0\<rparr>"

text \<open>
  \<open>Step\<close> starts with the type assertion \<open>state.(KvState)\<close>, which panics on any other state.
\<close>

definition KvModel_Step :: "model_state \<Rightarrow> KvInput \<Rightarrow> KvOutput \<Rightarrow> (bool \<times> model_state) go" where
  "KvModel_Step state inp out =
     (case state of
        InvalidSt _ \<Rightarrow> Inl TypePanic
      | KvSt st \<Rightarrow>
          if in_Op inp = 0 then Inr (out_Value out = st_Value st, state)
          else if in_Op inp = 1 then
            (if st_Version st = in_Version inp then
               Inr (out_Err out = ''OK'' \<or> out_Err out = ''ErrMaybe'',
                    KvSt \<lparr>st_Value = in_Value inp, st_Version = st_Version st + 1\<rparr>)
             else Inr (out_Err out = ''ErrVersion'' \<or> out_Err out = ''ErrMaybe'', KvSt st))
          else Inr (False, InvalidSt ''<invalid>''))"

text \<open>
  \<open>Partition\<close> groups a history by key: a map from keys to the operations on them, whose values
  are returned in the order of the sorted keys.
\<close>

fun group_ops :: "('op \<Rightarrow> KvInput) \<Rightarrow> (string \<rightharpoonup> 'op list) \<Rightarrow> 'op list \<Rightarrow> (string \<rightharpoonup> 'op list)" where
  "group_ops input m [] = m"
| "group_ops input m (v # vs) =
     (let key = in_Key (input v) in group_ops input (m(key \<mapsto> map_get m [] key @ [v])) vs)"

definition KvModel_Partition :: "('op \<Rightarrow> KvInput) \<Rightarrow> 'op list \<Rightarrow> 'op list list" where
  "KvModel_Partition input history =
     (let m = group_ops input Map.empty history;
          keys = sort (remdups (map (\<lambda>v. in_Key (input v)) history))
      in map (map_get m []) keys)"

text \<open>The inputs and outputs that \<open>kvtest1/porcupine.go\<close> logs for clerk calls.\<close>

definition get_input :: "string \<Rightarrow> KvInput" where
  "get_input key = \<lparr>in_Op = 0, in_Key = key, in_Value = '''', in_Version = 0\<rparr>"

definition get_output :: "string \<Rightarrow> Tversion \<Rightarrow> Err \<Rightarrow> KvOutput" where
  "get_output val ver err = \<lparr>out_Value = val, out_Version = ver, out_Err = err_string err\<rparr>"

definition put_input :: "PutArgs \<Rightarrow> KvInput" where
  "put_input args =
     \<lparr>in_Op = 1, in_Key = put_Key args, in_Value = put_Value args, in_Version = put_Version args\<rparr>"

definition put_output :: "Err \<Rightarrow> KvOutput" where
  "put_output err = \<lparr>out_Value = '''', out_Version = 0, out_Err = err_string err\<rparr>"

text \<open>The abstraction: what the model's state for a key is when the server's store is \<open>kv\<close>.\<close>

definition abs_key :: "KVServer \<Rightarrow> string \<Rightarrow> model_state" where
  "abs_key kv k = KvSt \<lparr>st_Value = key_value kv k, st_Version = key_version kv k\<rparr>"

section \<open>Partition splits a history by key\<close>

lemma group_ops_get:
  "map_get (group_ops input m vs) [] k =
     map_get m [] k @ filter (\<lambda>v. in_Key (input v) = k) vs"
  by (induction vs arbitrary: m) (auto simp: map_get_def Let_def)

lemma Partition_blocks:
  "KvModel_Partition input history =
     map (\<lambda>k. filter (\<lambda>v. in_Key (input v) = k) history)
       (sort (remdups (map (\<lambda>v. in_Key (input v)) history)))"
  by (simp add: KvModel_Partition_def Let_def group_ops_get) (simp add: map_get_def)

lemma mset_concat_filter_keys:
  "distinct ks \<Longrightarrow> f ` set vs \<subseteq> set ks \<Longrightarrow>
     mset (concat (map (\<lambda>k. filter (\<lambda>v. f v = k) vs) ks)) = mset vs"
proof (induction ks arbitrary: vs)
  case Nil
  then show ?case by simp
next
  case (Cons k ks)
  let ?ws = "filter (\<lambda>v. f v \<noteq> k) vs"
  have eq: "map (\<lambda>j. filter (\<lambda>v. f v = j) vs) ks = map (\<lambda>j. filter (\<lambda>v. f v = j) ?ws) ks"
    using Cons.prems(1) by (auto intro!: filter_cong)
  have "mset (concat (map (\<lambda>j. filter (\<lambda>v. f v = j) ?ws) ks)) = mset ?ws"
    by (rule Cons.IH) (use Cons.prems in auto)
  then have "mset (concat (map (\<lambda>j. filter (\<lambda>v. f v = j) vs) (k # ks))) =
      mset (filter (\<lambda>v. f v = k) vs) + mset ?ws"
    unfolding eq list.map concat.simps mset_append by (simp only:)
  also have "\<dots> = mset vs"
    using multiset_partition [of "mset vs" "\<lambda>v. f v = k"] by (simp only: mset_filter)
  finally show ?case .
qed

text \<open>
  C9: \<open>KvModel.Partition\<close> cuts a history into one block per key that occurs in it, in the order of the sorted keys:
  every block is the subsequence of the operations on its key, in history order, the keys of the
  blocks are distinct and ascending, and the blocks together are a permutation of the history.
\<close>

theorem Partition_correct:
  "\<exists>keys. sorted keys \<and> distinct keys \<and> set keys = (\<lambda>v. in_Key (input v)) ` set history \<and>
     KvModel_Partition input history = map (\<lambda>k. filter (\<lambda>v. in_Key (input v) = k) history) keys \<and>
     mset (concat (KvModel_Partition input history)) = mset history"
proof (intro exI conjI)
  let ?keys = "sort (remdups (map (\<lambda>v. in_Key (input v)) history))"
  show "sorted ?keys" and "distinct ?keys" and "set ?keys = (\<lambda>v. in_Key (input v)) ` set history" by simp_all
  show "KvModel_Partition input history =
      map (\<lambda>k. filter (\<lambda>v. in_Key (input v) = k) history) ?keys"
    by (rule Partition_blocks)
  show "mset (concat (KvModel_Partition input history)) = mset history"
    unfolding Partition_blocks by (rule mset_concat_filter_keys) auto
qed

section \<open>The server refines the model\<close>

lemma abs_key_init: "abs_key MakeKVServer k = KvModel_Init"
  by (simp add: abs_key_def MakeKVServer_def KvModel_Init_def key_value_def key_version_def)

lemma abs_key_put_store:
  "put_applies kv args \<Longrightarrow>
     abs_key (put_store kv args) k =
       (if k = put_Key args
        then KvSt \<lparr>st_Value = put_Value args, st_Version = key_version kv k + 1\<rparr>
        else abs_key kv k)"
  by (simp add: abs_key_def kv_simps put_applies_def)

lemma Step_get:
  "KvModel_Step (abs_key kv k) (get_input k) (get_output v ver err) =
     Inr (v = key_value kv k, abs_key kv k)"
  by (simp add: KvModel_Step_def abs_key_def get_input_def get_output_def)

lemma Step_put:
  "KvModel_Step (abs_key kv (put_Key args)) (put_input args) (put_output err) =
     Inr (if put_applies kv args then err \<in> {OK, ErrMaybe} else err \<in> {ErrVersion, ErrMaybe},
          abs_key (if put_applies kv args then put_store kv args else kv) (put_Key args))"
  using err_string_inject [of err OK] err_string_inject [of err ErrMaybe]
    err_string_inject [of err ErrVersion]
  by (auto simp: KvModel_Step_def abs_key_put_store)
    (auto simp: abs_key_def put_input_def put_output_def put_applies_def)

text \<open>
  C5: the put handler refines the sequential model, on every branch. It always returns (the
  \<open>log.Fatal\<close> of \<open>UpdateRecord\<close> is unreachable); the model, started from the abstraction of the
  store before the put, steps to the abstraction of the store after it; the other keys are
  untouched. The model accepts the reply except for one code: a put on a missing key with a
  version other than 0 is answered \<open>ErrNoKey\<close>, which \<open>KvModel.Step\<close> rejects.
\<close>

theorem Server_Put_refines_Step:
  "\<exists>kv' reply. Server_Put kv args PutReply0 = Inr (kv', reply) \<and>
     KvModel_Step (abs_key kv (put_Key args)) (put_input args) (put_output (putr_Err reply)) =
       Inr (putr_Err reply \<noteq> ErrNoKey, abs_key kv' (put_Key args)) \<and>
     abs_key kv' = (abs_key kv)(put_Key args := abs_key kv' (put_Key args))"
  by (auto simp: Server_Put_eq Step_put put_err_def abs_key_put_store)

text \<open>
  The get handler refines the model and changes nothing: its reply carries the value that the
  model's state for the key has, and the model accepts it, also when the key is missing.
\<close>

theorem Server_Get_refines_Step:
  "KvModel_Step (abs_key kv k) (get_input k)
     (get_output (getr_Value (Server_Get kv \<lparr>get_Key = k\<rparr> GetReply0))
        (getr_Version (Server_Get kv \<lparr>get_Key = k\<rparr> GetReply0))
        (getr_Err (Server_Get kv \<lparr>get_Key = k\<rparr> GetReply0))) =
   Inr (True, abs_key kv k)"
  by (simp add: Step_get Server_Get_eq)

text \<open>
  C7: a get after a successful put returns the value that was put, under the version that was
  put plus one.
\<close>

theorem put_get_roundtrip:
  assumes "Server_Put kv args PutReply0 = Inr (kv', reply)" and "putr_Err reply = OK"
  shows "Server_Get kv' \<lparr>get_Key = put_Key args\<rparr> GetReply0 =
     \<lparr>getr_Value = put_Value args, getr_Version = put_Version args + 1, getr_Err = OK\<rparr>"
proof -
  have "put_applies kv args" and "kv' = put_store kv args"
    using assms by (auto simp: Server_Put_eq put_err_def split: if_splits)
  then show ?thesis by (simp add: kv_simps)
qed

lemma put_get_roundtrip_witness:
  "\<exists>kv' reply. Server_Put MakeKVServer \<lparr>put_Key = ''k'', put_Value = ''v'', put_Version = 0\<rparr> PutReply0
       = Inr (kv', reply) \<and> putr_Err reply = OK \<and>
     Server_Get kv' \<lparr>get_Key = ''k''\<rparr> GetReply0 =
       \<lparr>getr_Value = ''v'', getr_Version = 1, getr_Err = OK\<rparr>"
proof -
  let ?a = "\<lparr>put_Key = ''k'', put_Value = ''v'', put_Version = 0\<rparr>"
  have h: "Server_Put MakeKVServer ?a PutReply0 = Inr (put_store MakeKVServer ?a, \<lparr>putr_Err = OK\<rparr>)"
    by (simp add: Server_Put_eq PutReply0_def put_err_def put_applies_def key_version_def
        MakeKVServer_def)
  show ?thesis using h put_get_roundtrip [OF h] by simp
qed

text \<open>
  C8: a key's version counts the puts applied to it, modulo \<open>2 ^ 64\<close>: after any sequence of puts in
  the order in which the lock admits them, it has grown by exactly the number of those that were
  applied to the key.
\<close>

theorem version_counts_applied_puts:
  "\<exists>kv' oks. run_puts MakeKVServer as = Inr (kv', oks) \<and>
     unat (key_version kv' k) = length (filter (\<lambda>a. put_Key a = k) oks) mod 2 ^ 64"
proof -
  obtain kv' oks where run: "run_puts MakeKVServer as = Inr (kv', oks)"
    using run_puts_total by blast
  have "key_version MakeKVServer k = 0" by (simp add: key_version_def MakeKVServer_def)
  then have "unat (key_version kv' k) = length (filter (\<lambda>a. put_Key a = k) oks) mod 2 ^ 64"
    using run_puts_version [OF run, of k] by (simp add: unat_of_nat)
  with run show ?thesis by blast
qed

end
