(* ===== verification/Kv_Clerk.thy ===== *)
theory Kv_Clerk
  imports Kv_Model
begin

text \<open>
  The clerk of \<open>kvsrv1/client.go\<close> and the concurrent system made of one server and any number of
  clerks over a lossy network. The clerk's retry loops are functions of the outcomes of their
  RPCs. The system is a step relation: a clerk starts a call, an attempt loses its request or its
  reply or is answered, and a clerk whose loop has ended returns. Two history variables record
  the operations in the order in which the server made them happen (\<open>lin\<close>) and the completed
  clerk calls (\<open>hist\<close>); no guard of the relation reads \<open>hist\<close>, and \<open>lin\<close> is read only to append
  an operation once.
\<close>

section \<open>The clerk\<close>

text \<open>
  An RPC of the clerk (\<open>ck.clnt.Call\<close>) reports \<open>false\<close>, here \<open>None\<close>, or fills in the reply. The
  loops consume the outcomes of their successive attempts; \<open>None\<close> as a result means that the
  loop is still retrying when the given outcomes are used up.
\<close>

record Clerk =
  clerk_server :: string

definition MakeClerk :: "string \<Rightarrow> Clerk" where
  "MakeClerk server = \<lparr>clerk_server = server\<rparr>"

fun Clerk_Get :: "GetReply option list \<Rightarrow> (string \<times> Tversion \<times> Err) option" where
  "Clerk_Get [] = None"
| "Clerk_Get (None # os) = Clerk_Get os"
| "Clerk_Get (Some reply # os) = Some (getr_Value reply, getr_Version reply, getr_Err reply)"

definition put_result :: "nat \<Rightarrow> Err \<Rightarrow> Err" where
  "put_result requestCount err =
     (if err = ErrVersion \<and> requestCount > 1 then ErrMaybe else err)"

fun Clerk_Put_loop :: "nat \<Rightarrow> PutReply option list \<Rightarrow> Err option" where
  "Clerk_Put_loop requestCount [] = None"
| "Clerk_Put_loop requestCount (None # os) = Clerk_Put_loop (requestCount + 1) os"
| "Clerk_Put_loop requestCount (Some reply # os) =
     Some (put_result (requestCount + 1) (putr_Err reply))"

definition Clerk_Put :: "PutReply option list \<Rightarrow> Err option" where
  "Clerk_Put os = Clerk_Put_loop 0 os"

section \<open>The system of clerks and server\<close>

text \<open>
  A point of the server's history: a put that was applied, a put that was refused with an error,
  a read with its reply.
\<close>

datatype point = Took PutArgs | Refused PutArgs Err | Read GetArgs GetReply

datatype clerk_pc =
    Idle
  | Putting nat PutArgs "PutReply option list" nat
  | Getting nat GetArgs "GetReply option list" nat

record completed =
  c_id :: nat
  c_input :: KvInput
  c_output :: KvOutput
  c_call :: nat
  c_ret :: nat

record kv_sys =
  srv :: KVServer
  clerks :: "nat \<Rightarrow> clerk_pc"
  next_id :: nat
  lin :: "(nat \<times> point) list"
  hist :: "completed list"

definition kv_init :: kv_sys where
  "kv_init = \<lparr>srv = MakeKVServer, clerks = (\<lambda>_. Idle), next_id = 0, lin = [], hist = []\<rparr>"

definition lin_ids :: "kv_sys \<Rightarrow> nat set" where
  "lin_ids s = fst ` set (lin s)"

definition put_point :: "KVServer \<Rightarrow> PutArgs \<Rightarrow> point" where
  "put_point kv a = (if put_applies kv a then Took a else Refused a (put_err kv a))"

text \<open>
  Executing a put at the server: the handler runs on a zero reply, as \<open>Service.dispatch\<close> calls
  it.
\<close>

inductive kv_step :: "kv_sys \<Rightarrow> kv_sys \<Rightarrow> bool" where
  start_put: "clerks s c = Idle \<Longrightarrow>
     kv_step s (s\<lparr>clerks := (clerks s)(c := Putting (next_id s) a [] (length (lin s))),
                  next_id := Suc (next_id s)\<rparr>)"
| start_get: "clerks s c = Idle \<Longrightarrow>
     kv_step s (s\<lparr>clerks := (clerks s)(c := Getting (next_id s) g [] (length (lin s))),
                  next_id := Suc (next_id s)\<rparr>)"
| put_request_lost: "clerks s c = Putting i a os p \<Longrightarrow> Clerk_Put os = None \<Longrightarrow>
     kv_step s (s\<lparr>clerks := (clerks s)(c := Putting i a (os @ [None]) p)\<rparr>)"
| put_reply_lost: "clerks s c = Putting i a os p \<Longrightarrow> Clerk_Put os = None \<Longrightarrow>
     Server_Put (srv s) a PutReply0 = Inr (kv', reply) \<Longrightarrow>
     kv_step s (s\<lparr>srv := kv', clerks := (clerks s)(c := Putting i a (os @ [None]) p),
                  lin := (if put_applies (srv s) a then lin s @ [(i, Took a)] else lin s)\<rparr>)"
| put_answered: "clerks s c = Putting i a os p \<Longrightarrow> Clerk_Put os = None \<Longrightarrow>
     Server_Put (srv s) a PutReply0 = Inr (kv', reply) \<Longrightarrow>
     kv_step s (s\<lparr>srv := kv', clerks := (clerks s)(c := Putting i a (os @ [Some reply]) p),
                  lin := (if put_applies (srv s) a \<or> i \<notin> lin_ids s
                          then lin s @ [(i, put_point (srv s) a)] else lin s)\<rparr>)"
| put_return: "clerks s c = Putting i a os p \<Longrightarrow> Clerk_Put os = Some err \<Longrightarrow>
     kv_step s (s\<lparr>clerks := (clerks s)(c := Idle),
                  hist := hist s @ [\<lparr>c_id = i, c_input = put_input a, c_output = put_output err,
                                     c_call = p, c_ret = length (lin s)\<rparr>]\<rparr>)"
| get_lost: "clerks s c = Getting i g os p \<Longrightarrow> Clerk_Get os = None \<Longrightarrow>
     kv_step s (s\<lparr>clerks := (clerks s)(c := Getting i g (os @ [None]) p)\<rparr>)"
| get_answered: "clerks s c = Getting i g os p \<Longrightarrow> Clerk_Get os = None \<Longrightarrow>
     Server_Get (srv s) g GetReply0 = reply \<Longrightarrow>
     kv_step s (s\<lparr>clerks := (clerks s)(c := Getting i g (os @ [Some reply]) p),
                  lin := lin s @ [(i, Read g reply)]\<rparr>)"
| get_return: "clerks s c = Getting i g os p \<Longrightarrow> Clerk_Get os = Some (v, ver, err) \<Longrightarrow>
     kv_step s (s\<lparr>clerks := (clerks s)(c := Idle),
                  hist := hist s @ [\<lparr>c_id = i, c_input = get_input (get_Key g),
                                     c_output = get_output v ver err,
                                     c_call = p, c_ret = length (lin s)\<rparr>]\<rparr>)"

section \<open>Loops of the clerk\<close>

lemma Clerk_Put_loop_append_None:
  "Clerk_Put_loop n (os @ [None]) = Clerk_Put_loop n os"
  by (induction n os rule: Clerk_Put_loop.induct) simp_all

lemma Clerk_Put_loop_append_Some:
  "Clerk_Put_loop n os = None \<Longrightarrow>
     Clerk_Put_loop n (os @ [Some r]) = Some (put_result (n + length os + 1) (putr_Err r))"
  by (induction n os rule: Clerk_Put_loop.induct) simp_all

lemma Clerk_Get_append_None: "Clerk_Get (os @ [None]) = Clerk_Get os"
  by (induction os rule: Clerk_Get.induct) simp_all

lemma Clerk_Get_append_Some:
  "Clerk_Get os = None \<Longrightarrow>
     Clerk_Get (os @ [Some r]) = Some (getr_Value r, getr_Version r, getr_Err r)"
  by (induction os rule: Clerk_Get.induct) simp_all

lemma Clerk_Put_append [simp]:
  "Clerk_Put [] = None"
  "Clerk_Put (os @ [None]) = Clerk_Put os"
  "Clerk_Put os = None \<Longrightarrow>
     Clerk_Put (os @ [Some r]) = Some (put_result (Suc (length os)) (putr_Err r))"
  by (simp_all add: Clerk_Put_def Clerk_Put_loop_append_None Clerk_Put_loop_append_Some)

lemmas Clerk_Get_appends [simp] = Clerk_Get_append_None Clerk_Get_append_Some

section \<open>Replaying the server's history\<close>

fun lin_run :: "KVServer \<Rightarrow> point list \<Rightarrow> KVServer option" where
  "lin_run kv [] = Some kv"
| "lin_run kv (Took a # ps) = (if put_applies kv a then lin_run (put_store kv a) ps else None)"
| "lin_run kv (Refused a e # ps) =
     (if \<not> put_applies kv a \<and> e = put_err kv a then lin_run kv ps else None)"
| "lin_run kv (Read g r # ps) = (if r = Server_Get kv g GetReply0 then lin_run kv ps else None)"

fun explains :: "point \<Rightarrow> KvInput \<Rightarrow> KvOutput \<Rightarrow> bool" where
  "explains (Took a) i out \<longleftrightarrow>
     i = put_input a \<and> out \<in> {put_output OK, put_output ErrMaybe}"
| "explains (Refused a e) i out \<longleftrightarrow>
     i = put_input a \<and> (out = put_output e \<or> e = ErrVersion \<and> out = put_output ErrMaybe)"
| "explains (Read g r) i out \<longleftrightarrow>
     i = get_input (get_Key g) \<and> out = get_output (getr_Value r) (getr_Version r) (getr_Err r)"

definition took_count :: "string \<Rightarrow> point list \<Rightarrow> nat" where
  "took_count k ps = length (filter (\<lambda>p. \<exists>a. p = Took a \<and> put_Key a = k) ps)"

lemma took_count_simps [simp]:
  "took_count k [] = 0"
  "took_count k (Took a # ps) = (if put_Key a = k then Suc (took_count k ps) else took_count k ps)"
  "took_count k (Refused a e # ps) = took_count k ps"
  "took_count k (Read g r # ps) = took_count k ps"
  "took_count k (ps @ qs) = took_count k ps + took_count k qs"
  by (simp_all add: took_count_def)

lemma took_count_le: "took_count k ps \<le> length ps"
  by (simp add: took_count_def)

lemma lin_run_append:
  "lin_run kv (ps @ qs) = Option.bind (lin_run kv ps) (\<lambda>kv'. lin_run kv' qs)"
  by (induction kv ps rule: lin_run.induct) auto

lemma lin_run_version:
  "lin_run kv ps = Some kv' \<Longrightarrow> key_version kv' k = key_version kv k + of_nat (took_count k ps)"
  by (induction kv ps rule: lin_run.induct)
    (auto simp: key_version_put_store put_applies_def split: if_splits)

lemma lin_run_present:
  "lin_run kv ps = Some kv' \<Longrightarrow> KVStore kv k \<noteq> None \<Longrightarrow> KVStore kv' k \<noteq> None"
  by (induction kv ps rule: lin_run.induct)
    (auto simp: KVStore_put_store split: if_splits)

lemma lin_run_Took_present:
  "lin_run kv ps = Some kv' \<Longrightarrow> Took a \<in> set ps \<Longrightarrow> KVStore kv' (put_Key a) \<noteq> None"
proof (induction kv ps rule: lin_run.induct)
  case (2 kv b ps)
  then show ?case
    by (cases "Took a \<in> set ps")
      (auto split: if_splits simp: KVStore_put_store dest: lin_run_present [where k = "put_Key a"])
qed (auto split: if_splits)

text \<open>
  A version is spent by the put that took it: as long as fewer than \<open>2 ^ 64\<close> operations have
  happened, the same arguments are not applied a second time.
\<close>

lemma lin_run_Took_spent:
  assumes run: "lin_run MakeKVServer ps = Some kv" and len: "length ps < 2 ^ 64"
    and took: "Took a \<in> set ps"
  shows "\<not> put_applies kv a"
proof
  assume ap: "put_applies kv a"
  from took obtain qs rs where ps: "ps = qs @ Took a # rs" by (meson split_list)
  let ?k = "put_Key a" and ?n = "took_count (put_Key a) qs" and ?m = "took_count (put_Key a) ps"
  from run ps obtain kv1 where r1: "lin_run MakeKVServer qs = Some kv1" and ap1: "put_applies kv1 a"
    by (auto simp: lin_run_append split: Option.bind_splits if_splits)
  have v0: "key_version MakeKVServer ?k = 0" by (simp add: key_version_def MakeKVServer_def)
  have "put_Version a = of_nat ?n"
    using ap1 lin_run_version [OF r1, of ?k] v0 by (simp add: put_applies_def)
  moreover have "put_Version a = of_nat ?m"
    using ap lin_run_version [OF run, of ?k] v0 by (simp add: put_applies_def)
  ultimately have "(of_nat ?n :: 64 word) = of_nat ?m" by simp
  moreover have "?m < 2 ^ 64" using took_count_le [of ?k ps] len by linarith
  moreover have "?n < ?m" using ps by simp
  ultimately show False
    using of_nat_word_inject [where 'a = 64, of ?n ?m] by simp
qed

end
