(* ===== verification/Kv_Linear.thy ===== *)
theory Kv_Linear
  imports Kv_Clerk
begin

text \<open>
  Linearizability of the clerk/server system of \<open>kvsrv1\<close>: every completed clerk call is explained
  by one point of the server's history that lies between its call and its return, and the history
  is a run of the sequential model \<open>KvModel\<close>, extended by the one answer of the server that the model
  has no transition for. In this system a handler has taken effect, or never will, when its call
  ends; \<open>Kv_Late\<close> drops that assumption.
\<close>

section \<open>The invariant\<close>

text \<open>
  \<open>happened s i p P\<close>: operation \<open>i\<close> happened at a position not before \<open>p\<close>, at a point of which
  \<open>P\<close> holds.
\<close>

definition happened :: "(nat \<times> point) list \<Rightarrow> nat \<Rightarrow> nat \<Rightarrow> (point \<Rightarrow> bool) \<Rightarrow> bool" where
  "happened l i p P \<longleftrightarrow> (\<exists>n. p \<le> n \<and> n < length l \<and> fst (l ! n) = i \<and> P (snd (l ! n)))"

fun clerk_ok :: "kv_sys \<Rightarrow> clerk_pc \<Rightarrow> bool" where
  "clerk_ok s Idle \<longleftrightarrow> True"
| "clerk_ok s (Putting i a os p) \<longleftrightarrow>
     i < next_id s \<and> p \<le> length (lin s) \<and>
     (case Clerk_Put os of
        None \<Rightarrow> i \<in> lin_ids s \<longrightarrow> os \<noteq> [] \<and> happened (lin s) i p (\<lambda>q. q = Took a)
      | Some err \<Rightarrow> happened (lin s) i p (\<lambda>q. explains q (put_input a) (put_output err)))"
| "clerk_ok s (Getting i g os p) \<longleftrightarrow>
     i < next_id s \<and> p \<le> length (lin s) \<and>
     (case Clerk_Get os of
        None \<Rightarrow> i \<notin> lin_ids s
      | Some (v, ver, err) \<Rightarrow>
          happened (lin s) i p (\<lambda>q. explains q (get_input (get_Key g)) (get_output v ver err)))"

fun clerk_op :: "clerk_pc \<Rightarrow> nat option" where
  "clerk_op Idle = None"
| "clerk_op (Putting i a os p) = Some i"
| "clerk_op (Getting i g os p) = Some i"

definition lin_inv :: "kv_sys \<Rightarrow> bool" where
  "lin_inv s \<longleftrightarrow> lin_run MakeKVServer (map snd (lin s)) = Some (srv s)"

definition ids_inv :: "kv_sys \<Rightarrow> bool" where
  "ids_inv s \<longleftrightarrow>
     (\<forall>i\<in>lin_ids s. i < next_id s) \<and>
     (\<forall>c i. clerk_op (clerks s c) = Some i \<longrightarrow> i < next_id s) \<and>
     (\<forall>c d i. clerk_op (clerks s c) = Some i \<longrightarrow> clerk_op (clerks s d) = Some i \<longrightarrow> c = d) \<and>
     (\<forall>h\<in>set (hist s). c_id h < next_id s) \<and> distinct (map c_id (hist s)) \<and>
     (\<forall>c. \<forall>h\<in>set (hist s). clerk_op (clerks s c) \<noteq> Some (c_id h))"

definition hist_ok :: "kv_sys \<Rightarrow> completed \<Rightarrow> bool" where
  "hist_ok s h \<longleftrightarrow>
     c_ret h \<le> length (lin s) \<and>
     happened (take (c_ret h) (lin s)) (c_id h) (c_call h)
       (\<lambda>q. explains q (c_input h) (c_output h))"

text \<open>
  While fewer than \<open>2 ^ 64\<close> operations have happened: no operation happens twice, the clerks'
  views agree with the history, and so do the completed calls.
\<close>

definition view_inv :: "kv_sys \<Rightarrow> bool" where
  "view_inv s \<longleftrightarrow>
     (length (lin s) < 2 ^ 64 \<longrightarrow>
       distinct (map fst (lin s)) \<and> (\<forall>c. clerk_ok s (clerks s c)) \<and>
       (\<forall>h\<in>set (hist s). hist_ok s h))"

section \<open>Facts on positions\<close>

lemma happened_append: "happened l i p P \<Longrightarrow> happened (l @ l') i p P"
  by (auto simp: happened_def nth_append)

lemma happened_snoc: "p \<le> length l \<Longrightarrow> P q \<Longrightarrow> happened (l @ [(i, q)]) i p P"
  by (auto simp: happened_def intro!: exI [of _ "length l"])

lemma happened_mono: "happened l i p P \<Longrightarrow> (\<And>q. P q \<Longrightarrow> Q q) \<Longrightarrow> happened l i p Q"
  by (auto simp: happened_def)

lemma happened_mem: "happened l i p P \<Longrightarrow> \<exists>q. (i, q) \<in> set l \<and> P q"
  unfolding happened_def by (metis nth_mem prod.collapse)

lemma lin_ids_iff: "i \<in> lin_ids s \<longleftrightarrow> (\<exists>q. (i, q) \<in> set (lin s))"
  by (force simp: lin_ids_def)

lemma lin_ids_update [simp]:
  "lin_ids (s\<lparr>clerks := f\<rparr>) = lin_ids s" "lin_ids (s\<lparr>hist := h\<rparr>) = lin_ids s"
  "lin_ids (s\<lparr>srv := k\<rparr>) = lin_ids s" "lin_ids (s\<lparr>next_id := n\<rparr>) = lin_ids s"
  "lin_ids (s\<lparr>lin := l\<rparr>) = fst ` set l"
  by (simp_all add: lin_ids_def)

text \<open>
  The clerks other than the one that moves keep their view when the history grows by operations
  that are not theirs.
\<close>

lemma clerk_ok_mono:
  assumes "clerk_ok s pc" and "next_id s \<le> next_id t" and "lin t = lin s @ l"
    and "\<And>i. clerk_op pc = Some i \<Longrightarrow> i \<notin> fst ` set l"
  shows "clerk_ok t pc"
  using assms
  by (cases pc)
    (auto simp: lin_ids_def happened_append split: option.splits prod.splits)

lemma hist_ok_mono: "hist_ok s h \<Longrightarrow> lin t = lin s @ l \<Longrightarrow> hist_ok t h"
  by (auto simp: hist_ok_def)

section \<open>The invariant is kept\<close>

lemma lin_inv_step: "kv_step s t \<Longrightarrow> lin_inv s \<Longrightarrow> lin_inv t"
  by (induction rule: kv_step.induct)
    (auto simp: lin_inv_def lin_run_append Server_Put_eq put_point_def split: if_splits)

text \<open>A clerk that goes on with its operation or completes it, and a clerk that starts one.\<close>

lemma ids_inv_move:
  assumes inv: "ids_inv s" and c: "clerks t = (clerks s)(c := pc)" and n: "next_id t = next_id s"
    and op: "clerk_op (clerks s c) = Some j" and l: "lin_ids t \<subseteq> insert j (lin_ids s)"
    and h: "clerk_op pc = Some j \<and> hist t = hist s \<or>
       clerk_op pc = None \<and> (\<exists>h. hist t = hist s @ [h] \<and> c_id h = j)"
  shows "ids_inv t"
proof -
  have old: "clerk_op (clerks t d) = Some i \<Longrightarrow> clerk_op (clerks s d) = Some i" for d i
    using c h op by (auto split: if_splits)
  have "clerk_op (clerks t d) \<noteq> Some j" if "clerk_op pc = None" for d
    using that old [of d j] c inv op unfolding ids_inv_def
    by (metis fun_upd_apply option.distinct(1))
  moreover have "\<forall>d. \<forall>g\<in>set (hist s). clerk_op (clerks t d) \<noteq> Some (c_id g)"
    using inv unfolding ids_inv_def by (auto dest: old)
  ultimately have "\<forall>d. \<forall>g\<in>set (hist t). clerk_op (clerks t d) \<noteq> Some (c_id g)"
    using h by auto
  moreover have "distinct (map c_id (hist t))" "\<forall>g\<in>set (hist t). c_id g < next_id t"
    using h inv op n unfolding ids_inv_def by auto
  moreover have "\<forall>i\<in>lin_ids t. i < next_id t" using l inv op n unfolding ids_inv_def by auto
  moreover have "\<forall>d i. clerk_op (clerks t d) = Some i \<longrightarrow> i < next_id t"
    using old inv n unfolding ids_inv_def by metis
  moreover have "\<forall>d e i. clerk_op (clerks t d) = Some i \<longrightarrow> clerk_op (clerks t e) = Some i \<longrightarrow> d = e"
    using old inv unfolding ids_inv_def by metis
  ultimately show ?thesis unfolding ids_inv_def by blast
qed

lemma ids_inv_start:
  assumes inv: "ids_inv s" and c: "clerks t = (clerks s)(c := pc)" and n: "next_id t = Suc (next_id s)"
    and op: "clerk_op pc = Some (next_id s)" and l: "lin_ids t = lin_ids s" and h: "hist t = hist s"
  shows "ids_inv t"
proof -
  have old: "clerk_op (clerks t d) = Some i \<Longrightarrow> d = c \<and> i = next_id s \<or> d \<noteq> c \<and> clerk_op (clerks s d) = Some i"
    for d i using c op by (auto split: if_splits)
  have "\<forall>d. \<forall>g\<in>set (hist t). clerk_op (clerks t d) \<noteq> Some (c_id g)"
    using old inv h unfolding ids_inv_def by fastforce
  moreover have "distinct (map c_id (hist t))" "\<forall>g\<in>set (hist t). c_id g < next_id t"
    using h inv n unfolding ids_inv_def by (auto simp: less_Suc_eq)
  moreover have "\<forall>i\<in>lin_ids t. i < next_id t"
    using l inv n unfolding ids_inv_def by (auto simp: less_Suc_eq)
  moreover have "i < next_id t" if "clerk_op (clerks t d) = Some i" for d i
    using old [OF that] inv n unfolding ids_inv_def by (auto simp: less_Suc_eq)
  moreover have "d = e" if "clerk_op (clerks t d) = Some i" and "clerk_op (clerks t e) = Some i" for d e i
    using old [OF that(1)] old [OF that(2)] inv unfolding ids_inv_def by (metis less_irrefl)
  ultimately show ?thesis unfolding ids_inv_def by blast
qed

lemma ids_inv_step: "kv_step s t \<Longrightarrow> ids_inv s \<Longrightarrow> ids_inv t"
proof (induction rule: kv_step.induct)
  case (start_put s c a)
  then show ?case by (auto intro: ids_inv_start)
next
  case (start_get s c g)
  then show ?case by (auto intro: ids_inv_start)
qed (rule ids_inv_move, assumption, auto simp: lin_ids_def)+

section \<open>The clerks' views\<close>

lemma view_invI:
  assumes "view_inv s" and "lin t = lin s @ l"
    and "clerks t = (clerks s)(c := pc)" and "next_id s \<le> next_id t"
    and "\<And>d i. d \<noteq> c \<Longrightarrow> clerk_op (clerks s d) = Some i \<Longrightarrow> i \<notin> fst ` set l"
    and "length (lin t) < 2 ^ 64 \<Longrightarrow> distinct (map fst (lin s)) \<Longrightarrow> clerk_ok s (clerks s c) \<Longrightarrow>
           distinct (map fst (lin t)) \<and> clerk_ok t pc"
    and "\<And>h. length (lin t) < 2 ^ 64 \<Longrightarrow> h \<in> set (hist t) \<Longrightarrow> clerk_ok s (clerks s c) \<Longrightarrow>
           h \<in> set (hist s) \<or> hist_ok t h"
  shows "view_inv t"
  unfolding view_inv_def
proof (intro impI)
  assume len: "length (lin t) < 2 ^ 64"
  with assms(2) have "length (lin s) < 2 ^ 64" by simp
  with assms(1) have s: "distinct (map fst (lin s))" "\<And>d. clerk_ok s (clerks s d)"
      "\<And>h. h \<in> set (hist s) \<Longrightarrow> hist_ok s h"
    by (auto simp: view_inv_def)
  have "clerk_ok t (clerks t d)" for d
    using assms(3-6) len s(1,2) clerk_ok_mono [OF s(2) assms(4,2), of d] by auto
  moreover have "hist_ok t h" if "h \<in> set (hist t)" for h
    using assms(7) [OF len that s(2)] s(3) hist_ok_mono [OF _ assms(2)] by blast
  ultimately show "distinct (map fst (lin t)) \<and> (\<forall>c. clerk_ok t (clerks t c)) \<and>
      (\<forall>h\<in>set (hist t). hist_ok t h)"
    using assms(6) [OF len s(1) s(2)] by blast
qed

lemma Took_happened_spent:
  assumes "lin_inv s" and "length (lin s) < 2 ^ 64" and "happened (lin s) i p (\<lambda>q. q = Took a)"
  shows "\<not> put_applies (srv s) a" and "put_err (srv s) a = ErrVersion"
proof -
  have mem: "Took a \<in> set (map snd (lin s))"
    using happened_mem [OF assms(3)] by force
  have run: "lin_run MakeKVServer (map snd (lin s)) = Some (srv s)"
    using assms(1) by (simp add: lin_inv_def)
  show not: "\<not> put_applies (srv s) a"
    by (rule lin_run_Took_spent [OF run _ mem]) (use assms(2) in simp)
  with lin_run_Took_present [OF run mem] show "put_err (srv s) a = ErrVersion"
    by (simp add: put_err_def)
qed

lemma other_ids:
  "ids_inv s \<Longrightarrow> clerk_op (clerks s c) = Some i \<Longrightarrow> d \<noteq> c \<Longrightarrow> clerk_op (clerks s d) = Some j \<Longrightarrow> j \<noteq> i"
  unfolding ids_inv_def by blast

lemma clerk_ok_fresh:
  assumes "lin_inv s" and "length (lin s) < 2 ^ 64" and "clerk_ok s (Putting i a os p)"
    and "Clerk_Put os = None" and "put_applies (srv s) a"
  shows "i \<notin> lin_ids s"
  using Took_happened_spent(1) [OF assms(1,2)] assms(3-5) by auto

lemma put_answer_ok:
  assumes "lin_inv s" and len: "length (lin s) < 2 ^ 64" and ok: "clerk_ok s (Putting i a os p)"
    and none: "Clerk_Put os = None"
    and l: "l = (if put_applies (srv s) a \<or> i \<notin> lin_ids s
                 then lin s @ [(i, put_point (srv s) a)] else lin s)"
  shows "happened l i p
    (\<lambda>q. explains q (put_input a) (put_output (put_result (Suc (length os)) (put_err (srv s) a))))"
proof (cases "put_applies (srv s) a \<or> i \<notin> lin_ids s")
  case True
  have "explains (put_point (srv s) a) (put_input a)
      (put_output (put_result (Suc (length os)) (put_err (srv s) a)))"
    by (auto simp: put_point_def put_err_def put_result_def)
  with True ok l show ?thesis by (auto intro: happened_snoc)
next
  case False
  with ok none have "os \<noteq> []" and h: "happened (lin s) i p (\<lambda>q. q = Took a)" by auto
  then have "put_result (Suc (length os)) (put_err (srv s) a) = ErrMaybe"
    using Took_happened_spent(2) [OF assms(1) len h] by (simp add: put_result_def)
  with False l h show ?thesis by (auto elim: happened_mono)
qed

lemma view_inv_step:
  "kv_step s t \<Longrightarrow> lin_inv s \<and> ids_inv s \<Longrightarrow> view_inv s \<Longrightarrow> view_inv t"
proof (induction rule: kv_step.induct)
  case (start_put s c a)
  show ?case
    by (rule view_invI [where s = s and l = "[]" and c = c and
          pc = "Putting (next_id s) a [] (length (lin s))"])
      (use start_put in \<open>auto simp: ids_inv_def\<close>)
next
  case (start_get s c g)
  show ?case
    by (rule view_invI [where s = s and l = "[]" and c = c and
          pc = "Getting (next_id s) g [] (length (lin s))"])
      (use start_get in \<open>auto simp: ids_inv_def\<close>)
next
  case (put_request_lost s c i a os p)
  show ?case
    by (rule view_invI [where s = s and l = "[]" and c = c and pc = "Putting i a (os @ [None]) p"])
      (use put_request_lost in auto)
next
  case (put_reply_lost s c i a os p kv' reply)
  let ?l = "if put_applies (srv s) a then [(i, Took a)] else []"
  show ?case
    by (rule view_invI [where s = s and l = ?l and c = c and pc = "Putting i a (os @ [None]) p"])
      (use put_reply_lost clerk_ok_fresh [of s i a os p] other_ids [of s c i] in
        \<open>auto simp: lin_ids_iff happened_snoc\<close>)
next
  case (put_answered s c i a os p kv' reply)
  let ?l = "if put_applies (srv s) a \<or> i \<notin> lin_ids s then [(i, put_point (srv s) a)] else []"
  let ?t = "s\<lparr>srv := kv', clerks := (clerks s)(c := Putting i a (os @ [Some reply]) p),
               lin := (if put_applies (srv s) a \<or> i \<notin> lin_ids s
                       then lin s @ [(i, put_point (srv s) a)] else lin s)\<rparr>"
  have reply: "putr_Err reply = put_err (srv s) a" using put_answered(3) by (auto simp: Server_Put_eq)
  show ?case
  proof (rule view_invI [where s = s and l = ?l and c = c and pc = "Putting i a (os @ [Some reply]) p"])
    show "j \<notin> fst ` set ?l" if "d \<noteq> c" and "clerk_op (clerks s d) = Some j" for d j
      using other_ids [of s c i d j] that put_answered by auto
    assume "length (lin ?t) < 2 ^ 64" and dist: "distinct (map fst (lin s))"
      and "clerk_ok s (clerks s c)"
    then have len: "length (lin s) < 2 ^ 64" and ok: "clerk_ok s (Putting i a os p)"
      using put_answered(1) by (simp_all split: if_splits)
    have "i \<notin> lin_ids s" if "put_applies (srv s) a \<or> i \<notin> lin_ids s"
      using that clerk_ok_fresh [OF _ len ok] put_answered by blast
    then have "distinct (map fst (lin ?t))" using dist by (auto simp: lin_ids_def)
    moreover have "clerk_ok ?t (Putting i a (os @ [Some reply]) p)"
      using put_answer_ok [OF _ len ok] put_answered ok reply by simp
    ultimately show "distinct (map fst (lin ?t)) \<and> clerk_ok ?t (Putting i a (os @ [Some reply]) p)" ..
  qed (use put_answered in simp_all)
next
  case (put_return s c i a os p err)
  show ?case
    by (rule view_invI [where s = s and l = "[]" and c = c and pc = Idle]) (use put_return in \<open>auto simp: hist_ok_def\<close>)
next
  case (get_lost s c i g os p)
  show ?case
    by (rule view_invI [where s = s and l = "[]" and c = c and pc = "Getting i g (os @ [None]) p"])
      (use get_lost in auto)
next
  case (get_answered s c i g os p reply)
  show ?case
    by (rule view_invI [where s = s and l = "[(i, Read g reply)]" and c = c and
          pc = "Getting i g (os @ [Some reply]) p"])
      (use get_answered other_ids [of s c i] in \<open>auto simp: lin_ids_iff happened_snoc\<close>)
next
  case (get_return s c i g os p v ver err)
  show ?case
    by (rule view_invI [where s = s and l = "[]" and c = c and pc = Idle]) (use get_return in \<open>auto simp: hist_ok_def\<close>)
qed

interpretation kv_base: invariant_system kv_init kv_step "\<lambda>s. lin_inv s \<and> ids_inv s"
proof unfold_locales
  show "lin_inv kv_init \<and> ids_inv kv_init"
    by (simp add: kv_init_def lin_inv_def ids_inv_def lin_ids_def)
qed (blast intro: lin_inv_step ids_inv_step)

interpretation kv_view: relative_invariant kv_init kv_step "\<lambda>s. lin_inv s \<and> ids_inv s" view_inv
  by unfold_locales (auto simp: kv_init_def view_inv_def dest: view_inv_step)

section \<open>The history is a run of the sequential model\<close>

text \<open>
  \<open>model_accepts\<close> replays inputs and outputs on \<open>KvModel\<close>, one state per key, as \<open>porcupine\<close> does
  after \<open>Partition\<close>.
\<close>

fun model_accepts :: "(string \<Rightarrow> model_state) \<Rightarrow> (KvInput \<times> KvOutput) list \<Rightarrow> bool" where
  "model_accepts st [] = True"
| "model_accepts st ((i, out) # ops) =
     (case KvModel_Step (st (in_Key i)) i out of
        Inr (True, m) \<Rightarrow> model_accepts (st(in_Key i := m)) ops
      | _ \<Rightarrow> False)"

fun point_input :: "point \<Rightarrow> KvInput" where
  "point_input (Took a) = put_input a"
| "point_input (Refused a e) = put_input a"
| "point_input (Read g r) = get_input (get_Key g)"

fun point_output :: "point \<Rightarrow> KvOutput" where
  "point_output (Took a) = put_output OK"
| "point_output (Refused a e) = put_output e"
| "point_output (Read g r) = get_output (getr_Value r) (getr_Version r) (getr_Err r)"

text \<open>
  \<open>KvModel.Step\<close> rejects every put answered \<open>ErrNoKey\<close>. The specification accepts such an answer when the
  key is not there (version 0) and the put is of another version, with no change of the state; on every other
  operation it is \<open>KvModel.Step\<close>.
\<close>

definition no_key_refusal :: "KvInput \<times> KvOutput \<Rightarrow> bool" where
  "no_key_refusal op \<longleftrightarrow> in_Op (fst op) = 1 \<and> out_Err (snd op) = ''ErrNoKey''"

definition KvSpec_Step :: "model_state \<Rightarrow> KvInput \<Rightarrow> KvOutput \<Rightarrow> (bool \<times> model_state) go" where
  "KvSpec_Step state inp out =
     (case state of
        KvSt st \<Rightarrow> if no_key_refusal (inp, out) then Inr (st_Version st = 0 \<and> in_Version inp \<noteq> 0, state)
                   else KvModel_Step state inp out
      | InvalidSt _ \<Rightarrow> KvModel_Step state inp out)"

fun spec_accepts :: "(string \<Rightarrow> model_state) \<Rightarrow> (KvInput \<times> KvOutput) list \<Rightarrow> bool" where
  "spec_accepts st [] = True"
| "spec_accepts st ((i, out) # ops) =
     (case KvSpec_Step (st (in_Key i)) i out of
        Inr (True, m) \<Rightarrow> spec_accepts (st(in_Key i := m)) ops
      | _ \<Rightarrow> False)"

text \<open>What the specification accepts, \<open>KvModel\<close> accepts without the refusals.\<close>

lemma KvSpec_Step_other: "\<not> no_key_refusal (i, out) \<Longrightarrow> KvSpec_Step st i out = KvModel_Step st i out"
  by (simp add: KvSpec_Step_def split: model_state.split)

lemma KvSpec_Step_refusal: "no_key_refusal (i, out) \<Longrightarrow> KvSpec_Step st i out = Inr (True, m) \<Longrightarrow> m = st"
  by (auto simp: KvSpec_Step_def KvModel_Step_def split: model_state.splits)

lemma spec_accepts_model:
  "spec_accepts st ops \<Longrightarrow> model_accepts st (filter (\<lambda>op. \<not> no_key_refusal op) ops)"
proof (induction st ops rule: spec_accepts.induct)
  case (2 st i out ops)
  then obtain m where m: "KvSpec_Step (st (in_Key i)) i out = Inr (True, m)" "spec_accepts (st(in_Key i := m)) ops"
    by (auto split: sum.splits prod.splits bool.splits)
  have ih: "model_accepts (st(in_Key i := m)) (filter (\<lambda>op. \<not> no_key_refusal op) ops)"
    by (rule 2(1) [OF m(1) refl _ m(2)]) simp
  show ?case
  proof (cases "no_key_refusal (i, out)")
    case True
    then have "m = st (in_Key i)" using KvSpec_Step_refusal m(1) by blast
    then show ?thesis using True ih by simp
  next
    case False
    then show ?thesis using m ih KvSpec_Step_other [OF False] by simp
  qed
qed simp

lemma explains_point_output: "explains q (point_input q) (point_output q)"
  by (cases q) simp_all

lemma explains_input: "explains q i out \<Longrightarrow> i = point_input q"
  by (cases q) simp_all

lemma abs_key_upd:
  "put_applies kv a \<Longrightarrow>
     (abs_key kv)(put_Key a := abs_key (put_store kv a) (put_Key a)) = abs_key (put_store kv a)"
  by (auto simp: abs_key_put_store)

lemma put_err_not_applied: "\<not> put_applies kv a \<Longrightarrow> put_err kv a \<in> {ErrNoKey, ErrVersion}"
  by (simp add: put_err_def)

lemma in_Key_inputs [simp]: "in_Key (put_input a) = put_Key a" "in_Key (get_input k) = k"
  by (simp_all add: put_input_def get_input_def)

lemma put_output_inject [simp]: "put_output e = put_output f \<longleftrightarrow> e = f"
  by (simp add: put_output_def)

lemma Spec_put_refused:
  "\<not> put_applies kv a \<Longrightarrow> put_err kv a = ErrNoKey \<Longrightarrow>
     KvSpec_Step (abs_key kv (put_Key a)) (put_input a) (put_output ErrNoKey) = Inr (True, abs_key kv (put_Key a))"
  by (auto simp: KvSpec_Step_def no_key_refusal_def abs_key_def put_input_def put_output_def put_err_def
      put_applies_def key_version_def split: if_splits option.splits)

lemma not_no_key:
  "err \<noteq> ErrNoKey \<Longrightarrow> \<not> no_key_refusal (put_input a, put_output err)"
  "\<not> no_key_refusal (get_input k, out)"
  using err_string_inject [of err ErrNoKey]
  by (simp_all add: no_key_refusal_def put_input_def put_output_def get_input_def)

lemma lin_run_accepted:
  "lin_run kv ps = Some kv' \<Longrightarrow> length outs = length ps \<Longrightarrow>
     (\<And>n. n < length ps \<Longrightarrow> explains (ps ! n) (point_input (ps ! n)) (outs ! n)) \<Longrightarrow>
     spec_accepts (abs_key kv) (zip (map point_input ps) outs)"
proof (induction kv ps arbitrary: outs rule: lin_run.induct)
  case (1 kv)
  then show ?case by simp
next
  case (2 kv a ps)
  then obtain out outs' where o: "outs = out # outs'" by (cases outs) auto
  have "out = put_output OK \<or> out = put_output ErrMaybe" using 2(4) [of 0] o by auto
  moreover have "\<And>n. n < length ps \<Longrightarrow> explains (ps ! n) (point_input (ps ! n)) (outs' ! n)"
    using 2(4) [of "Suc n" for n] o by auto
  ultimately show ?case
    using 2 o by (auto simp: KvSpec_Step_other not_no_key Step_put abs_key_upd split: if_splits)
next
  case (3 kv a e ps)
  then obtain out outs' where o: "outs = out # outs'" by (cases outs) auto
  have out: "out = put_output e \<or> e = ErrVersion \<and> out = put_output ErrMaybe"
    using 3(4) [of 0] o by auto
  have "\<And>n. n < length ps \<Longrightarrow> explains (ps ! n) (point_input (ps ! n)) (outs' ! n)"
    using 3(4) [of "Suc n" for n] o by auto
  then have rest: "spec_accepts (abs_key kv) (zip (map point_input ps) outs')"
    using 3 o by (auto split: if_splits)
  have ref: "\<not> put_applies kv a" "e = put_err kv a" using 3(2) by (auto split: if_splits)
  show ?case
  proof (cases "e = ErrNoKey")
    case True
    then show ?thesis using ref out o rest Spec_put_refused [of kv a] by simp
  next
    case False
    then show ?thesis using ref out o rest put_err_not_applied [of kv a]
      by (auto simp: KvSpec_Step_other not_no_key Step_put)
  qed
next
  case (4 kv g r ps)
  then obtain out outs' where o: "outs = out # outs'" by (cases outs) auto
  have "out = get_output (getr_Value r) (getr_Version r) (getr_Err r)"
    using 4(4) [of 0] o by auto
  moreover have "\<And>n. n < length ps \<Longrightarrow> explains (ps ! n) (point_input (ps ! n)) (outs' ! n)"
    using 4(4) [of "Suc n" for n] o by auto
  ultimately show ?case
    using 4 o by (auto simp: KvSpec_Step_other not_no_key Step_get Server_Get_eq split: if_splits)
qed

definition op_output :: "kv_sys \<Rightarrow> nat \<times> point \<Rightarrow> KvOutput" where
  "op_output s e =
     (case find (\<lambda>h. c_id h = fst e) (hist s) of
        Some h \<Rightarrow> c_output h | None \<Rightarrow> point_output (snd e))"

text \<open>All operations that happened, in their order, with the given outputs.\<close>

definition linearization :: "kv_sys \<Rightarrow> KvOutput list \<Rightarrow> (KvInput \<times> KvOutput) list" where
  "linearization s outs = zip (map (\<lambda>e. point_input (snd e)) (lin s)) outs"

lemma op_output_hist:
  assumes "ids_inv s" and "h \<in> set (hist s)" and "c_id h = fst e"
  shows "op_output s e = c_output h"
  using find_distinct [of c_id "hist s" h] assms by (simp add: ids_inv_def op_output_def)

lemma op_output_explains:
  assumes "ids_inv s" and dist: "distinct (map fst (lin s))"
    and hist: "\<And>h. h \<in> set (hist s) \<Longrightarrow> hist_ok s h" and n: "n < length (lin s)"
  shows "explains (snd (lin s ! n)) (point_input (snd (lin s ! n))) (op_output s (lin s ! n))"
proof (cases "find (\<lambda>h. c_id h = fst (lin s ! n)) (hist s)")
  case None
  then show ?thesis by (simp add: op_output_def explains_point_output)
next
  case (Some h)
  then have h: "h \<in> set (hist s)" "c_id h = fst (lin s ! n)" by (auto simp: find_Some_iff)
  from hist [OF h(1)] obtain m where m: "m < length (lin s)" "fst (lin s ! m) = c_id h"
      "explains (snd (lin s ! m)) (c_input h) (c_output h)"
    by (fastforce simp: hist_ok_def happened_def)
  have "m = n"
    using nth_eq_iff_index_eq [OF dist, of m n] m(1,2) n h(2) by simp
  with m(3) explains_input [OF m(3)] Some show ?thesis by (simp add: op_output_def)
qed

text \<open>
  C1: the key/value service is linearizable. Take any number of clerks and one server over a network that
  loses requests and replies and on which a handler has taken effect, or never will, when its call ends, with
  fewer than \<open>2 ^ 64\<close> operations, so that no version number repeats. All operations that happened at the server, in
  their order and with suitable outputs for the calls still pending, form a run of the sequential
  specification: \<open>KvModel\<close>, extended by puts refused with \<open>ErrNoKey\<close> on missing keys, which \<open>KvModel.Step\<close> rejects. Without
  those refusals, which change nothing, the run is one that \<open>KvModel\<close> itself accepts: all of it, if no put was refused with \<open>ErrNoKey\<close>.
  Each operation happens once; and every completed clerk call is one of these operations, with the
  input and output that the tester logs, at a point between its call and its return.
\<close>

theorem kv_linearizable:
  assumes "reachable kv_init kv_step s" and "length (lin s) < 2 ^ 64"
  shows "\<exists>outs. length outs = length (lin s) \<and>
     spec_accepts (\<lambda>_. KvModel_Init) (linearization s outs) \<and>
     model_accepts (\<lambda>_. KvModel_Init) (filter (\<lambda>op. \<not> no_key_refusal op) (linearization s outs)) \<and>
     distinct (map fst (lin s)) \<and>
     (\<forall>h\<in>set (hist s). \<exists>n. c_call h \<le> n \<and> n < c_ret h \<and> c_ret h \<le> length (lin s) \<and>
        fst (lin s ! n) = c_id h \<and> linearization s outs ! n = (c_input h, c_output h))"
proof (intro exI [of _ "map (op_output s) (lin s)"] conjI ballI)
  have run: "lin_run MakeKVServer (map snd (lin s)) = Some (srv s)" and ids: "ids_inv s"
    using kv_base.inv_reachable [OF assms(1)] by (simp_all add: lin_inv_def)
  have dist: "distinct (map fst (lin s))" and hist: "\<And>h. h \<in> set (hist s) \<Longrightarrow> hist_ok s h"
    using kv_view.rel_reachable [OF assms(1)] assms(2) by (simp_all add: view_inv_def)
  let ?outs = "map (op_output s) (lin s)"
  show "length ?outs = length (lin s)" by simp
  show "distinct (map fst (lin s))" by (rule dist)
  have "spec_accepts (abs_key MakeKVServer) (zip (map point_input (map snd (lin s))) ?outs)"
    by (rule lin_run_accepted [OF run]) (simp_all add: op_output_explains [OF ids dist hist])
  then show spec: "spec_accepts (\<lambda>_. KvModel_Init) (linearization s ?outs)"
    by (simp add: abs_key_init [abs_def] linearization_def comp_def)
  show "model_accepts (\<lambda>_. KvModel_Init) (filter (\<lambda>op. \<not> no_key_refusal op) (linearization s ?outs))"
    by (rule spec_accepts_model [OF spec])
  fix h assume h: "h \<in> set (hist s)"
  from hist [OF h] obtain n where "c_call h \<le> n" "n < c_ret h" "c_ret h \<le> length (lin s)"
      "fst (lin s ! n) = c_id h" "explains (snd (lin s ! n)) (c_input h) (c_output h)"
    by (auto simp: hist_ok_def happened_def)
  with op_output_hist [OF ids h, of "lin s ! n"] explains_input
  show "\<exists>n. c_call h \<le> n \<and> n < c_ret h \<and> c_ret h \<le> length (lin s) \<and>
      fst (lin s ! n) = c_id h \<and> linearization s ?outs ! n = (c_input h, c_output h)"
    by (intro exI [of _ n]) (auto simp: linearization_def)
qed

section \<open>What the result of a put tells the caller\<close>

lemma lin_run_Refused:
  "lin_run kv ps = Some kv' \<Longrightarrow> Refused a e \<in> set ps \<Longrightarrow> e \<in> {ErrNoKey, ErrVersion}"
  by (induction kv ps rule: lin_run.induct) (auto split: if_splits simp: put_err_def)

lemma hist_point:
  assumes "reachable kv_init kv_step s" and "length (lin s) < 2 ^ 64" and "h \<in> set (hist s)"
    and "c_input h = put_input a" and "c_output h = put_output err"
  shows "\<exists>q. (c_id h, q) \<in> set (lin s) \<and> explains q (put_input a) (put_output err) \<and>
     (\<forall>e. q \<noteq> Refused a e \<or> e \<in> {ErrNoKey, ErrVersion}) \<and>
     (\<forall>q'. (c_id h, q') \<in> set (lin s) \<longrightarrow> q' = q)"
proof -
  have ok: "hist_ok s h" and dist: "distinct (map fst (lin s))"
    using kv_view.rel_reachable [OF assms(1)] assms(2,3) by (simp_all add: view_inv_def)
  have run: "lin_run MakeKVServer (map snd (lin s)) = Some (srv s)"
    using kv_base.inv_reachable [OF assms(1)] by (simp add: lin_inv_def)
  from ok have "happened (lin s) (c_id h) (c_call h) (\<lambda>q. explains q (put_input a) (put_output err))"
    using assms(4,5) unfolding hist_ok_def
    by (metis append_take_drop_id happened_append)
  then obtain q where q: "(c_id h, q) \<in> set (lin s)" "explains q (put_input a) (put_output err)"
    using happened_mem by blast
  moreover have "\<forall>e. q \<noteq> Refused a e \<or> e \<in> {ErrNoKey, ErrVersion}"
    using lin_run_Refused [OF run, of a] q(1) by (metis image_eqI list.set_map snd_conv)
  moreover have "\<forall>q'. (c_id h, q') \<in> set (lin s) \<longrightarrow> q' = q"
    using eq_key_imp_eq_value [OF dist] q(1) by blast
  ultimately show ?thesis by blast
qed

lemma put_input_inject [simp]: "put_input a = put_input b \<longleftrightarrow> a = b"
  by (cases a; cases b) (simp add: put_input_def)

text \<open>
  C3: what a put's result tells the caller, as the comment on \<open>Clerk.Put\<close> promises, in the same system and with the
  same bound: a handler has taken effect, or never will, when its call ends, and fewer than \<open>2 ^ 64\<close> operations have happened. A put that
  returned \<open>OK\<close> was performed by the server; one that returned \<open>ErrVersion\<close> or \<open>ErrNoKey\<close> was
  not performed; one that returned \<open>ErrMaybe\<close> may or may not have been, and in no case
  was it performed more than once, however often the clerk resent it. No other result occurs. Where a handler can be
  left running after its call has failed, a put that returned \<open>ErrNoKey\<close> can be performed later; \<open>Kv_Late\<close> has such a run.
\<close>

theorem clerk_put_result:
  assumes "reachable kv_init kv_step s" and "length (lin s) < 2 ^ 64" and "h \<in> set (hist s)"
    and "c_input h = put_input a" and "c_output h = put_output err"
  shows "err \<in> {OK, ErrVersion, ErrNoKey, ErrMaybe} \<and>
     (err = OK \<longrightarrow> (c_id h, Took a) \<in> set (lin s)) \<and>
     (err \<in> {ErrVersion, ErrNoKey} \<longrightarrow> (\<forall>b. (c_id h, Took b) \<notin> set (lin s))) \<and>
     length (filter (\<lambda>(i, q). i = c_id h \<and> (\<exists>b. q = Took b)) (lin s)) \<le> 1"
proof -
  obtain q where q: "(c_id h, q) \<in> set (lin s)" "explains q (put_input a) (put_output err)"
      "\<forall>e. q \<noteq> Refused a e \<or> e \<in> {ErrNoKey, ErrVersion}" "\<forall>q'. (c_id h, q') \<in> set (lin s) \<longrightarrow> q' = q"
    using hist_point [OF assms] by blast
  have dist: "distinct (map fst (lin s))"
    using kv_view.rel_reachable [OF assms(1)] assms(2) by (simp add: view_inv_def)
  then have "length (filter (\<lambda>(i, q). i = c_id h \<and> (\<exists>b. q = Took b)) (lin s)) \<le> 1"
    by (rule filter_fst_le_1)
  moreover have "err \<in> {OK, ErrVersion, ErrNoKey, ErrMaybe} \<and>
     (err = OK \<longrightarrow> q = Took a) \<and> (err \<in> {ErrVersion, ErrNoKey} \<longrightarrow> (\<forall>b. q \<noteq> Took b))"
    using q(2,3) by (cases q) (auto simp: put_input_def get_input_def)
  ultimately show ?thesis using q(1,4) by blast
qed

section \<open>A concrete run\<close>

text \<open>
  One clerk puts a key; the first attempt is executed but its reply is lost, the second is refused
  with \<open>ErrVersion\<close>, so the clerk reports \<open>ErrMaybe\<close> although the put was performed.
\<close>

definition ex_args :: PutArgs where
  "ex_args = \<lparr>put_Key = ''k'', put_Value = ''v'', put_Version = 0\<rparr>"

definition ex_done :: completed where
  "ex_done = \<lparr>c_id = 0, c_input = put_input ex_args, c_output = put_output ErrMaybe,
             c_call = 0, c_ret = 1\<rparr>"

lemma kv_reach_step:
  "reachable kv_init kv_step s \<Longrightarrow> kv_step s t \<Longrightarrow> reachable kv_init kv_step t"
  by (rule reach_step)

lemma ex_run: "\<exists>s. reachable kv_init kv_step s \<and> lin s = [(0, Took ex_args)] \<and> hist s = [ex_done]"
proof -
  let ?kv = "put_store MakeKVServer ex_args"
  have ap: "put_applies MakeKVServer ex_args" "\<not> put_applies ?kv ex_args"
      "put_err ?kv ex_args = ErrVersion"
    by (simp_all add: put_err_def put_applies_def kv_simps ex_args_def)
      (simp_all add: key_version_def MakeKVServer_def)
  let ?s1 = "kv_init\<lparr>clerks := (clerks kv_init)(0 := Putting 0 ex_args [] 0), next_id := 1\<rparr>"
  have 1: "kv_step kv_init ?s1"
    using start_put [of kv_init 0 ex_args] by (simp add: kv_init_def)
  let ?s2 = "?s1\<lparr>srv := ?kv, clerks := (clerks kv_init)(0 := Putting 0 ex_args [None] 0),
               lin := [(0, Took ex_args)]\<rparr>"
  have 2: "kv_step ?s1 ?s2"
    using put_reply_lost [of ?s1 0 0 ex_args "[]" 0 ?kv "\<lparr>putr_Err = OK\<rparr>"] ap
    by (simp add: kv_init_def Server_Put_eq PutReply0_def put_err_def)
  let ?s3 = "?s2\<lparr>clerks := (clerks kv_init)(0 :=
               Putting 0 ex_args [None, Some \<lparr>putr_Err = ErrVersion\<rparr>] 0)\<rparr>"
  have 3: "kv_step ?s2 ?s3"
    using put_answered [of ?s2 0 0 ex_args "[None]" 0 ?kv "\<lparr>putr_Err = ErrVersion\<rparr>"] ap
    by (simp add: kv_init_def Server_Put_eq PutReply0_def lin_ids_def Clerk_Put_def)
  let ?s4 = "?s3\<lparr>clerks := (clerks kv_init)(0 := Idle), hist := [ex_done]\<rparr>"
  have 4: "kv_step ?s3 ?s4"
    using put_return [of ?s3 0 0 ex_args
          "[None, Some \<lparr>putr_Err = ErrVersion\<rparr>]" 0 ErrMaybe]
    by (simp add: kv_init_def Clerk_Put_def put_result_def ex_done_def)
  have "reachable kv_init kv_step ?s4"
    by (rule kv_reach_step [OF _ 4], rule kv_reach_step [OF _ 3], rule kv_reach_step [OF _ 2],
        rule kv_reach_step [OF _ 1], rule reach_init)
  then show ?thesis by (intro exI [of _ ?s4]) simp
qed

lemma kv_linearizable_witness:
  "\<exists>s. reachable kv_init kv_step s \<and> length (lin s) < 2 ^ 64 \<and>
     (\<exists>outs. length outs = length (lin s) \<and>
        spec_accepts (\<lambda>_. KvModel_Init) (linearization s outs) \<and>
        linearization s outs ! 0 = (put_input ex_args, put_output ErrMaybe))"
proof -
  obtain s where s: "reachable kv_init kv_step s" "lin s = [(0, Took ex_args)]" "hist s = [ex_done]"
    using ex_run by blast
  then have "length (lin s) < 2 ^ 64" by simp
  from kv_linearizable [OF s(1) this] s this show ?thesis
    by (intro exI [of _ s]) (auto simp: ex_done_def)
qed

lemma clerk_put_result_witness:
  "\<exists>s. reachable kv_init kv_step s \<and> length (lin s) < 2 ^ 64 \<and> ex_done \<in> set (hist s) \<and>
     c_input ex_done = put_input ex_args \<and> c_output ex_done = put_output ErrMaybe \<and>
     length (filter (\<lambda>(i, q). i = c_id ex_done \<and> (\<exists>b. q = Took b)) (lin s)) \<le> 1"
proof -
  obtain s where s: "reachable kv_init kv_step s" "lin s = [(0, Took ex_args)]" "hist s = [ex_done]"
    using ex_run by blast
  then have "length (lin s) < 2 ^ 64" "ex_done \<in> set (hist s)" by simp_all
  from clerk_put_result [OF s(1) this, of ex_args ErrMaybe] s this show ?thesis
    by (intro exI [of _ s]) (simp add: ex_done_def)
qed

end
