(* ===== verification/Kv_Clerk_Api.thy ===== *)
theory Kv_Clerk_Api
  imports Kv_Linear
begin

text \<open>
  The interface \<open>IKVClerk\<close> of \<open>kvtest1/kvtest.go\<close> as its clients see it: the results of a Get, the possible
  effects and results of a Put, and the laws they can rely on, for any implementation. The clerk of \<open>kvsrv1\<close>
  over its server and a lossy network is shown to satisfy them. The lock and the tests of the
  key/value services are proved over this interface.
\<close>

type_synonym get_result = "string \<times> Tversion \<times> Err"

section \<open>The contract\<close>

text \<open>
  What clients rely on. \<open>applied st k\<close> is the number of puts applied to key \<open>k\<close>: a Get reports
  it, modulo \<open>2 ^ 64\<close>, as the version, and \<open>ErrNoKey\<close> when there was none. A Put is applied exactly
  when it carries the current version, and reports \<open>OK\<close> or \<open>ErrMaybe\<close> then; otherwise it changes
  nothing and does not report \<open>OK\<close>.
\<close>

locale ikv_clerk =
  fixes get :: "'s \<Rightarrow> string \<Rightarrow> get_result"
    and put :: "'s \<Rightarrow> string \<Rightarrow> string \<Rightarrow> Tversion \<Rightarrow> 's \<Rightarrow> Err \<Rightarrow> bool"
    and applied :: "'s \<Rightarrow> string \<Rightarrow> nat"
    and invar :: "'s \<Rightarrow> bool"
    and init :: 's
  assumes invar_init: "invar init"
    and invar_put: "invar st \<Longrightarrow> put st k v ver st' err \<Longrightarrow> invar st'"
    and get_absent: "invar st \<Longrightarrow> applied st k = 0 \<Longrightarrow> get st k = ('''', 0, ErrNoKey)"
    and get_present: "invar st \<Longrightarrow> 0 < applied st k \<Longrightarrow>
          get st k = (fst (get st k), of_nat (applied st k), OK)"
    and put_applied: "invar st \<Longrightarrow> put st k v ver st' err \<Longrightarrow> ver = of_nat (applied st k) \<Longrightarrow>
          applied st' k = Suc (applied st k) \<and> fst (get st' k) = v \<and> err \<in> {OK, ErrMaybe}"
    and put_refused: "invar st \<Longrightarrow> put st k v ver st' err \<Longrightarrow> ver \<noteq> of_nat (applied st k) \<Longrightarrow>
          st' = st \<and> err \<noteq> OK"

text \<open>
  Clients that look at the error codes also rely on the codes of refused puts: \<open>ErrNoKey\<close> is only reported for
  a missing key.
\<close>

locale ikv_clerk_codes = ikv_clerk +
  assumes put_codes: "invar st \<Longrightarrow> put st k v ver st' err \<Longrightarrow>
      err \<in> {OK, ErrMaybe, ErrVersion, ErrNoKey} \<and> (err = ErrNoKey \<longrightarrow> applied st k = 0)"

section \<open>The clerk of kvsrv1 is such a clerk\<close>

text \<open>
  The server's store together with the number of puts applied to each key. A clerk's Put, seen at
  the point where it happens, runs the handler and returns a result that this point explains
  (\<open>Kv_Linear.explains\<close>): this is what linearizability of the clerks gives to their callers.
\<close>

type_synonym counted_store = "KVServer \<times> (string \<Rightarrow> nat)"

definition clerk_get :: "counted_store \<Rightarrow> string \<Rightarrow> get_result" where
  "clerk_get st k =
     (let r = Server_Get (fst st) \<lparr>get_Key = k\<rparr> GetReply0
      in (getr_Value r, getr_Version r, getr_Err r))"

definition clerk_put ::
  "counted_store \<Rightarrow> string \<Rightarrow> string \<Rightarrow> Tversion \<Rightarrow> counted_store \<Rightarrow> Err \<Rightarrow> bool" where
  "clerk_put st k v ver st' err \<longleftrightarrow>
     (let a = \<lparr>put_Key = k, put_Value = v, put_Version = ver\<rparr>
      in (\<exists>reply. Server_Put (fst st) a PutReply0 = Inr (fst st', reply)) \<and>
         snd st' = (if put_applies (fst st) a then (snd st)(k := Suc (snd st k)) else snd st) \<and>
         explains (put_point (fst st) a) (put_input a) (put_output err))"

definition counted_ok :: "counted_store \<Rightarrow> bool" where
  "counted_ok st \<longleftrightarrow>
     (\<forall>k. key_version (fst st) k = of_nat (snd st k) \<and>
          (KVStore (fst st) k = None \<longleftrightarrow> snd st k = 0))"

definition counted_init :: counted_store where
  "counted_init = (MakeKVServer, \<lambda>_. 0)"

lemma clerk_put_cases:
  assumes "clerk_put st k v ver st' err"
  defines "a \<equiv> \<lparr>put_Key = k, put_Value = v, put_Version = ver\<rparr>"
  shows "put_applies (fst st) a \<and> fst st' = put_store (fst st) a \<and>
           snd st' = (snd st)(k := Suc (snd st k)) \<and> err \<in> {OK, ErrMaybe} \<or>
         \<not> put_applies (fst st) a \<and> st' = st \<and> err \<in> {ErrNoKey, ErrVersion, ErrMaybe}"
  using assms put_err_not_applied [of "fst st" a]
  by (cases st; cases st') (auto simp: clerk_put_def Server_Put_eq put_point_def Let_def split: if_splits)

lemma counted_put:
  "counted_ok st \<Longrightarrow> clerk_put st k v ver st' err \<Longrightarrow> counted_ok st'"
  using clerk_put_cases [of st k v ver st' err]
  by (auto simp: counted_ok_def key_version_put_store KVStore_put_store put_applies_def)

interpretation kvsrv_clerk: ikv_clerk clerk_get clerk_put "\<lambda>st. snd st" counted_ok counted_init
proof unfold_locales
  show "counted_ok counted_init"
    by (simp add: counted_ok_def counted_init_def key_version_def MakeKVServer_def)
  show "counted_ok st'" if "counted_ok st" "clerk_put st k v ver st' err" for st k v ver st' err
    using that by (rule counted_put)
  show "clerk_get st k = ('''', 0, ErrNoKey)" if "counted_ok st" "snd st k = 0" for st k
  proof -
    have "KVStore (fst st) k = None" using that by (simp add: counted_ok_def)
    then show ?thesis
      by (simp add: clerk_get_def Server_Get_eq key_value_def key_version_def)
  qed
  show "clerk_get st k = (fst (clerk_get st k), of_nat (snd st k), OK)"
    if "counted_ok st" "0 < snd st k" for st k
    using that by (auto simp: clerk_get_def Server_Get_eq counted_ok_def Let_def)
  show "snd st' k = Suc (snd st k) \<and> fst (clerk_get st' k) = v \<and> err \<in> {OK, ErrMaybe}"
    if "counted_ok st" "clerk_put st k v ver st' err" "ver = of_nat (snd st k)" for st k v ver st' err
    using that clerk_put_cases [OF that(2)]
    by (auto simp: counted_ok_def put_applies_def clerk_get_def Server_Get_eq key_value_put_store)
  show "st' = st \<and> err \<noteq> OK"
    if "counted_ok st" "clerk_put st k v ver st' err" "ver \<noteq> of_nat (snd st k)" for st k v ver st' err
    using that clerk_put_cases [OF that(2)] by (auto simp: counted_ok_def put_applies_def)
qed

text \<open>The codes come from the server: a refused put on a present key is answered \<open>ErrVersion\<close>.\<close>

lemma clerk_put_codes:
  assumes "counted_ok st" "clerk_put st k v ver st' err"
  shows "err \<in> {OK, ErrMaybe, ErrVersion, ErrNoKey} \<and> (err = ErrNoKey \<longrightarrow> snd st k = 0)"
proof -
  let ?a = "\<lparr>put_Key = k, put_Value = v, put_Version = ver\<rparr>"
  have "explains (put_point (fst st) ?a) (put_input ?a) (put_output err)"
    using assms(2) by (simp add: clerk_put_def Let_def)
  then have "err = put_err (fst st) ?a \<or> err = ErrMaybe"
    by (auto simp: put_point_def put_err_def split: if_splits)
  then show ?thesis using assms(1) by (auto simp: put_err_def counted_ok_def split: if_splits)
qed

interpretation kvsrv_clerk_codes: ikv_clerk_codes clerk_get clerk_put "\<lambda>st. snd st" counted_ok counted_init
  by unfold_locales (rule clerk_put_codes)

end
