(* ===== verification/Lock.thy ===== *)
theory Lock
  imports Kv_Clerk_Api
begin

text \<open>
  The lock of \<open>kvsrv1/lock/lock.go\<close>, built on any implementation of the \<open>IKVClerk\<close> interface. The
  control flow of \<open>Acquire\<close>, \<open>Release\<close>, \<open>CheckAndReput\<close> and \<open>ReadUntilSuccess\<close> is a function from
  program points and clerk results to program points; the system of any number of lock clients
  is a step relation over the clerk's operations. The laws that the lock relies on are the
  assumptions of the locale \<open>ikv_clerk\<close>, which the clerk of \<open>kvsrv1\<close> satisfies.
\<close>

section \<open>Program points and control flow\<close>

text \<open>
  \<open>RandValue\<close> of \<open>kvtest1/kvtest.go\<close>: \<open>n\<close> letters picked by the successive values of \<open>rand.Int63\<close>,
  which are not negative.
\<close>

definition letterBytes :: string where
  "letterBytes = ''abcdefghijklmnopqrstuvwxyzABCDEFGHIJKLMNOPQRSTUVWXYZ''"

definition RandValue :: "(nat \<Rightarrow> nat) \<Rightarrow> nat \<Rightarrow> string" where
  "RandValue rnd n = map (\<lambda>i. letterBytes ! (rnd i mod length letterBytes)) [0..<n]"

text \<open>
  The points between two clerk calls. \<open>AcqGet\<close> is the head of the loop of \<open>Acquire\<close>; \<open>Held\<close> is the
  caller's critical section, after \<open>Acquire\<close> has returned. \<open>RelRead\<close> and \<open>RelPut\<close> are the loop of
  \<open>CheckAndReput\<close>. From \<open>Held\<close> on, the token is not a variable of the program: it is carried to
  state what the lock's value is.
\<close>

datatype lock_pc =
    NotHeld
  | AcqGet
  | AcqPutNew string
  | AcqPut string Tversion
  | AcqRead string
  | Held string
  | RelGet string
  | RelRead string Tversion
  | RelPut string Tversion Tversion

fun acquire_got :: "string \<Rightarrow> get_result \<Rightarrow> lock_pc" where
  "acquire_got valWritten (val, ver, err) =
     (if err = ErrNoKey then AcqPutNew valWritten
      else if val = '''' then AcqPut valWritten ver
      else AcqGet)"

fun acquire_put_new :: "string \<Rightarrow> Err \<Rightarrow> lock_pc" where
  "acquire_put_new valWritten err = (if err \<noteq> OK then AcqGet else Held valWritten)"

fun acquire_put :: "string \<Rightarrow> Err \<Rightarrow> lock_pc" where
  "acquire_put valWritten err =
     (if err = OK then Held valWritten
      else if err = ErrMaybe then AcqRead valWritten
      else AcqGet)"

fun acquire_read :: "string \<Rightarrow> get_result \<Rightarrow> lock_pc" where
  "acquire_read valWritten (val, ver, err) =
     (if err \<noteq> OK then AcqRead valWritten
      else if val \<noteq> valWritten then AcqGet
      else Held valWritten)"

fun release_got :: "string \<Rightarrow> get_result \<Rightarrow> lock_pc" where
  "release_got tok (val, ver, err) = RelRead tok ver"

fun check_read :: "string \<Rightarrow> Tversion \<Rightarrow> get_result \<Rightarrow> lock_pc" where
  "check_read tok currVersion (val, ver, err) =
     (if err \<noteq> OK then RelRead tok currVersion
      else if currVersion < ver then NotHeld
      else RelPut tok currVersion ver)"

text \<open>
  A lock is a clerk and the key that holds the token of its holder. \<open>ReadUntilSuccess\<close> as a function of the results of
  its Gets; it has no result while none of them succeeds.
\<close>

record 'ck Lock =
  lk_ck :: 'ck
  lk_key :: string

definition MakeLock :: "'ck \<Rightarrow> string \<Rightarrow> 'ck Lock" where
  "MakeLock ck l = \<lparr>lk_ck = ck, lk_key = l\<rparr>"

fun ReadUntilSuccess :: "get_result list \<Rightarrow> (string \<times> Tversion) option" where
  "ReadUntilSuccess [] = None"
| "ReadUntilSuccess ((val, ver, err) # results) = (if err \<noteq> OK then ReadUntilSuccess results else Some (val, ver))"

text \<open>The two loops that call it, step by step as above, do what they do with its result.\<close>

lemma acquire_read_loop:
  "foldl (\<lambda>c r. case c of AcqRead tok \<Rightarrow> acquire_read tok r | _ \<Rightarrow> c) (AcqRead tok) rs =
     (case ReadUntilSuccess rs of None \<Rightarrow> AcqRead tok | Some (v, _) \<Rightarrow> if v \<noteq> tok then AcqGet else Held tok)"
proof (induction rs rule: ReadUntilSuccess.induct)
  case (2 val ver err results)
  have stay: "foldl (\<lambda>c r. case c of AcqRead tok \<Rightarrow> acquire_read tok r | _ \<Rightarrow> c) c results = c"
    if "\<forall>t. c \<noteq> AcqRead t" for c
    using that by (induction results) (auto split: lock_pc.split)
  show ?case using 2 stay by auto
qed simp

lemma check_read_loop:
  "foldl (\<lambda>c r. case c of RelRead tok cur \<Rightarrow> check_read tok cur r | _ \<Rightarrow> c) (RelRead tok cur) rs =
     (case ReadUntilSuccess rs of None \<Rightarrow> RelRead tok cur | Some (_, ver) \<Rightarrow> if cur < ver then NotHeld else RelPut tok cur ver)"
proof (induction rs rule: ReadUntilSuccess.induct)
  case (2 val ver err results)
  have stay: "foldl (\<lambda>c r. case c of RelRead tok cur \<Rightarrow> check_read tok cur r | _ \<Rightarrow> c) c results = c"
    if "\<forall>t v. c \<noteq> RelRead t v" for c
    using that by (induction results) (auto split: lock_pc.split)
  show ?case using 2 stay by auto
qed simp

record 's lock_sys =
  store :: 's
  pcs :: "nat \<Rightarrow> lock_pc"
  author :: "string \<rightharpoonup> nat"

text \<open>
  The steps of the lock clients over the operations of a clerk: \<open>get st k\<close> is the result of a Get,
  \<open>put st k v ver st' err\<close> a possible effect and result of a Put. \<open>author\<close> records who drew each
  random token. Its guard is the one assumption on \<open>RandValue\<close>: a token of eight random letters is
  not drawn twice.
\<close>

inductive lock_step ::
  "('s \<Rightarrow> string \<Rightarrow> get_result) \<Rightarrow> ('s \<Rightarrow> string \<Rightarrow> string \<Rightarrow> Tversion \<Rightarrow> 's \<Rightarrow> Err \<Rightarrow> bool) \<Rightarrow> string \<Rightarrow>
   's lock_sys \<Rightarrow> 's lock_sys \<Rightarrow> bool"
  for get put key where
  call_acquire: "pcs s i = NotHeld \<Longrightarrow>
     lock_step get put key s (s\<lparr>pcs := (pcs s)(i := AcqGet)\<rparr>)"
| acq_get: "pcs s i = AcqGet \<Longrightarrow> tok = RandValue rnd 8 \<Longrightarrow> author s tok = None \<Longrightarrow>
     lock_step get put key s
       (s\<lparr>pcs := (pcs s)(i := acquire_got tok (get (store s) key)), author := (author s)(tok \<mapsto> i)\<rparr>)"
| acq_put_new: "pcs s i = AcqPutNew tok \<Longrightarrow> put (store s) key tok 0 st' err \<Longrightarrow>
     lock_step get put key s (s\<lparr>store := st', pcs := (pcs s)(i := acquire_put_new tok err)\<rparr>)"
| acq_put: "pcs s i = AcqPut tok ver \<Longrightarrow> put (store s) key tok ver st' err \<Longrightarrow>
     lock_step get put key s (s\<lparr>store := st', pcs := (pcs s)(i := acquire_put tok err)\<rparr>)"
| acq_read: "pcs s i = AcqRead tok \<Longrightarrow>
     lock_step get put key s (s\<lparr>pcs := (pcs s)(i := acquire_read tok (get (store s) key))\<rparr>)"
| call_release: "pcs s i = Held tok \<Longrightarrow>
     lock_step get put key s (s\<lparr>pcs := (pcs s)(i := RelGet tok)\<rparr>)"
| rel_get: "pcs s i = RelGet tok \<Longrightarrow>
     lock_step get put key s (s\<lparr>pcs := (pcs s)(i := release_got tok (get (store s) key))\<rparr>)"
| rel_read: "pcs s i = RelRead tok cur \<Longrightarrow>
     lock_step get put key s (s\<lparr>pcs := (pcs s)(i := check_read tok cur (get (store s) key))\<rparr>)"
| rel_put: "pcs s i = RelPut tok cur ver \<Longrightarrow> put (store s) key '''' ver st' err \<Longrightarrow>
     lock_step get put key s (s\<lparr>store := st', pcs := (pcs s)(i := RelRead tok cur)\<rparr>)"

definition lock_init :: "'s \<Rightarrow> 's lock_sys" where
  "lock_init st = \<lparr>store = st, pcs = (\<lambda>_. NotHeld), author = Map.empty\<rparr>"

section \<open>The invariant\<close>

text \<open>The token that a client works with, and the clients that own the lock.\<close>

fun pc_token :: "lock_pc \<Rightarrow> string option" where
  "pc_token NotHeld = None"
| "pc_token AcqGet = None"
| "pc_token (AcqPutNew tok) = Some tok"
| "pc_token (AcqPut tok ver) = Some tok"
| "pc_token (AcqRead tok) = Some tok"
| "pc_token (Held tok) = Some tok"
| "pc_token (RelGet tok) = Some tok"
| "pc_token (RelRead tok cur) = Some tok"
| "pc_token (RelPut tok cur ver) = Some tok"

definition token_inv :: "'s lock_sys \<Rightarrow> bool" where
  "token_inv s \<longleftrightarrow>
     (\<forall>i tok. pc_token (pcs s i) = Some tok \<longrightarrow> author s tok = Some i \<and> tok \<noteq> '''')"

text \<open>
  \<open>pc_ok n val pc\<close>: what holds at program point \<open>pc\<close> when \<open>n\<close> puts have been applied to the lock's
  key and its value is \<open>val\<close>. A version that a client remembers was current once; if it still is,
  the value is the one the client saw with it.
\<close>

fun pc_ok :: "nat \<Rightarrow> string \<Rightarrow> lock_pc \<Rightarrow> bool" where
  "pc_ok n val (AcqPut tok ver) \<longleftrightarrow> unat ver \<le> n \<and> (unat ver = n \<longrightarrow> val = '''')"
| "pc_ok n val (Held tok) \<longleftrightarrow> 0 < n \<and> val = tok"
| "pc_ok n val (RelGet tok) \<longleftrightarrow> 0 < n \<and> val = tok"
| "pc_ok n val (RelRead tok cur) \<longleftrightarrow> 0 < n \<and> unat cur \<le> n \<and> (unat cur = n \<longrightarrow> val = tok)"
| "pc_ok n val (RelPut tok cur ver) \<longleftrightarrow>
     0 < n \<and> ver = cur \<and> unat cur \<le> n \<and> (unat cur = n \<longrightarrow> val = tok)"
| "pc_ok n val _ \<longleftrightarrow> True"

lemma RandValue_length [simp]: "length (RandValue rnd n) = n"
  by (simp add: RandValue_def)

lemma RandValue_nonempty: "RandValue rnd 8 \<noteq> ''''"
  using RandValue_length [of rnd 8] by fastforce

lemma pc_token_flow:
  "pc_token (acquire_got tok r) = Some u \<Longrightarrow> u = tok"
  "pc_token (acquire_put_new tok err) = Some u \<Longrightarrow> u = tok"
  "pc_token (acquire_put tok err) = Some u \<Longrightarrow> u = tok"
  "pc_token (acquire_read tok r) = Some u \<Longrightarrow> u = tok"
  "pc_token (release_got tok r) = Some u \<Longrightarrow> u = tok"
  "pc_token (check_read tok cur r) = Some u \<Longrightarrow> u = tok"
  by (cases r; auto split: if_splits)+

lemma token_of_pc: "token_inv s \<Longrightarrow> pc_token (pcs s i) = Some u \<Longrightarrow> author s u = Some i \<and> u \<noteq> ''''"
  by (simp add: token_inv_def)

lemma token_inv_move:
  assumes "token_inv s" and "pcs t = (pcs s)(i := pc)"
    and "\<And>u j. author s u = Some j \<Longrightarrow> author t u = Some j"
    and "\<And>u. pc_token pc = Some u \<Longrightarrow> author t u = Some i \<and> u \<noteq> ''''"
  shows "token_inv t"
  unfolding token_inv_def
proof (intro allI impI)
  fix j u assume "pc_token (pcs t j) = Some u"
  then show "author t u = Some j \<and> u \<noteq> ''''"
    using assms token_of_pc [OF assms(1), of j u] by (cases "j = i") auto
qed

lemma token_inv_keep:
  assumes "token_inv s" and "pcs t = (pcs s)(i := pc)" and "author t = author s"
    and "\<And>u. pc_token pc = Some u \<Longrightarrow> pc_token (pcs s i) = Some u"
  shows "token_inv t"
  by (rule token_inv_move [OF assms(1,2)]) (use assms token_of_pc in auto)

lemma token_inv_step: "lock_step get put key s t \<Longrightarrow> token_inv s \<Longrightarrow> token_inv t"
proof (induction rule: lock_step.induct)
  case (acq_get s i tok rnd)
  show ?case
    by (rule token_inv_move [OF acq_get(4)])
      (use acq_get RandValue_nonempty in \<open>auto dest!: pc_token_flow(1)\<close>)
qed (rule token_inv_keep, assumption, simp, simp, force split: if_splits dest: pc_token_flow)+

section \<open>The invariant over any clerk\<close>

context ikv_clerk
begin

definition val :: "'s \<Rightarrow> string \<Rightarrow> string" where
  "val st k = fst (get st k)"

definition lock_inv :: "string \<Rightarrow> 's lock_sys \<Rightarrow> bool" where
  "lock_inv key s \<longleftrightarrow>
     invar (store s) \<and> token_inv s \<and>
     (applied (store s) key < 2 ^ 64 \<longrightarrow>
        (\<forall>i. pc_ok (applied (store s) key) (val (store s) key) (pcs s i)))"

text \<open>A put by one client keeps the others' views: every remembered version is out of date.\<close>

lemma pc_ok_after_put:
  "pc_ok n v pc \<Longrightarrow> (case pc of Held tok \<Rightarrow> False | RelGet tok \<Rightarrow> False | _ \<Rightarrow> True) \<Longrightarrow>
     pc_ok (Suc n) w pc"
  by (cases pc) auto

text \<open>A put that is applied by a client that found the lock free leaves nobody owning it.\<close>

lemma free_no_owner:
  "token_inv s \<Longrightarrow> pc_ok n '''' (pcs s i) \<Longrightarrow>
     (case pcs s i of Held tok \<Rightarrow> False | RelGet tok \<Rightarrow> False | _ \<Rightarrow> True)"
  using token_of_pc [of s i] by (cases "pcs s i") auto

lemma other_no_owner:
  "token_inv s \<Longrightarrow> pc_token (pcs s j) = Some tok \<Longrightarrow> i \<noteq> j \<Longrightarrow> pc_ok n tok (pcs s i) \<Longrightarrow>
     (case pcs s i of Held tok \<Rightarrow> False | RelGet tok \<Rightarrow> False | _ \<Rightarrow> True)"
  using token_of_pc [of s i] token_of_pc [of s j] by (cases "pcs s i") auto

lemma lock_inv_put:
  assumes inv: "lock_inv key s" and put: "put (store s) key v ver st' err"
    and t: "t = s\<lparr>store := st', pcs := (pcs s)(i := pc)\<rparr>" and tok: "token_inv t"
    and refused: "ver \<noteq> of_nat (applied (store s) key) \<Longrightarrow> err \<noteq> OK \<Longrightarrow>
        pc_ok (applied (store s) key) (val (store s) key) (pcs s i) \<Longrightarrow>
        pc_ok (applied (store s) key) (val (store s) key) pc"
    and applied: "ver = of_nat (applied (store s) key) \<Longrightarrow> applied (store s) key < 2 ^ 64 \<Longrightarrow>
        pc_ok (applied (store s) key) (val (store s) key) (pcs s i) \<Longrightarrow>
        pc_ok (Suc (applied (store s) key)) v pc \<and>
        (val (store s) key = '''' \<or> pc_token (pcs s i) = Some (val (store s) key))"
  shows "lock_inv key t"
proof -
  have invs: "invar (store s)" "token_inv s" using inv by (simp_all add: lock_inv_def)
  have "pc_ok (applied st' key) (val st' key) (pcs t j)" if lt: "applied st' key < 2 ^ 64" for j
  proof (cases "ver = of_nat (applied (store s) key)")
    case True
    have st': "applied st' key = Suc (applied (store s) key)" "val st' key = v"
      using put_applied [OF invs(1) put True] by (simp_all add: val_def)
    with lt have n: "applied (store s) key < 2 ^ 64" by simp
    then have ok: "pc_ok (applied (store s) key) (val (store s) key) (pcs s j)" for j
      using inv by (simp add: lock_inv_def)
    have "pc_ok (Suc (applied (store s) key)) v (pcs s j)" if "j \<noteq> i"
      using applied [OF True n ok] free_no_owner [OF invs(2), of _ j] ok [of j]
        other_no_owner [OF invs(2) _ that, of "val (store s) key"] pc_ok_after_put
      by metis
    then show ?thesis using applied [OF True n ok] st' t by simp
  next
    case False
    with put_refused [OF invs(1) put] have "st' = store s" "err \<noteq> OK" by blast+
    with lt inv refused [OF False] t show ?thesis by (simp add: lock_inv_def)
  qed
  with invar_put [OF invs(1) put] tok t show ?thesis by (simp add: lock_inv_def)
qed

lemma lock_inv_read:
  assumes "lock_inv key s" and "t = s\<lparr>pcs := (pcs s)(i := pc), author := a\<rparr>" and "token_inv t"
    and "applied (store s) key < 2 ^ 64 \<Longrightarrow>
        pc_ok (applied (store s) key) (val (store s) key) (pcs s i) \<Longrightarrow>
        pc_ok (applied (store s) key) (val (store s) key) pc"
  shows "lock_inv key t"
  using assms by (simp add: lock_inv_def)

lemma get_cases:
  assumes "invar st"
  obtains "applied st k = 0" "get st k = ('''', 0, ErrNoKey)" "val st k = ''''"
  | "0 < applied st k" "get st k = (val st k, of_nat (applied st k), OK)"
  using get_absent [OF assms, of k] get_present [OF assms, of k] unfolding val_def
  by (cases "applied st k = 0") auto

lemma unat_of_applied: "n < 2 ^ 64 \<Longrightarrow> unat (of_nat n :: Tversion) = n"
  by (simp add: unat_of_nat)

lemma of_applied_eq:
  "\<not> cur < of_nat n \<Longrightarrow> unat cur \<le> n \<Longrightarrow> n < 2 ^ 64 \<Longrightarrow> (of_nat n :: Tversion) = cur"
  by (metis le_antisym not_le unat_of_applied word_less_nat_alt word_unat_eq_iff)

text \<open>What a client knows after a Get.\<close>

lemma read_ok:
  assumes "invar st" and n: "applied st k < 2 ^ 64"
  shows "pc_ok (applied st k) (val st k) (acquire_got tok (get st k))"
    and "pc_ok (applied st k) (val st k) (acquire_read tok (get st k))"
    and "pc_ok (applied st k) (val st k) (RelGet tok) \<Longrightarrow>
       pc_ok (applied st k) (val st k) (release_got tok (get st k))"
    and "pc_ok (applied st k) (val st k) (RelRead tok cur) \<Longrightarrow>
       pc_ok (applied st k) (val st k) (check_read tok cur (get st k))"
  by (rule get_cases [OF assms(1), of k];
      simp add: unat_of_applied [OF n] of_applied_eq [OF _ _ n])+

lemma absent_val:
  "invar st \<Longrightarrow> (0 :: Tversion) = of_nat (applied st k) \<Longrightarrow> applied st k < 2 ^ 64 \<Longrightarrow>
     applied st k = 0 \<and> val st k = ''''"
  using unat_of_applied [of "applied st k"] get_absent [of st k]
  by (metis fst_conv unsigned_0 val_def)

lemma lock_inv_step:
  assumes step: "lock_step get put key s t" and inv: "lock_inv key s"
  shows "lock_inv key t"
proof -
  have st: "invar (store s)" and tok: "token_inv t"
    using inv token_inv_step [OF step] by (simp_all add: lock_inv_def)
  note read = lock_inv_read [OF inv _ tok] and put = lock_inv_put [OF inv _ _ tok]
  from step show ?thesis
  proof (cases rule: lock_step.cases)
    case (call_acquire i)
    then show ?thesis by (intro read [where i = i and pc = AcqGet and a = "author s"]) simp_all
  next
    case (acq_get i u rnd)
    then show ?thesis by (intro read [OF acq_get(1)] read_ok(1) [OF st])
  next
    case (acq_put_new i u st' err)
    then show ?thesis using absent_val [OF st, of key] by (intro put [OF acq_put_new(3,1)]) auto
  next
    case (acq_put i u ver st' err)
    then show ?thesis using unat_of_applied by (intro put [OF acq_put(3,1)]) auto
  next
    case (acq_read i u)
    then show ?thesis
      using read_ok(2) [OF st, of key u]
      by (intro read [where i = i and pc = "acquire_read u (get (store s) key)" and a = "author s"]) simp_all
  next
    case (call_release i u)
    then show ?thesis by (intro read [where i = i and pc = "RelGet u" and a = "author s"]) simp_all
  next
    case (rel_get i u)
    then show ?thesis
      using read_ok(3) [OF st, of key u]
      by (intro read [where i = i and pc = "release_got u (get (store s) key)" and a = "author s"]) simp_all
  next
    case (rel_read i u cur)
    then show ?thesis
      using read_ok(4) [OF st, of key u cur]
      by (intro read [where i = i and pc = "check_read u cur (get (store s) key)" and a = "author s"]) simp_all
  next
    case (rel_put i u cur ver st' err)
    then show ?thesis using unat_of_applied by (intro put [OF rel_put(3,1)]) auto
  qed
qed

lemma lock_inv_init: "lock_inv key (lock_init init)"
  by (simp add: lock_inv_def lock_init_def token_inv_def invar_init)

sublocale lock_system: invariant_system "lock_init init" "lock_step get put key" "lock_inv key" for key
  by unfold_locales (auto intro: lock_inv_init lock_inv_step)

text \<open>Two clients that hold the lock are the same client.\<close>

lemma mutual_exclusion:
  assumes "reachable (lock_init init) (lock_step get put key) s" and "applied (store s) key < 2 ^ 64"
    and "pcs s i = Held u" and "pcs s j = Held w"
  shows "i = j"
proof -
  have inv: "lock_inv key s" using assms(1) by (rule lock_system.inv_reachable)
  then have "u = val (store s) key" "w = val (store s) key"
    using assms(2-4) unfolding lock_inv_def by (metis pc_ok.simps(2))+
  moreover have "token_inv s" using inv by (simp add: lock_inv_def)
  ultimately show ?thesis
    using token_of_pc [of s i u] token_of_pc [of s j w] assms(3,4) by simp
qed

text \<open>A lock whose value is a token that nobody works with any more is never acquired again.\<close>

definition abandoned :: "string \<Rightarrow> 's lock_sys \<Rightarrow> bool" where
  "abandoned key s \<longleftrightarrow>
     invar (store s) \<and> 0 < applied (store s) key \<and> val (store s) key \<noteq> '''' \<and>
     (\<forall>i. pcs s i = NotHeld \<or> pcs s i = AcqGet)"

lemma abandoned_pc: "abandoned key s \<Longrightarrow> pcs s i = pc \<Longrightarrow> pc = NotHeld \<or> pc = AcqGet"
  by (auto simp: abandoned_def)

lemma abandoned_step:
  assumes "lock_step get put key s t" and ab: "abandoned key s"
  shows "abandoned key t"
  using assms(1)
proof (cases rule: lock_step.cases)
  case (acq_get i tok rnd)
  have "get (store s) key = (val (store s) key, of_nat (applied (store s) key), OK)"
    using get_present [of "store s" key] ab by (simp add: abandoned_def val_def)
  then have "acquire_got tok (get (store s) key) = AcqGet"
    using ab by (simp add: abandoned_def)
  with acq_get(1) ab show ?thesis by (simp add: abandoned_def)
next
  case (call_acquire i)
  with ab show ?thesis by (simp add: abandoned_def)
qed (use abandoned_pc [OF ab] in fastforce)+

lemma abandoned_forever:
  assumes "abandoned key s" and "(lock_step get put key)\<^sup>*\<^sup>* s t"
  shows "pcs t i \<noteq> Held u"
proof -
  have "abandoned key t"
    using assms(2,1) by (induction rule: rtranclp_induct) (auto intro: abandoned_step)
  then have "pcs t i = NotHeld \<or> pcs t i = AcqGet" by (simp add: abandoned_def)
  then show ?thesis by auto
qed

end

abbreviation kv_lock_step :: "string \<Rightarrow> counted_store lock_sys \<Rightarrow> counted_store lock_sys \<Rightarrow> bool" where
  "kv_lock_step \<equiv> lock_step clerk_get clerk_put"

text \<open>
  C4: mutual exclusion of the lock over the key/value service, with lost requests and replies: in
  every reachable state of any number of clients, while the lock's key has seen fewer than \<open>2 ^ 64\<close>
  puts, at most one client is between the return of \<open>Acquire\<close> and its call of \<open>Release\<close>. The
  random tokens are assumed not to repeat.
\<close>

theorem lock_mutual_exclusion:
  assumes "reachable (lock_init counted_init) (kv_lock_step key) s" and "snd (store s) key < 2 ^ 64"
    and "pcs s i = Held u" and "pcs s j = Held w"
  shows "i = j"
  by (rule kvsrv_clerk.mutual_exclusion [OF assms])

section \<open>Concrete runs\<close>

definition ex_token :: string where
  "ex_token = RandValue (\<lambda>_. 0) 8"

definition ex_lock :: "lock_pc \<Rightarrow> counted_store lock_sys" where
  "ex_lock pc =
     \<lparr>store = (put_store MakeKVServer \<lparr>put_Key = ''l'', put_Value = ex_token, put_Version = 0\<rparr>,
               (\<lambda>_. 0)(''l'' := 1)),
      pcs = (\<lambda>_. NotHeld)(0 := pc), author = [ex_token \<mapsto> 0]\<rparr>"

text \<open>
  The first \<open>Acquire\<close> on a fresh key: its Put is applied, and reported \<open>OK\<close> or, when a reply was
  lost, \<open>ErrMaybe\<close>.
\<close>

lemma ex_lock_reachable:
  assumes "err \<in> {OK, ErrMaybe}"
  shows "reachable (lock_init counted_init) (kv_lock_step ''l'') (ex_lock (acquire_put_new ex_token err))"
proof -
  let ?R = "reachable (lock_init counted_init) (kv_lock_step ''l'')"
  let ?s = "\<lambda>pc. \<lparr>store = counted_init, pcs = (\<lambda>_. NotHeld)(0 := pc), author = Map.empty\<rparr>"
  let ?s2 = "?s (AcqPutNew ex_token)\<lparr>author := [ex_token \<mapsto> 0]\<rparr>"
  have 1: "kv_lock_step ''l'' (lock_init counted_init) (?s AcqGet)"
    using call_acquire [of "lock_init counted_init" 0 clerk_get clerk_put "''l''"]
    by (simp add: lock_init_def)
  have g: "clerk_get counted_init ''l'' = ('''', 0, ErrNoKey)"
    by (rule kvsrv_clerk.get_absent [OF kvsrv_clerk.invar_init]) (simp add: counted_init_def)
  have 2: "kv_lock_step ''l'' (?s AcqGet) ?s2"
    using acq_get [of "?s AcqGet" 0 ex_token "\<lambda>_. 0" clerk_get clerk_put "''l''"] g
    by (simp add: ex_token_def)
  have p: "clerk_put counted_init ''l'' ex_token 0 (store (ex_lock NotHeld)) err"
    using assms by (auto simp: clerk_put_def ex_lock_def counted_init_def Server_Put_eq put_point_def
        put_applies_def key_version_def MakeKVServer_def PutReply0_def put_err_def fun_eq_iff)
  have 3: "kv_lock_step ''l'' ?s2 (ex_lock (acquire_put_new ex_token err))"
    using acq_put_new [of ?s2 0 ex_token clerk_put "''l''" "store (ex_lock NotHeld)" err clerk_get] p
    by (simp add: ex_lock_def del: acquire_put_new.simps)
  from 1 2 3 show ?thesis by (meson reach_init reach_step)
qed

lemma lock_mutual_exclusion_witness:
  "reachable (lock_init counted_init) (kv_lock_step ''l'') (ex_lock (Held ex_token)) \<and>
   snd (store (ex_lock (Held ex_token))) ''l'' < 2 ^ 64 \<and>
   pcs (ex_lock (Held ex_token)) 0 = Held ex_token \<and> (0 :: nat) = 0"
proof -
  have r: "reachable (lock_init counted_init) (kv_lock_step ''l'') (ex_lock (Held ex_token))"
    using ex_lock_reachable [of OK] by simp
  have n: "snd (store (ex_lock (Held ex_token))) ''l'' < 2 ^ 64"
    and h: "pcs (ex_lock (Held ex_token)) 0 = Held ex_token"
    by (simp_all add: ex_lock_def)
  show ?thesis using lock_mutual_exclusion [OF r n h h] r n h by blast
qed

text \<open>
  C6: \<open>Acquire\<close> can lose the lock for good. On a key that does not exist yet, \<open>Acquire\<close> treats
  every result of its Put other than \<open>OK\<close> as a failure, also \<open>ErrMaybe\<close> (unlike its branch for a
  free existing key). There is a reachable state in which nobody holds the lock and from which no
  client ever acquires it, whatever happens: the Put of the first \<open>Acquire\<close> was applied but its
  first reply was lost, and the client spins on its own token.
\<close>

theorem acquire_can_lose_the_lock:
  "\<exists>s. reachable (lock_init counted_init) (kv_lock_step ''l'') s \<and>
     (\<forall>i. pcs s i \<in> {NotHeld, AcqGet}) \<and>
     {t. (kv_lock_step ''l'')\<^sup>*\<^sup>* s t} \<subseteq> {t. \<forall>i u. pcs t i \<noteq> Held u}"
proof -
  let ?s = "ex_lock AcqGet"
  have r: "reachable (lock_init counted_init) (kv_lock_step ''l'') ?s"
    using ex_lock_reachable [of ErrMaybe] by simp
  have "ex_token \<noteq> ''''" unfolding ex_token_def by (rule RandValue_nonempty)
  then have "kvsrv_clerk.abandoned ''l'' ?s"
    using kvsrv_clerk.lock_system.inv_reachable [OF r]
    by (auto simp: kvsrv_clerk.abandoned_def kvsrv_clerk.lock_inv_def kvsrv_clerk.val_def
        ex_lock_def clerk_get_def Server_Get_eq key_value_put_store)
  then have "{t. (kv_lock_step ''l'')\<^sup>*\<^sup>* ?s t} \<subseteq> {t. \<forall>i u. pcs t i \<noteq> Held u}"
    using kvsrv_clerk.abandoned_forever by blast
  moreover have "\<forall>i. pcs ?s i \<in> {NotHeld, AcqGet}" by (simp add: ex_lock_def)
  ultimately show ?thesis using r by blast
qed

end
