(* ===== verification/Mr_Coordinator.thy ===== *)
theory Mr_Coordinator
  imports Prelude
begin

text \<open>
  \<open>mr/coordinator.go\<close> and \<open>mr/rpc.go\<close>: the MapReduce coordinator, which hands out map tasks, then
  reduce tasks, takes tasks back that were not reported within ten seconds, and tells workers when
  everything is done. A pointer to a task is its position in the task list. Times are in nanoseconds.
\<close>

section \<open>State\<close>

text \<open>Both enumerations are Go strings; the last constructor is the empty string of a zero value.\<close>

datatype TaskType = MapTask | ReduceTask | WaitTask | FinishedTask | NoTask

datatype Status = Idle | InProgress | Completed | NoStatus

type_synonym TaskId = int

record Task =
  t_FileName :: string
  t_NReduce :: int
  t_Status :: Status
  t_TaskType :: TaskType
  t_StartTime :: int
  t_TaskId :: TaskId

text \<open>The zero \<open>time.Time\<close> is the year 1; any time long before every run stands for it.\<close>

definition zero_time :: int where
  "zero_time = -62135596800 * 1000000000"

text \<open>\<open>10*time.Second\<close>.\<close>

abbreviation ten_seconds :: int where
  "ten_seconds \<equiv> 10000000000"

definition NewTask :: "TaskType \<Rightarrow> Task" where
  "NewTask ty = \<lparr>t_FileName = '''', t_NReduce = 0, t_Status = NoStatus, t_TaskType = ty,
                 t_StartTime = zero_time, t_TaskId = 0\<rparr>"

record Coordinator =
  tasks :: "Task list"
  nReduce :: int
  nMap :: int
  mapCount :: int
  reduceCount :: int
  files :: "string list"

record GetTaskReply =
  TaskInfo :: Task
  BucketNum :: int
  MapNum :: int

definition GetTaskReply0 :: GetTaskReply where
  "GetTaskReply0 = \<lparr>TaskInfo = NewTask NoTask, BucketNum = 0, MapNum = 0\<rparr>"

section \<open>Operations\<close>

fun task_index :: "nat \<Rightarrow> TaskId \<Rightarrow> Task list \<Rightarrow> nat option" where
  "task_index i tid [] = None"
| "task_index i tid (t # ts) = (if t_TaskId t = tid then Some i else task_index (Suc i) tid ts)"

definition getTaskByTaskId :: "TaskId \<Rightarrow> Coordinator \<Rightarrow> nat option" where
  "getTaskByTaskId tid c = task_index 0 tid (tasks c)"

definition checkTimeout :: "int \<Rightarrow> Coordinator \<Rightarrow> Coordinator" where
  "checkTimeout now c =
     c\<lparr>tasks := map (\<lambda>t. if now - t_StartTime t > ten_seconds \<and> t_Status t = InProgress
                         then t\<lparr>t_Status := Idle\<rparr> else t) (tasks c)\<rparr>"

text \<open>
  The scan that \<open>getMapTask\<close> and \<open>getReduceTask\<close> share: the first idle task of the type, else the
  first one in progress, else nothing left to do.
\<close>

fun get_loop :: "TaskType \<Rightarrow> nat \<Rightarrow> Task list \<Rightarrow> nat list \<Rightarrow> Status \<times> nat option" where
  "get_loop ty i [] progress =
     (case progress of [] \<Rightarrow> (Completed, None) | p # _ \<Rightarrow> (InProgress, Some p))"
| "get_loop ty i (t # ts) progress =
     (if t_TaskType t = ty
      then if t_Status t = Idle then (Idle, Some i)
           else if t_Status t = InProgress then get_loop ty (Suc i) ts (progress @ [i])
           else get_loop ty (Suc i) ts progress
      else get_loop ty (Suc i) ts progress)"

definition getMapTask :: "Coordinator \<Rightarrow> Status \<times> nat option" where
  "getMapTask c = get_loop MapTask 0 (tasks c) []"

definition getReduceTask :: "Coordinator \<Rightarrow> Status \<times> nat option" where
  "getReduceTask c = get_loop ReduceTask 0 (tasks c) []"

definition start_task :: "int \<Rightarrow> nat \<Rightarrow> Coordinator \<Rightarrow> Coordinator" where
  "start_task now i c =
     c\<lparr>tasks := (tasks c)[i := (tasks c ! i)\<lparr>t_Status := InProgress, t_StartTime := now\<rparr>]\<rparr>"

text \<open>
  The handler reads the clock twice: \<open>now\<close> for the timeouts, and \<open>started\<close> for the start time of the task
  that it gives out. Dereferencing a nil task would panic.
\<close>

definition GetTask :: "int \<Rightarrow> int \<Rightarrow> Coordinator \<Rightarrow> (Coordinator \<times> GetTaskReply) go" where
  "GetTask now started c =
     (let c = checkTimeout now c;
          (mapStatus, mapTask) = getMapTask c;
          (reduceStatus, reduceTask) = getReduceTask c
      in if mapStatus = Completed \<and> reduceStatus = Completed
         then Inr (c, GetTaskReply0\<lparr>TaskInfo := NewTask FinishedTask\<rparr>)
         else if mapStatus = Idle
         then case mapTask of
             None \<Rightarrow> Inl NilPanic
           | Some i \<Rightarrow> let c = start_task started i c in Inr (c, GetTaskReply0\<lparr>TaskInfo := tasks c ! i\<rparr>)
         else if mapStatus = InProgress
         then Inr (c, GetTaskReply0\<lparr>TaskInfo := NewTask WaitTask\<rparr>)
         else if mapStatus = Completed \<and> reduceStatus = Idle
         then case reduceTask of
             None \<Rightarrow> Inl NilPanic
           | Some i \<Rightarrow> let c = start_task started i c
                       in Inr (c\<lparr>reduceCount := reduceCount c + 1\<rparr>,
                               \<lparr>TaskInfo = tasks c ! i, BucketNum = reduceCount c,
                                MapNum = int (length (files c))\<rparr>)
         else if mapStatus = Completed \<and> reduceStatus = InProgress
         then Inr (c, GetTaskReply0\<lparr>TaskInfo := NewTask WaitTask\<rparr>)
         else Inr (c, GetTaskReply0))"

definition ReportTask :: "TaskId \<Rightarrow> Coordinator \<Rightarrow> Coordinator go" where
  "ReportTask tid c = (case getTaskByTaskId tid c of
      None \<Rightarrow> Inl LogFatal
    | Some i \<Rightarrow> Inr (c\<lparr>tasks := (tasks c)[i := (tasks c ! i)\<lparr>t_Status := Completed\<rparr>]\<rparr>))"

definition map_tasks :: "string list \<Rightarrow> int \<Rightarrow> Task list" where
  "map_tasks fs nr = map (\<lambda>(i, file). (NewTask MapTask)
     \<lparr>t_FileName := file, t_NReduce := nr, t_Status := Idle, t_TaskId := int i\<rparr>) (enumerate 0 fs)"

definition reduce_tasks :: "nat \<Rightarrow> int \<Rightarrow> Task list" where
  "reduce_tasks nf nr = map (\<lambda>i. (NewTask ReduceTask)
     \<lparr>t_Status := Idle, t_NReduce := nr, t_TaskId := int (nf + i)\<rparr>) [0..<nat nr]"

text \<open>The call of \<open>server\<close> that ends \<open>MakeCoordinator\<close> is \<open>coordinator_server\<close> of \<open>Main_Cmds\<close>.\<close>

definition MakeCoordinator :: "string list \<Rightarrow> int \<Rightarrow> Coordinator" where
  "MakeCoordinator fs nr =
     \<lparr>tasks = map_tasks fs nr @ reduce_tasks (length fs) nr, nReduce = nr, nMap = int (length fs),
      mapCount = 0, reduceCount = 0, files = fs\<rparr>"

definition Done :: "Coordinator \<Rightarrow> bool" where
  "Done c = False"

section \<open>The scan\<close>

text \<open>A status that the scan skips, because the task is done.\<close>

definition busy :: "Task \<Rightarrow> bool" where
  "busy t \<longleftrightarrow> t_Status t = Idle \<or> t_Status t = InProgress"

lemma get_loop_idle_index:
  "get_loop ty i ts pr = (Idle, r) \<Longrightarrow>
     \<exists>k<length ts. r = Some (i + k) \<and> t_TaskType (ts ! k) = ty \<and> t_Status (ts ! k) = Idle"
proof (induction ty i ts pr rule: get_loop.induct)
  case (2 ty i t ts pr)
  show ?case
  proof (cases "t_TaskType t = ty \<and> t_Status t = Idle")
    case True
    then show ?thesis using "2.prems" by (intro exI [of _ 0]) simp
  next
    case False
    then have "\<exists>k<length ts. r = Some (Suc i + k) \<and> t_TaskType (ts ! k) = ty \<and> t_Status (ts ! k) = Idle"
      using 2 by (auto split: if_split_asm)
    then obtain k where "k < length ts" "r = Some (Suc i + k)" "t_TaskType (ts ! k) = ty"
      "t_Status (ts ! k) = Idle" by blast
    then show ?thesis by (intro exI [of _ "Suc k"]) simp
  qed
qed (simp split: list.splits)

lemma get_loop_idle:
  "fst (get_loop ty i ts pr) = Idle \<longleftrightarrow> (\<exists>t\<in>set ts. t_TaskType t = ty \<and> t_Status t = Idle)"
  by (induction ty i ts pr rule: get_loop.induct) (auto split: list.splits)

lemma get_loop_completed:
  "fst (get_loop ty i ts pr) = Completed \<longleftrightarrow> pr = [] \<and> (\<forall>t\<in>set ts. t_TaskType t = ty \<longrightarrow> \<not> busy t)"
  by (induction ty i ts pr rule: get_loop.induct) (auto simp: busy_def split: list.splits)

lemma get_loop_status: "fst (get_loop ty i ts pr) \<in> {Idle, InProgress, Completed}"
  by (induction ty i ts pr rule: get_loop.induct) (auto split: list.splits)

lemma get_loop_first:
  "get_loop ty i ts pr = (Idle, Some (i + k)) \<Longrightarrow> j < k \<Longrightarrow>
     t_TaskType (ts ! j) = ty \<Longrightarrow> t_Status (ts ! j) \<noteq> Idle"
proof (induction ty i ts pr arbitrary: j k rule: get_loop.induct)
  case (2 ty i t ts pr)
  then show ?case by (cases j; cases k) (auto split: if_split_asm)
qed (simp split: list.splits)

section \<open>The coordinator and its callers\<close>

text \<open>
  A run of the coordinator: time passes, workers call \<open>GetTask\<close>, and workers report tasks that they
  were given. \<open>handed\<close> records the tasks given out, latest first, with the time and the reply; only the
  rule for reports reads it, since a worker reports nothing else. \<open>mr_failed\<close> is set if a handler
  panics or ends the process.
\<close>

record mr_sys =
  coord :: Coordinator
  mclock :: int
  handed :: "(TaskId \<times> int \<times> GetTaskReply) list"
  mr_failed :: bool

definition mr_init :: "string list \<Rightarrow> int \<Rightarrow> mr_sys" where
  "mr_init fs nr = \<lparr>coord = MakeCoordinator fs nr, mclock = 0, handed = [], mr_failed = False\<rparr>"

definition is_work :: "GetTaskReply \<Rightarrow> bool" where
  "is_work r \<longleftrightarrow> t_TaskType (TaskInfo r) = MapTask \<or> t_TaskType (TaskInfo r) = ReduceTask"

inductive mr_step :: "mr_sys \<Rightarrow> mr_sys \<Rightarrow> bool" where
  mr_time: "mclock s \<le> t \<Longrightarrow> mr_step s (s\<lparr>mclock := t\<rparr>)"
| mr_get: "mclock s \<le> t \<Longrightarrow> GetTask (mclock s) t (coord s) = Inr (c, r) \<Longrightarrow> \<not> mr_failed s \<Longrightarrow>
    mr_step s (s\<lparr>mclock := t, coord := c,
      handed := (if is_work r then (t_TaskId (TaskInfo r), t, r) # handed s else handed s)\<rparr>)"
| mr_get_fails: "mclock s \<le> t \<Longrightarrow> GetTask (mclock s) t (coord s) = Inl p \<Longrightarrow> mr_step s (s\<lparr>mr_failed := True\<rparr>)"
| mr_report: "tid \<in> fst ` set (handed s) \<Longrightarrow> ReportTask tid (coord s) = Inr c \<Longrightarrow> \<not> mr_failed s \<Longrightarrow>
    mr_step s (s\<lparr>coord := c\<rparr>)"
| mr_report_fails: "tid \<in> fst ` set (handed s) \<Longrightarrow> ReportTask tid (coord s) = Inl p \<Longrightarrow>
    mr_step s (s\<lparr>mr_failed := True\<rparr>)"

section \<open>Invariant\<close>

text \<open>
  The shape of the task list never changes: task \<open>i\<close> has identifier \<open>i\<close>, the map tasks come first
  and carry the input files.
\<close>

definition task_shape :: "string list \<Rightarrow> int \<Rightarrow> nat \<Rightarrow> Task \<Rightarrow> bool" where
  "task_shape fs nr i t \<longleftrightarrow> t_TaskId t = int i \<and> t_NReduce t = nr \<and>
     t_TaskType t = (if i < length fs then MapTask else ReduceTask) \<and>
     t_FileName t = (if i < length fs then fs ! i else '''') \<and> t_Status t \<noteq> NoStatus"

definition coord_shape :: "string list \<Rightarrow> int \<Rightarrow> Coordinator \<Rightarrow> bool" where
  "coord_shape fs nr c \<longleftrightarrow> length (tasks c) = length fs + nat nr \<and> files c = fs \<and> nReduce c = nr \<and>
     (\<forall>i<length (tasks c). task_shape fs nr i (tasks c ! i))"

text \<open>No reduce task has been touched before every map task was completed.\<close>

definition maps_done :: "string list \<Rightarrow> Coordinator \<Rightarrow> bool" where
  "maps_done fs c \<longleftrightarrow> (\<forall>i<length fs. t_Status (tasks c ! i) = Completed)"

definition barrier :: "string list \<Rightarrow> mr_sys \<Rightarrow> bool" where
  "barrier fs s \<longleftrightarrow> maps_done fs (coord s) \<or>
     (\<forall>i. length fs \<le> i \<and> i < length (tasks (coord s)) \<longrightarrow>
        t_Status (tasks (coord s) ! i) = Idle \<and> int i \<notin> fst ` set (handed s))"

text \<open>A task given out again was given out more than ten seconds ago.\<close>

definition handed_ok :: "mr_sys \<Rightarrow> bool" where
  "handed_ok s \<longleftrightarrow> (\<forall>(tid, t, r)\<in>set (handed s). 0 \<le> tid \<and> tid < int (length (tasks (coord s))) \<and>
     (t_Status (tasks (coord s) ! nat tid) = Idle \<longrightarrow> mclock s - t > ten_seconds) \<and>
     (t_Status (tasks (coord s) ! nat tid) = InProgress \<longrightarrow> t \<le> t_StartTime (tasks (coord s) ! nat tid)))"

fun gaps :: "(TaskId \<times> int \<times> GetTaskReply) list \<Rightarrow> bool" where
  "gaps [] = True"
| "gaps ((tid, t, r) # hs) \<longleftrightarrow> (\<forall>(tid', t', r')\<in>set hs. tid' = tid \<longrightarrow> t - t' > ten_seconds) \<and> gaps hs"

definition reduces :: "(TaskId \<times> int \<times> GetTaskReply) list \<Rightarrow> GetTaskReply list" where
  "reduces hs = filter (\<lambda>r. t_TaskType (TaskInfo r) = ReduceTask) (map (\<lambda>(tid, t, r). r) hs)"

text \<open>Bucket numbers are given out in order, one per reduce task given out.\<close>

definition buckets_ok :: "mr_sys \<Rightarrow> bool" where
  "buckets_ok s \<longleftrightarrow> reduceCount (coord s) = int (length (reduces (handed s))) \<and>
     map BucketNum (rev (reduces (handed s))) = map int [0..<length (reduces (handed s))] \<and>
     (\<forall>(tid, t, r)\<in>set (handed s). tid = t_TaskId (TaskInfo r) \<and>
        (t_TaskType (TaskInfo r) = ReduceTask \<longleftrightarrow> tid \<ge> int (length (files (coord s)))))"

definition mr_inv :: "string list \<Rightarrow> int \<Rightarrow> mr_sys \<Rightarrow> bool" where
  "mr_inv fs nr s \<longleftrightarrow> \<not> mr_failed s \<and> coord_shape fs nr (coord s) \<and> barrier fs s \<and> handed_ok s \<and>
     gaps (handed s) \<and> buckets_ok s"

lemma coord_shape_task: "coord_shape fs nr c \<Longrightarrow> i < length (tasks c) \<Longrightarrow> task_shape fs nr i (tasks c ! i)"
  by (simp add: coord_shape_def)

lemma tasks_checkTimeout:
  "i < length (tasks c) \<Longrightarrow> tasks (checkTimeout now c) ! i =
     (if now - t_StartTime (tasks c ! i) > ten_seconds \<and> t_Status (tasks c ! i) = InProgress
      then (tasks c ! i)\<lparr>t_Status := Idle\<rparr> else tasks c ! i)"
  by (simp add: checkTimeout_def)

lemma checkTimeout_fields [simp]:
  "length (tasks (checkTimeout now c)) = length (tasks c)" "files (checkTimeout now c) = files c"
  "nReduce (checkTimeout now c) = nReduce c" "reduceCount (checkTimeout now c) = reduceCount c"
  by (simp_all add: checkTimeout_def)

lemma coord_shape_checkTimeout: "coord_shape fs nr c \<Longrightarrow> coord_shape fs nr (checkTimeout now c)"
  by (simp add: coord_shape_def tasks_checkTimeout task_shape_def)

lemma coord_shape_status:
  "coord_shape fs nr c \<Longrightarrow> st \<noteq> NoStatus \<Longrightarrow> i < length (tasks c) \<Longrightarrow>
     coord_shape fs nr (c\<lparr>tasks := (tasks c)[i := (tasks c ! i)\<lparr>t_Status := st, t_StartTime := t\<rparr>]\<rparr>)"
  by (auto simp: coord_shape_def task_shape_def nth_update_if)

lemma coord_shape_Make: "coord_shape fs nr (MakeCoordinator fs nr)"
  by (auto simp: coord_shape_def MakeCoordinator_def task_shape_def map_tasks_def reduce_tasks_def
      nth_append nth_enumerate_eq NewTask_def)

lemma task_index_shape:
  "(\<forall>k<length ts. t_TaskId (ts ! k) = int (i + k)) \<Longrightarrow>
     task_index i tid ts = (if int i \<le> tid \<and> tid < int (i + length ts) then Some (nat tid) else None)"
proof (induction i tid ts rule: task_index.induct)
  case (2 i tid t ts)
  have "t_TaskId t = int i" using "2.prems" by force
  moreover have "\<forall>k<length ts. t_TaskId (ts ! k) = int (Suc i + k)"
    using "2.prems" by (metis Suc_less_eq add_Suc_shift length_Cons nth_Cons_Suc)
  ultimately show ?case using "2.IH" by auto
qed auto

lemma getTaskByTaskId_shape:
  "coord_shape fs nr c \<Longrightarrow>
     getTaskByTaskId tid c = (if 0 \<le> tid \<and> tid < int (length (tasks c)) then Some (nat tid) else None)"
  unfolding getTaskByTaskId_def
  using task_index_shape [of "tasks c" 0 tid] by (simp add: coord_shape_def task_shape_def)

section \<open>What a call of GetTask does\<close>

lemma shape_length: "coord_shape fs nr c \<Longrightarrow> length fs \<le> length (tasks c)"
  by (simp add: coord_shape_def)

lemma shape_busy:
  "coord_shape fs nr c \<Longrightarrow> i < length (tasks c) \<Longrightarrow> \<not> busy (tasks c ! i) \<longleftrightarrow> t_Status (tasks c ! i) = Completed"
  using coord_shape_task [of fs nr c i] by (cases "t_Status (tasks c ! i)") (auto simp: busy_def task_shape_def)

lemma shape_type:
  "coord_shape fs nr c \<Longrightarrow> i < length (tasks c) \<Longrightarrow>
     t_TaskType (tasks c ! i) = (if i < length fs then MapTask else ReduceTask)"
  by (simp add: coord_shape_def task_shape_def)

lemma shape_not_busy:
  "coord_shape fs nr c \<Longrightarrow> (\<forall>t\<in>set (tasks c). t_TaskType t = ty \<longrightarrow> \<not> busy t) \<longleftrightarrow>
     (\<forall>i<length (tasks c). (if i < length fs then MapTask else ReduceTask) = ty \<longrightarrow>
        t_Status (tasks c ! i) = Completed)"
  by (auto simp: all_set_conv_all_nth shape_busy shape_type)

lemma getMapTask_completed:
  "coord_shape fs nr c \<Longrightarrow> fst (getMapTask c) = Completed \<longleftrightarrow> maps_done fs c"
  using shape_length [of fs nr c]
  by (auto simp: getMapTask_def get_loop_completed shape_not_busy maps_done_def)

lemma getReduceTask_completed:
  "coord_shape fs nr c \<Longrightarrow> fst (getReduceTask c) = Completed \<longleftrightarrow>
     (\<forall>i<length (tasks c). length fs \<le> i \<longrightarrow> t_Status (tasks c ! i) = Completed)"
  by (auto simp: getReduceTask_def get_loop_completed shape_not_busy)

lemma getMapTask_idle:
  "coord_shape fs nr c \<Longrightarrow> getMapTask c = (Idle, r) \<Longrightarrow>
     \<exists>i<length fs. i < length (tasks c) \<and> r = Some i \<and> t_Status (tasks c ! i) = Idle"
  using get_loop_idle_index [of MapTask 0 "tasks c" "[]" r] coord_shape_task [of fs nr c]
  by (force simp: getMapTask_def task_shape_def split: if_splits)

lemma getReduceTask_idle:
  "coord_shape fs nr c \<Longrightarrow> getReduceTask c = (Idle, r) \<Longrightarrow>
     \<exists>i\<ge>length fs. i < length (tasks c) \<and> r = Some i \<and> t_Status (tasks c ! i) = Idle"
  using get_loop_idle_index [of ReduceTask 0 "tasks c" "[]" r] coord_shape_task [of fs nr c]
  by (force simp: getReduceTask_def task_shape_def split: if_splits)

definition map_reply :: "int \<Rightarrow> nat \<Rightarrow> Coordinator \<Rightarrow> GetTaskReply" where
  "map_reply now i c = GetTaskReply0\<lparr>TaskInfo := (tasks c ! i)\<lparr>t_Status := InProgress, t_StartTime := now\<rparr>\<rparr>"

definition reduce_reply :: "int \<Rightarrow> nat \<Rightarrow> Coordinator \<Rightarrow> GetTaskReply" where
  "reduce_reply now i c = \<lparr>TaskInfo = (tasks c ! i)\<lparr>t_Status := InProgress, t_StartTime := now\<rparr>,
     BucketNum = reduceCount c, MapNum = int (length (files c))\<rparr>"

lemma GetTask_cases:
  fixes now started :: int
  assumes sh: "coord_shape fs nr c"
  defines "c1 \<equiv> checkTimeout now c"
  obtains (finished) "\<forall>i<length (tasks c1). t_Status (tasks c1 ! i) = Completed"
      "GetTask now started c = Inr (c1, GetTaskReply0\<lparr>TaskInfo := NewTask FinishedTask\<rparr>)"
  | (wait) "\<exists>i<length (tasks c1). t_Status (tasks c1 ! i) = InProgress"
      "GetTask now started c = Inr (c1, GetTaskReply0\<lparr>TaskInfo := NewTask WaitTask\<rparr>)"
  | (work_map) i where "i < length fs" "i < length (tasks c1)" "t_Status (tasks c1 ! i) = Idle"
      "GetTask now started c = Inr (start_task started i c1, map_reply started i c1)"
  | (work_reduce) i where "maps_done fs c1" "length fs \<le> i" "i < length (tasks c1)"
      "t_Status (tasks c1 ! i) = Idle"
      "GetTask now started c = Inr ((start_task started i c1)\<lparr>reduceCount := reduceCount c1 + 1\<rparr>, reduce_reply started i c1)"
proof -
  have sh1: "coord_shape fs nr c1" using sh by (simp add: c1_def coord_shape_checkTimeout)
  obtain ms mi where m: "getMapTask c1 = (ms, mi)" by (cases "getMapTask c1")
  obtain rs ri where r: "getReduceTask c1 = (rs, ri)" by (cases "getReduceTask c1")
  note def = GetTask_def [of now started c, folded c1_def, unfolded Let_def m r prod.case]
  have ms: "ms \<in> {Idle, InProgress, Completed}" "rs \<in> {Idle, InProgress, Completed}"
    using get_loop_status [of MapTask 0 "tasks c1" "[]"] get_loop_status [of ReduceTask 0 "tasks c1" "[]"]
      m r by (simp_all add: getMapTask_def getReduceTask_def)
  have prog: "\<exists>i<length (tasks c1). t_Status (tasks c1 ! i) = InProgress"
    if "fst (get_loop ty 0 (tasks c1) []) = InProgress" for ty
  proof -
    have "\<exists>t\<in>set (tasks c1). t_TaskType t = ty \<and> busy t \<and> t_Status t \<noteq> Idle"
      using that get_loop_idle [of ty 0 "tasks c1" "[]"] get_loop_completed [of ty 0 "tasks c1" "[]"]
      by auto
    then show ?thesis by (auto simp: in_set_conv_nth busy_def)
  qed
  consider "ms = Idle" | "ms = InProgress" | "ms = Completed" "rs = Idle"
    | "ms = Completed" "rs = InProgress" | "ms = Completed" "rs = Completed" using ms by auto
  then show thesis
  proof cases
    case 1
    then obtain i where i: "i < length fs" "i < length (tasks c1)" "mi = Some i" "t_Status (tasks c1 ! i) = Idle"
      using getMapTask_idle [OF sh1] m by blast
    then show thesis
      using 1 by (intro work_map [of i]) (simp_all add: def start_task_def map_reply_def)
  next
    case 2
    then show thesis using prog [of MapTask] m by (intro wait) (simp_all add: def getMapTask_def)
  next
    case 3
    then obtain i where i: "length fs \<le> i" "i < length (tasks c1)" "ri = Some i" "t_Status (tasks c1 ! i) = Idle"
      using getReduceTask_idle [OF sh1] r by blast
    moreover have "maps_done fs c1" using 3 m getMapTask_completed [OF sh1] by simp
    ultimately show thesis
      using 3 by (intro work_reduce [of i]) (simp_all add: def start_task_def reduce_reply_def)
  next
    case 4
    then show thesis using prog [of ReduceTask] r by (intro wait) (simp_all add: def getReduceTask_def)
  next
    case 5
    then have "t_Status (tasks c1 ! i) = Completed" if "i < length (tasks c1)" for i
      using that m r getMapTask_completed [OF sh1] getReduceTask_completed [OF sh1]
      by (cases "i < length fs") (auto simp: maps_done_def)
    then show thesis using 5 by (intro finished) (simp_all add: def)
  qed
qed

section \<open>The invariant holds\<close>

lemma mr_inv_init: "mr_inv fs nr (mr_init fs nr)"
proof -
  have "t_Status (tasks (MakeCoordinator fs nr) ! i) = Idle"
    if "length fs \<le> i" "i < length (tasks (MakeCoordinator fs nr))" for i
    using that by (simp add: MakeCoordinator_def nth_append map_tasks_def reduce_tasks_def NewTask_def)
  then show ?thesis
    using coord_shape_Make [of fs nr]
    by (simp add: mr_inv_def mr_init_def barrier_def handed_ok_def buckets_ok_def reduces_def)
      (simp add: MakeCoordinator_def)
qed

lemma handed_okD:
  "handed_ok s \<Longrightarrow> (tid, t, r) \<in> set (handed s) \<Longrightarrow> 0 \<le> tid \<and> tid < int (length (tasks (coord s))) \<and>
     (t_Status (tasks (coord s) ! nat tid) = Idle \<longrightarrow> mclock s - t > ten_seconds) \<and>
     (t_Status (tasks (coord s) ! nat tid) = InProgress \<longrightarrow> t \<le> t_StartTime (tasks (coord s) ! nat tid))"
  by (auto simp: handed_ok_def)

lemma mr_inv_handed:
  "mr_inv fs nr s \<Longrightarrow> (tid, t, r) \<in> set (handed s) \<Longrightarrow>
     0 \<le> tid \<and> tid < int (length (tasks (coord s))) \<and> tid = t_TaskId (TaskInfo r) \<and>
     (t_TaskType (TaskInfo r) = ReduceTask \<longleftrightarrow> tid \<ge> int (length fs))"
  using handed_okD [of s tid t r] by (auto simp: mr_inv_def buckets_ok_def coord_shape_def)

lemma handed_okI:
  "(\<And>tid t r. (tid, t, r) \<in> set (handed s) \<Longrightarrow> 0 \<le> tid \<and> tid < int (length (tasks (coord s)))) \<Longrightarrow>
   (\<And>tid t r. (tid, t, r) \<in> set (handed s) \<Longrightarrow> t_Status (tasks (coord s) ! nat tid) = Idle \<Longrightarrow> mclock s - t > ten_seconds) \<Longrightarrow>
   (\<And>tid t r. (tid, t, r) \<in> set (handed s) \<Longrightarrow> t_Status (tasks (coord s) ! nat tid) = InProgress \<Longrightarrow>
      t \<le> t_StartTime (tasks (coord s) ! nat tid)) \<Longrightarrow> handed_ok s"
  by (auto simp: handed_ok_def)

lemma mr_inv_timeout:
  assumes inv: "mr_inv fs nr s"
  shows "mr_inv fs nr (s\<lparr>coord := checkTimeout (mclock s) (coord s)\<rparr>)"
proof -
  let ?c = "coord s" and ?c' = "checkTimeout (mclock s) (coord s)"
  have sh: "coord_shape fs nr ?c" using inv by (simp add: mr_inv_def)
  note keep = tasks_checkTimeout [of _ ?c "mclock s"]
  have "barrier fs (s\<lparr>coord := ?c'\<rparr>)"
    using inv shape_length [OF sh] by (auto simp: mr_inv_def barrier_def maps_done_def keep)
  moreover have "handed_ok (s\<lparr>coord := ?c'\<rparr>)"
    unfolding handed_ok_def
  proof (clarsimp, intro conjI impI)
    fix tid t r assume h: "(tid, t, r) \<in> set (handed s)"
    have "handed_ok s" using inv by (simp add: mr_inv_def)
    note ok = handed_okD [OF this h]
    have i: "nat tid < length (tasks ?c)" using ok by (simp add: nat_less_iff)
    show "0 \<le> tid" "tid < int (length (tasks ?c))" using ok by simp_all
    show "ten_seconds < mclock s - t" if "t_Status (tasks ?c' ! nat tid) = Idle"
      using that ok keep [OF i] by (auto split: if_splits)
    show "t \<le> t_StartTime (tasks ?c' ! nat tid)" if "t_Status (tasks ?c' ! nat tid) = InProgress"
      using that ok keep [OF i] by (auto split: if_splits)
  qed
  ultimately show ?thesis
    using inv coord_shape_checkTimeout [OF sh] by (simp add: mr_inv_def buckets_ok_def)
qed

text \<open>Giving out the idle task \<open>i\<close>.\<close>

definition hand_out :: "nat \<Rightarrow> GetTaskReply \<Rightarrow> mr_sys \<Rightarrow> mr_sys" where
  "hand_out i r s = s\<lparr>coord := start_task (mclock s) i (coord s), handed := (int i, mclock s, r) # handed s\<rparr>"

lemma tasks_start_task:
  "k < length (tasks c) \<Longrightarrow> tasks (start_task now i c) ! k =
     (if i = k then (tasks c ! k)\<lparr>t_Status := InProgress, t_StartTime := now\<rparr> else tasks c ! k)"
  by (simp add: start_task_def nth_update_if)

lemma start_task_fields [simp]:
  "length (tasks (start_task now i c)) = length (tasks c)" "files (start_task now i c) = files c"
  "reduceCount (start_task now i c) = reduceCount c"
  by (simp_all add: start_task_def)

lemma hand_out_ok:
  assumes ok: "handed_ok s" and i: "i < length (tasks (coord s))" "t_Status (tasks (coord s) ! i) = Idle"
  shows "handed_ok (hand_out i r s)" "gaps (handed s) \<Longrightarrow> gaps (handed (hand_out i r s))"
proof -
  have old: "t \<le> mclock s \<and> mclock s - t > ten_seconds" if "(int i, t, r') \<in> set (handed s)" for t r'
    using handed_okD [OF ok that] i by simp
  show "gaps (handed s) \<Longrightarrow> gaps (handed (hand_out i r s))" using old by (auto simp: hand_out_def)
  have entry: "0 \<le> tid \<and> tid < int (length (tasks (coord s))) \<and>
     (t_Status (tasks (start_task (mclock s) i (coord s)) ! nat tid) = Idle \<longrightarrow> mclock s - t > ten_seconds) \<and>
     (t_Status (tasks (start_task (mclock s) i (coord s)) ! nat tid) = InProgress \<longrightarrow>
        t \<le> t_StartTime (tasks (start_task (mclock s) i (coord s)) ! nat tid))"
    if h: "(tid, t, r') \<in> set (handed s)" for tid t r'
  proof -
    note old_ok = handed_okD [OF ok h]
    have k: "nat tid < length (tasks (coord s))" using old_ok by (simp add: nat_less_iff)
    show ?thesis
    proof (cases "i = nat tid")
      case True
      then have "tid = int i" using old_ok by simp
      then show ?thesis using old [of t r'] h old_ok i by (simp add: tasks_start_task)
    next
      case False
      then show ?thesis using old_ok k by (simp add: tasks_start_task)
    qed
  qed
  show "handed_ok (hand_out i r s)"
    using entry i by (auto simp: handed_ok_def hand_out_def tasks_start_task)
qed

lemma mr_inv_hand_map:
  assumes inv: "mr_inv fs nr s" and i: "i < length fs" "i < length (tasks (coord s))"
    "t_Status (tasks (coord s) ! i) = Idle"
  shows "mr_inv fs nr (hand_out i (map_reply (mclock s) i (coord s)) s)"
proof -
  have sh: "coord_shape fs nr (coord s)" and ok: "handed_ok s" and g: "gaps (handed s)"
    using inv by (simp_all add: mr_inv_def)
  have "\<not> maps_done fs (coord s)" using i by (auto simp: maps_done_def)
  then have "barrier fs (hand_out i r s)" for r
    using inv i by (auto simp: mr_inv_def barrier_def hand_out_def tasks_start_task)
  moreover have "coord_shape fs nr (start_task (mclock s) i (coord s))"
    using coord_shape_status [OF sh _ i(2)] by (simp add: start_task_def)
  moreover have "t_TaskType (tasks (coord s) ! i) = MapTask" "t_TaskId (tasks (coord s) ! i) = int i"
    "files (coord s) = fs"
    using sh i by (simp_all add: coord_shape_def task_shape_def)
  then have "buckets_ok (hand_out i (map_reply (mclock s) i (coord s)) s)"
    using inv i by (auto simp: mr_inv_def buckets_ok_def hand_out_def map_reply_def reduces_def)
  ultimately show ?thesis
    using inv hand_out_ok [OF ok i(2,3)] g by (simp add: mr_inv_def) (simp add: hand_out_def)
qed

lemma mr_inv_hand_reduce:
  assumes inv: "mr_inv fs nr s" and i: "maps_done fs (coord s)" "length fs \<le> i" "i < length (tasks (coord s))"
    "t_Status (tasks (coord s) ! i) = Idle"
  shows "mr_inv fs nr (s\<lparr>coord := (start_task (mclock s) i (coord s))\<lparr>reduceCount := reduceCount (coord s) + 1\<rparr>,
    handed := (int i, mclock s, reduce_reply (mclock s) i (coord s)) # handed s\<rparr>)" (is "mr_inv fs nr ?t")
proof -
  have sh: "coord_shape fs nr (coord s)" and ok: "handed_ok s" and g: "gaps (handed s)"
    using inv by (simp_all add: mr_inv_def)
  have "maps_done fs (coord ?t)"
    using i shape_length [OF sh] by (auto simp: maps_done_def  tasks_start_task)
  then have "barrier fs ?t" by (simp add: barrier_def)
  moreover have "coord_shape fs nr (start_task (mclock s) i (coord s))"
    using coord_shape_status [OF sh _ i(3)] by (simp add: start_task_def)
  then have "coord_shape fs nr (coord ?t)" by (simp add: coord_shape_def)
  moreover have "t_TaskType (tasks (coord s) ! i) = ReduceTask" "t_TaskId (tasks (coord s) ! i) = int i"
    "files (coord s) = fs"
    using sh i by (simp_all add: coord_shape_def task_shape_def)
  then have "buckets_ok ?t"
    using inv i by (auto simp: mr_inv_def buckets_ok_def  reduce_reply_def reduces_def)
  moreover have "handed_ok ?t" "gaps (handed ?t)"
    using hand_out_ok [OF ok i(3,4), of "reduce_reply (mclock s) i (coord s)"] g
    by (simp_all add: handed_ok_def hand_out_def)
  ultimately show ?thesis
    using inv by (simp add: mr_inv_def)
qed

lemma mr_inv_report:
  assumes inv: "mr_inv fs nr s" and tid: "tid \<in> fst ` set (handed s)" and rep: "ReportTask tid (coord s) = Inr c"
  shows "mr_inv fs nr (s\<lparr>coord := c\<rparr>)"
proof -
  have sh: "coord_shape fs nr (coord s)" and ok: "handed_ok s" using inv by (simp_all add: mr_inv_def)
  obtain t r where h: "(tid, t, r) \<in> set (handed s)" using tid by auto
  then have bound: "0 \<le> tid" "nat tid < length (tasks (coord s))"
    using handed_okD [OF ok h] by (auto simp: nat_less_iff)
  then have c: "c = (coord s)\<lparr>tasks := (tasks (coord s))[nat tid := (tasks (coord s) ! nat tid)\<lparr>t_Status := Completed\<rparr>]\<rparr>"
    using rep getTaskByTaskId_shape [OF sh, of tid] by (auto simp: ReportTask_def nat_less_iff)
  have "coord_shape fs nr c"
    using sh bound by (auto simp: c coord_shape_def task_shape_def nth_update_if)
  moreover have "maps_done fs (coord s) \<or> nat tid < length fs"
    using inv bound tid unfolding mr_inv_def barrier_def by (metis int_nat_eq not_le)
  then have "barrier fs (s\<lparr>coord := c\<rparr>)"
    using inv shape_length [OF sh] by (auto simp: mr_inv_def barrier_def maps_done_def c nth_update_if)
  moreover have "t_Status (tasks c ! k) \<noteq> Completed \<Longrightarrow> tasks c ! k = tasks (coord s) ! k" for k
    using bound by (cases "k = nat tid") (simp_all add: c)
  then have keep: "t_Status (tasks c ! k) = Idle \<Longrightarrow> tasks c ! k = tasks (coord s) ! k"
    "t_Status (tasks c ! k) = InProgress \<Longrightarrow> tasks c ! k = tasks (coord s) ! k" for k by simp_all
  have len: "length (tasks c) = length (tasks (coord s))" by (simp add: c)
  have "handed_ok (s\<lparr>coord := c\<rparr>)"
  proof (rule handed_okI)
    fix tid' t' r' assume "(tid', t', r') \<in> set (handed (s\<lparr>coord := c\<rparr>))"
    then have h': "(tid', t', r') \<in> set (handed s)" by simp
    note old = handed_okD [OF ok h']
    show "0 \<le> tid' \<and> tid' < int (length (tasks (coord (s\<lparr>coord := c\<rparr>))))" using old len by simp
    show "mclock (s\<lparr>coord := c\<rparr>) - t' > ten_seconds" if "t_Status (tasks (coord (s\<lparr>coord := c\<rparr>)) ! nat tid') = Idle"
      using that old keep(1) by simp
    show "t' \<le> t_StartTime (tasks (coord (s\<lparr>coord := c\<rparr>)) ! nat tid')"
      if "t_Status (tasks (coord (s\<lparr>coord := c\<rparr>)) ! nat tid') = InProgress"
      using that old keep(2) by simp
  qed
  ultimately show ?thesis using inv by (simp add: mr_inv_def buckets_ok_def) (simp add: c)
qed

lemma hand_out_simps:
  "is_work (map_reply now i c) \<longleftrightarrow> t_TaskType (tasks c ! i) = MapTask \<or> t_TaskType (tasks c ! i) = ReduceTask"
  "is_work (reduce_reply now i c) \<longleftrightarrow> t_TaskType (tasks c ! i) = MapTask \<or> t_TaskType (tasks c ! i) = ReduceTask"
  "t_TaskId (TaskInfo (map_reply now i c)) = t_TaskId (tasks c ! i)"
  "t_TaskId (TaskInfo (reduce_reply now i c)) = t_TaskId (tasks c ! i)"
  "\<not> is_work (GetTaskReply0\<lparr>TaskInfo := NewTask FinishedTask\<rparr>)"
  "\<not> is_work (GetTaskReply0\<lparr>TaskInfo := NewTask WaitTask\<rparr>)"
  by (simp_all add: is_work_def map_reply_def reduce_reply_def NewTask_def)

lemma mr_inv_time: "mr_inv fs nr s \<Longrightarrow> mclock s \<le> t \<Longrightarrow> mr_inv fs nr (s\<lparr>mclock := t\<rparr>)"
  by (fastforce simp: mr_inv_def barrier_def handed_ok_def buckets_ok_def)

lemma mr_inv_get:
  assumes inv: "mr_inv fs nr s" and t: "mclock s \<le> t" and get: "GetTask (mclock s) t (coord s) = Inr (c, r)"
  shows "mr_inv fs nr (s\<lparr>mclock := t, coord := c,
      handed := (if is_work r then (t_TaskId (TaskInfo r), t, r) # handed s else handed s)\<rparr>)"
proof -
  let ?c1 = "checkTimeout (mclock s) (coord s)"
  define s1 where "s1 = s\<lparr>mclock := t, coord := ?c1\<rparr>"
  have inv1: "mr_inv fs nr s1" using mr_inv_time [OF mr_inv_timeout [OF inv], of t] t by (cases s) (simp add: s1_def)
  have sh: "coord_shape fs nr (coord s)" and sh1: "coord_shape fs nr ?c1"
    using inv by (simp_all add: mr_inv_def coord_shape_checkTimeout)
  have id: "t_TaskId (tasks ?c1 ! i) = int i" if "i < length (tasks ?c1)" for i
    using sh1 that by (simp add: coord_shape_def task_shape_def)
  from sh show ?thesis
  proof (cases rule: GetTask_cases [where now = "mclock s" and started = t, case_names finished wait work_map work_reduce])
    case finished
    then show ?thesis using get inv1 by (simp add: hand_out_simps s1_def)
  next
    case wait
    then show ?thesis using get inv1 by (simp add: hand_out_simps s1_def)
  next
    case (work_map i)
    then have "c = start_task t i ?c1" "r = map_reply t i ?c1" using get by simp_all
    then show ?thesis
      using mr_inv_hand_map [OF inv1, of i] work_map shape_type [OF sh1, of i] id [of i]
      by (simp add: s1_def hand_out_def hand_out_simps)
  next
    case (work_reduce i)
    then have "c = (start_task t i ?c1)\<lparr>reduceCount := reduceCount ?c1 + 1\<rparr>"
      "r = reduce_reply t i ?c1" using get by simp_all
    then show ?thesis
      using mr_inv_hand_reduce [OF inv1, of i] work_reduce shape_type [OF sh1, of i] id [of i]
      by (simp add: s1_def hand_out_def hand_out_simps)
  qed
qed

lemma GetTask_returns: "coord_shape fs nr c \<Longrightarrow> \<exists>c' r. GetTask now started c = Inr (c', r)"
  by (rule GetTask_cases [of fs nr c now started]) blast+

lemma ReportTask_returns:
  "mr_inv fs nr s \<Longrightarrow> tid \<in> fst ` set (handed s) \<Longrightarrow> \<exists>c. ReportTask tid (coord s) = Inr c"
  using handed_okD [of s tid] getTaskByTaskId_shape [of fs nr "coord s" tid]
  by (auto simp: mr_inv_def ReportTask_def)

lemma mr_inv_step: "mr_step s t \<Longrightarrow> mr_inv fs nr s \<Longrightarrow> mr_inv fs nr t"
proof (induction rule: mr_step.induct)
  case (mr_time s t)
  then show ?case using mr_inv_time by blast
next
  case (mr_get s t c r)
  then show ?case using mr_inv_get by blast
next
  case (mr_get_fails s t p)
  then show ?case using GetTask_returns [of fs nr "coord s" "mclock s" t] by (auto simp: mr_inv_def)
next
  case (mr_report tid s c)
  then show ?case using mr_inv_report by blast
next
  case (mr_report_fails tid s p)
  then show ?case using ReportTask_returns [of fs nr s tid] by auto
qed

interpretation mr: invariant_system "mr_init fs nr" mr_step "mr_inv fs nr" for fs nr
  by unfold_locales (fact mr_inv_init mr_inv_step)+

section \<open>The job can always be finished\<close>

definition all_done :: "Coordinator \<Rightarrow> bool" where
  "all_done c \<longleftrightarrow> (\<forall>t\<in>set (tasks c). t_Status t = Completed)"

definition undone :: "Coordinator \<Rightarrow> nat set" where
  "undone c = {i. i < length (tasks c) \<and> t_Status (tasks c ! i) \<noteq> Completed}"

text \<open>Every task in progress has passed its deadline.\<close>

definition stale :: "mr_sys \<Rightarrow> bool" where
  "stale s \<longleftrightarrow> (\<forall>t\<in>set (tasks (coord s)). t_Status t = InProgress \<longrightarrow> mclock s - t_StartTime t > ten_seconds)"

lemma stale_timeout:
  "stale s \<Longrightarrow> i < length (tasks (coord s)) \<Longrightarrow>
     t_Status (tasks (checkTimeout (mclock s) (coord s)) ! i) \<noteq> InProgress"
  by (auto simp: stale_def tasks_checkTimeout)

lemma all_done_undone: "all_done c \<longleftrightarrow> undone c = {}"
  by (auto simp: all_done_def undone_def all_set_conv_all_nth)

lemma undone_timeout [simp]: "undone (checkTimeout now c) = undone c"
  by (auto simp: undone_def tasks_checkTimeout split: if_splits)

text \<open>From such a state, one call of \<open>GetTask\<close> and the report of the task it returns complete one more task.\<close>

lemma mr_round:
  assumes inv: "mr_inv fs nr s" and st: "stale s" and nd: "\<not> all_done (coord s)"
  shows "\<exists>t. mr_step\<^sup>*\<^sup>* s t \<and> stale t \<and> undone (coord t) \<subset> undone (coord s)"
proof -
  let ?c1 = "checkTimeout (mclock s) (coord s)"
  have sh: "coord_shape fs nr (coord s)" and ok: "\<not> mr_failed s" using inv by (simp_all add: mr_inv_def)
  have sh1: "coord_shape fs nr ?c1" using sh by (rule coord_shape_checkTimeout)
  obtain i c r where i: "i < length (tasks ?c1)" "t_Status (tasks ?c1 ! i) = Idle"
    and get: "GetTask (mclock s) (mclock s) (coord s) = Inr (c, r)" and c: "tasks c = tasks (start_task (mclock s) i ?c1)"
    and r: "is_work r" "t_TaskId (TaskInfo r) = int i"
  proof (cases rule: GetTask_cases [where now = "mclock s" and started = "mclock s", OF sh, case_names finished wait work_map work_reduce])
    case finished
    then have "undone ?c1 = {}" by (auto simp: undone_def)
    then show thesis using nd by (simp add: all_done_undone)
  next
    case wait
    then show thesis using stale_timeout [OF st] by auto
  next
    case (work_map i)
    then show thesis
      using that [of i] shape_type [OF sh1, of i] coord_shape_task [OF sh1, of i]
      by (simp add: hand_out_simps task_shape_def)
  next
    case (work_reduce i)
    then show thesis
      using that [of i] shape_type [OF sh1, of i] coord_shape_task [OF sh1, of i]
      by (simp add: hand_out_simps task_shape_def)
  qed
  define s1 where "s1 = s\<lparr>coord := c, handed := (int i, mclock s, r) # handed s\<rparr>"
  have step1: "mr_step s s1" using mr_get [OF order_refl get ok] r by (simp add: s1_def)
  have inv1: "mr_inv fs nr s1" using mr_inv_step [OF step1 inv] .
  have i1: "i < length (tasks c)" using i c by simp
  define d where "d = c\<lparr>tasks := (tasks c)[i := (tasks c ! i)\<lparr>t_Status := Completed\<rparr>]\<rparr>"
  have "ReportTask (int i) (coord s1) = Inr d"
    using getTaskByTaskId_shape [of fs nr c "int i"] inv1 i1
    by (simp add: mr_inv_def s1_def ReportTask_def d_def)
  then have step2: "mr_step s1 (s1\<lparr>coord := d\<rparr>)"
    using mr_report [of "int i" s1 d] ok by (simp add: s1_def)
  have tasks_d: "tasks d ! k = (if k = i then (tasks c ! i)\<lparr>t_Status := Completed\<rparr> else tasks ?c1 ! k)"
    if "k < length (tasks ?c1)" for k
    using that c i1 by (simp add: d_def nth_update_if tasks_start_task)
  have len: "length (tasks d) = length (tasks (coord s))" using c by (simp add: d_def)
  have "t_Status (tasks d ! k) \<noteq> InProgress" if "k < length (tasks d)" for k
    using tasks_d [of k] stale_timeout [OF st, of k] len that by simp
  then have "stale (s1\<lparr>coord := d\<rparr>)" by (auto simp: stale_def in_set_conv_nth)
  moreover have "k \<in> undone d \<longleftrightarrow> k \<in> undone ?c1 \<and> k \<noteq> i" for k
    using tasks_d [of k] len by (cases "k < length (tasks (coord s))"; cases "k = i") (simp_all add: undone_def)
  then have "undone d = undone (coord s) - {i}" by auto
  moreover have "i \<in> undone (coord s)"
    unfolding undone_timeout [of "mclock s" "coord s", symmetric] using i by (simp add: undone_def)
  moreover have "mr_step\<^sup>*\<^sup>* s (s1\<lparr>coord := d\<rparr>)" using step1 step2 by (rule rtranclp.rtrancl_into_rtrancl [OF r_into_rtranclp])
  ultimately show ?thesis by (intro exI [of _ "s1\<lparr>coord := d\<rparr>"]) auto
qed

lemma mr_rounds:
  "mr_inv fs nr s \<Longrightarrow> stale s \<Longrightarrow> \<exists>t. mr_step\<^sup>*\<^sup>* s t \<and> all_done (coord t)"
proof (induction "card (undone (coord s))" arbitrary: s rule: less_induct)
  case less
  show ?case
  proof (cases "all_done (coord s)")
    case False
    then obtain t where t: "mr_step\<^sup>*\<^sup>* s t" "stale t" "undone (coord t) \<subset> undone (coord s)"
      using mr_round less.prems by blast
    have "card (undone (coord t)) < card (undone (coord s))"
      using t(3) by (intro psubset_card_mono) (simp_all add: undone_def)
    then obtain u where "mr_step\<^sup>*\<^sup>* t u" "all_done (coord u)"
      using less.hyps mr.inv_steps [OF t(1) less.prems(1)] t(2) by blast
    then show ?thesis using t(1) by (meson rtranclp_trans)
  qed blast
qed

lemma become_stale: "\<exists>t. mr_step s t \<and> stale t \<and> coord t = coord s"
proof -
  define T where "T = Max (insert (mclock s) ((\<lambda>t. t_StartTime t + ten_seconds + 1) ` set (tasks (coord s))))"
  have "mclock s \<le> T" "\<And>t. t \<in> set (tasks (coord s)) \<Longrightarrow> t_StartTime t + ten_seconds + 1 \<le> T"
    by (auto simp: T_def)
  then have "mr_step s (s\<lparr>mclock := T\<rparr>)" "stale (s\<lparr>mclock := T\<rparr>)"
    using mr_time by (auto simp: stale_def) fastforce
  then show ?thesis by (intro exI [of _ "s\<lparr>mclock := T\<rparr>"]) simp
qed

section \<open>Scripted runs\<close>

datatype mr_act = MTime int | MGet | MReport TaskId

fun mr_exec :: "mr_act \<Rightarrow> mr_sys \<Rightarrow> mr_sys option" where
  "mr_exec (MTime t) s = (if mclock s \<le> t then Some (s\<lparr>mclock := t\<rparr>) else None)"
| "mr_exec MGet s = (case GetTask (mclock s) (mclock s) (coord s) of
      Inl p \<Rightarrow> None
    | Inr (c, r) \<Rightarrow> if mr_failed s then None else Some (s\<lparr>coord := c,
        handed := (if is_work r then (t_TaskId (TaskInfo r), mclock s, r) # handed s else handed s)\<rparr>))"
| "mr_exec (MReport tid) s = (if tid \<in> fst ` set (handed s) \<and> \<not> mr_failed s
     then case ReportTask tid (coord s) of Inl p \<Rightarrow> None | Inr c \<Rightarrow> Some (s\<lparr>coord := c\<rparr>)
     else None)"

fun mr_run :: "mr_act list \<Rightarrow> mr_sys \<Rightarrow> mr_sys option" where
  "mr_run [] s = Some s"
| "mr_run (a # as) s = (case mr_exec a s of None \<Rightarrow> None | Some t \<Rightarrow> mr_run as t)"

lemma mr_exec_step:
  assumes "mr_exec a s = Some t"
  shows "mr_step s t"
proof (cases a)
  case MGet
  then show ?thesis
    using assms mr_get [of s "mclock s"] by (auto split: sum.split_asm prod.split_asm if_split_asm split del: if_split)
qed (use assms in \<open>auto split: if_splits sum.splits intro: mr_step.intros\<close>)

lemma mr_run_reachable:
  "mr_run as s = Some t \<Longrightarrow> reachable init mr_step s \<Longrightarrow> reachable init mr_step t"
  by (induction as arbitrary: s) (auto split: option.splits dest!: mr_exec_step intro: reach_step)

lemmas mr_run_init = mr_run_reachable [OF _ reach_init]

lemmas mr_eval = mr_init_def MakeCoordinator_def map_tasks_def reduce_tasks_def NewTask_def GetTask_def
  checkTimeout_def getMapTask_def getReduceTask_def start_task_def GetTaskReply0_def is_work_def
  ReportTask_def getTaskByTaskId_def zero_time_def

text \<open>
  One input file and one reduce task: the map task is done, the reduce task is given out at
  time 0, and again after eleven seconds because its worker has not reported.
\<close>

definition reassign_script :: "mr_act list" where
  "reassign_script = [MGet, MReport 0, MGet, MTime 11000000000, MGet]"

lemma reassign_run:
  "\<exists>s r r'. mr_run reassign_script (mr_init [''f''] 1) = Some s \<and>
     handed s = [(1, 11000000000, r')] @ (1, 0, r) # [(0, 0, map_reply 0 0 (MakeCoordinator [''f''] 1))] \<and>
     t_TaskType (TaskInfo r) = ReduceTask \<and> t_TaskType (TaskInfo r') = ReduceTask \<and>
     BucketNum r = 0 \<and> BucketNum r' = 1 \<and> t_NReduce (TaskInfo r') = 1"
  by (simp add: reassign_script_def mr_eval map_reply_def)

section \<open>Properties\<close>

text \<open>
  C20: no handler fails, and the map phase is a barrier. In every run in which workers report only tasks that they were given, no call of
  \<open>GetTask\<close> and of \<open>ReportTask\<close> panics or ends the process; if a reduce task has ever been given to a worker then every map task is completed.
  The \<open>log.Fatalf\<close> of \<open>ReportTask\<close> is reached exactly by a report of an identifier that no task has, which no worker makes.
\<close>

theorem reduce_after_all_maps:
  assumes "reachable (mr_init fs nr) mr_step s"
  shows "\<not> mr_failed s \<and> (\<exists>c r. GetTask now started (coord s) = Inr (c, r)) \<and>
     (\<forall>tid. ReportTask tid (coord s) = Inl LogFatal \<longleftrightarrow> tid < 0 \<or> tid \<ge> int (length fs + nat nr)) \<and>
     (\<forall>(tid, t, r)\<in>set (handed s). (\<exists>c. ReportTask tid (coord s) = Inr c) \<and>
        (t_TaskType (TaskInfo r) = ReduceTask \<longrightarrow> (\<forall>i<length fs. t_Status (tasks (coord s) ! i) = Completed)))"
proof -
  have inv: "mr_inv fs nr s" by (rule mr.inv_reachable [OF assms(1)])
  have sh: "coord_shape fs nr (coord s)" using inv by (simp add: mr_inv_def)
  have "\<forall>tid. ReportTask tid (coord s) = Inl LogFatal \<longleftrightarrow> tid < 0 \<or> tid \<ge> int (length fs + nat nr)"
    using getTaskByTaskId_shape [OF sh] sh by (auto simp: ReportTask_def coord_shape_def)
  moreover have "\<exists>c. ReportTask tid (coord s) = Inr c" if "(tid, t, r) \<in> set (handed s)" for tid t r
    using ReportTask_returns [OF inv] that by force
  moreover have "\<forall>i<length fs. t_Status (tasks (coord s) ! i) = Completed"
    if h: "(tid, t, r) \<in> set (handed s)" "t_TaskType (TaskInfo r) = ReduceTask" for tid t r
  proof -
    obtain i where i: "tid = int i" "length fs \<le> i" "i < length (tasks (coord s))"
      using mr_inv_handed [OF inv h(1)] h(2) by (metis nat_less_iff nat_0_le of_nat_le_iff)
    have "int i \<in> fst ` set (handed s)" using h(1) i(1) by (force simp: image_iff)
    then have "maps_done fs (coord s)" using inv i unfolding mr_inv_def barrier_def by blast
    then show ?thesis by (simp add: maps_done_def)
  qed
  ultimately show ?thesis using inv GetTask_returns [OF sh] by (auto simp: mr_inv_def)
qed

theorem reduce_after_all_maps_witness:
  "\<exists>s. reachable (mr_init [''f''] 1) mr_step s \<and> length (handed s) = 3 \<and>
       t_Status (tasks (coord s) ! 0) = Completed"
proof -
  obtain s r r' where run: "mr_run reassign_script (mr_init [''f''] 1) = Some s"
    and h: "handed s = [(1, 11000000000, r')] @ (1, 0, r) # [(0, 0, map_reply 0 0 (MakeCoordinator [''f''] 1))]"
    and r: "t_TaskType (TaskInfo r) = ReduceTask" "BucketNum r' = 1"
    using reassign_run by blast
  note reach = mr_run_init [OF run]
  have "(1, 0, r) \<in> set (handed s)" using h by simp
  then have "t_Status (tasks (coord s) ! 0) = Completed" using reduce_after_all_maps [OF reach] r(1) by fastforce
  then show ?thesis using reach h by auto
qed

text \<open>
  C21: no task is given out twice within ten seconds. Of two assignments of the same task, the later
  one happened more than ten seconds after the earlier one.
\<close>

theorem no_early_reassignment:
  assumes "reachable (mr_init fs nr) mr_step s" "handed s = later @ (tid, t, r) # earlier"
    "(tid, t', r') \<in> set earlier"
  shows "t - t' > ten_seconds"
proof -
  have "gaps (later @ (tid, t, r) # earlier)"
    using mr.inv_reachable [OF assms(1)] assms(2) by (simp add: mr_inv_def)
  then have "gaps ((tid, t, r) # earlier)" by (induction later) auto
  then show ?thesis using assms(3) by auto
qed

theorem no_early_reassignment_witness:
  "\<exists>s r r' rest. reachable (mr_init [''f''] 1) mr_step s \<and> handed s = (1, 11000000000, r') # (1, 0, r) # rest \<and>
     (11000000000 :: int) - 0 > ten_seconds"
proof -
  obtain s r r' where run: "mr_run reassign_script (mr_init [''f''] 1) = Some s"
    and h: "handed s = [(1, 11000000000, r')] @ (1, 0, r) # [(0, 0, map_reply 0 0 (MakeCoordinator [''f''] 1))]"
    and r: "t_TaskType (TaskInfo r) = ReduceTask" "BucketNum r' = 1"
    using reassign_run by blast
  note reach = mr_run_init [OF run]
  have "handed s = [] @ (1, 11000000000, r') # [(1, 0, r), (0, 0, map_reply 0 0 (MakeCoordinator [''f''] 1))]"
    using h by simp
  from no_early_reassignment [OF reach this, of 0 r] show ?thesis using reach h by auto
qed

text \<open>
  Workers are told to finish exactly when everything is completed. In every reachable state
  \<open>GetTask\<close> returns, and the reply is \<open>FinishedTask\<close> if and only if every map and reduce task is
  completed.
\<close>

theorem finished_iff_all_completed:
  assumes "reachable (mr_init fs nr) mr_step s"
  shows "\<exists>c r. GetTask (mclock s) t (coord s) = Inr (c, r) \<and>
     (t_TaskType (TaskInfo r) = FinishedTask \<longleftrightarrow> (\<forall>u\<in>set (tasks (coord s)). t_Status u = Completed))"
proof -
  have sh: "coord_shape fs nr (coord s)" using mr.inv_reachable [OF assms] by (simp add: mr_inv_def)
  let ?c1 = "checkTimeout (mclock s) (coord s)"
  have sh1: "coord_shape fs nr ?c1" using sh by (rule coord_shape_checkTimeout)
  have ad: "all_done (coord s) \<longleftrightarrow> undone ?c1 = {}" by (simp add: all_done_undone)
  show ?thesis
    unfolding all_done_def [symmetric] ad
  proof (cases rule: GetTask_cases [where now = "mclock s" and started = t, OF sh, case_names finished wait work_map work_reduce])
    case finished
    then show "\<exists>c r. GetTask (mclock s) t (coord s) = Inr (c, r) \<and>
        (t_TaskType (TaskInfo r) = FinishedTask) = (undone ?c1 = {})"
      by (auto simp: undone_def NewTask_def)
  next
    case wait
    then show "\<exists>c r. GetTask (mclock s) t (coord s) = Inr (c, r) \<and>
        (t_TaskType (TaskInfo r) = FinishedTask) = (undone ?c1 = {})"
      by (auto simp: undone_def NewTask_def)
  next
    case (work_map i)
    then show "\<exists>c r. GetTask (mclock s) t (coord s) = Inr (c, r) \<and>
        (t_TaskType (TaskInfo r) = FinishedTask) = (undone ?c1 = {})"
      using shape_type [OF sh1, of i] by (auto simp: undone_def map_reply_def)
  next
    case (work_reduce i)
    then show "\<exists>c r. GetTask (mclock s) t (coord s) = Inr (c, r) \<and>
        (t_TaskType (TaskInfo r) = FinishedTask) = (undone ?c1 = {})"
      using shape_type [OF sh1, of i] by (auto simp: undone_def reduce_reply_def)
  qed
qed

theorem finished_iff_all_completed_witness:
  "\<exists>c r. GetTask 0 7 (coord (mr_init [''f''] 1)) = Inr (c, r) \<and> t_TaskType (TaskInfo r) \<noteq> FinishedTask"
proof -
  have "\<not> (\<forall>t\<in>set (tasks (coord (mr_init [''f''] 1))). t_Status t = Completed)" "mclock (mr_init [''f''] 1) = 0"
    by (simp_all add: mr_eval)
  with finished_iff_all_completed [OF reach_init, of "[''f'']" 1 7] show ?thesis by auto
qed

text \<open>
  C22: the job can always be finished. From every reachable state, whatever workers have crashed
  with tasks in hand, some continuation completes every task.
\<close>

theorem job_can_finish:
  assumes "reachable (mr_init fs nr) mr_step s"
  shows "\<exists>t. mr_step\<^sup>*\<^sup>* s t \<and> (\<forall>u\<in>set (tasks (coord t)). t_Status u = Completed)"
proof -
  obtain s1 where s1: "mr_step s s1" "stale s1" using become_stale by blast
  have "mr_inv fs nr s1" using mr_inv_step [OF s1(1) mr.inv_reachable [OF assms]] .
  from mr_rounds [OF this s1(2)] obtain t where "mr_step\<^sup>*\<^sup>* s1 t" "all_done (coord t)" by blast
  then show ?thesis using s1(1) by (auto simp: all_done_def intro: converse_rtranclp_into_rtranclp)
qed

theorem job_can_finish_witness:
  "\<exists>s t. length (handed s) = 3 \<and> mr_step\<^sup>*\<^sup>* s t \<and> (\<forall>u\<in>set (tasks (coord t)). t_Status u = Completed)"
proof -
  obtain s r r' where run: "mr_run reassign_script (mr_init [''f''] 1) = Some s"
    and h: "handed s = [(1, 11000000000, r')] @ (1, 0, r) # [(0, 0, map_reply 0 0 (MakeCoordinator [''f''] 1))]"
    and r: "t_TaskType (TaskInfo r) = ReduceTask" "BucketNum r' = 1"
    using reassign_run by blast
  note reach = mr_run_init [OF run]
  have "length (handed s) = 3" using h by simp
  with job_can_finish [OF reach] show ?thesis by blast
qed

text \<open>
  The bucket number of a reduce task is not its own. Bucket numbers are given out in the order
  of the assignments, all different, and stay below the number of reduce tasks as long as no reduce
  task is given out twice.
\<close>

theorem bucket_numbers:
  assumes "reachable (mr_init fs nr) mr_step s"
  shows "map BucketNum (rev (reduces (handed s))) = map int [0..<length (reduces (handed s))] \<and>
     (distinct (map fst (handed s)) \<longrightarrow> (\<forall>r\<in>set (reduces (handed s)). BucketNum r < nr))"
proof -
  have inv: "mr_inv fs nr s" by (rule mr.inv_reachable [OF assms])
  let ?n = "length (reduces (handed s))"
  have b: "map BucketNum (rev (reduces (handed s))) = map int [0..<?n]"
    using inv by (simp add: mr_inv_def buckets_ok_def)
  have "BucketNum r < nr" if d: "distinct (map fst (handed s))" and r: "r \<in> set (reduces (handed s))" for r
  proof -
    have ids: "map (\<lambda>r. t_TaskId (TaskInfo r)) (reduces (handed s)) =
        map fst (filter (\<lambda>(tid, t, r). t_TaskType (TaskInfo r) = ReduceTask) (handed s))"
      using mr_inv_handed [OF inv]
      by (auto simp: reduces_def filter_map comp_def case_prod_unfold)
    let ?ids = "map (\<lambda>r. t_TaskId (TaskInfo r)) (reduces (handed s))"
      and ?all = "{int (length fs)..<int (length (tasks (coord s)))}"
    have "distinct ?ids" unfolding ids using d by (metis distinct_map_filter)
    then have "?n = card (set ?ids)" by (metis distinct_card length_map)
    also have "set ?ids \<subseteq> ?all" unfolding ids using mr_inv_handed [OF inv] by fastforce
    then have "card (set ?ids) \<le> card ?all" by (intro card_mono) simp_all
    also have "card ?all = length (tasks (coord s)) - length fs" by simp
    also have "\<dots> = nat nr" using inv by (simp add: mr_inv_def coord_shape_def)
    finally have "?n \<le> nat nr" .
    moreover have "BucketNum r \<in> set (map int [0..<?n])"
      unfolding b [symmetric] using r by simp
    ultimately show ?thesis by auto
  qed
  then show ?thesis using b by blast
qed

theorem bucket_numbers_witness:
  "\<exists>s. reachable (mr_init [''f''] 1) mr_step s \<and> map BucketNum (rev (reduces (handed s))) = map int [0..<2]"
proof -
  obtain s r r' where run: "mr_run reassign_script (mr_init [''f''] 1) = Some s"
    and h: "handed s = [(1, 11000000000, r')] @ (1, 0, r) # [(0, 0, map_reply 0 0 (MakeCoordinator [''f''] 1))]"
    and r: "t_TaskType (TaskInfo r) = ReduceTask" "BucketNum r' = 1"
    using reassign_run by blast
  note reach = mr_run_init [OF run]
  have "length (reduces (handed s)) = 2"
    using reassign_run run by (auto simp: reduces_def map_reply_def mr_eval)
  then show ?thesis using bucket_numbers [OF reach] reach by metis
qed

text \<open>
  After a timeout a reduce worker is sent to a bucket that does not exist. In a job with one
  reduce task, a task given out a second time carries bucket number 1, while the only bucket the map
  workers write is number 0.
\<close>

theorem reassigned_reduce_wrong_bucket:
  "\<exists>s r. reachable (mr_init [''f''] 1) mr_step s \<and> (1, 11000000000, r) \<in> set (handed s) \<and>
     t_TaskType (TaskInfo r) = ReduceTask \<and> BucketNum r = t_NReduce (TaskInfo r)"
proof -
  obtain s r' where "mr_run reassign_script (mr_init [''f''] 1) = Some s" "(1, 11000000000, r') \<in> set (handed s)"
    "t_TaskType (TaskInfo r') = ReduceTask" "BucketNum r' = 1" "t_NReduce (TaskInfo r') = 1"
    using reassign_run by fastforce
  then show ?thesis using mr_run_init by fastforce
qed

end
