(* ===== verification/Go_Lib.thy ===== *)
theory Go_Lib
  imports Prelude "HOL-Library.List_Lexorder" "HOL-Library.Char_ord"
begin

text \<open>
  The functions of Go's standard library on strings and hashes that several components call. A
  character stands for a byte where the sources hash or compare strings, and for a rune where they
  split text into words. Go compares strings bytewise in lexicographic order, which is the order of
  \<open>List_Lexorder\<close> over \<open>Char_ord\<close>.
\<close>

text \<open>\<open>[]byte(s)\<close> and the 32-bit FNV-1a hash \<open>fnv.New32a\<close>.\<close>

definition string_bytes :: "string \<Rightarrow> uint8 list" where
  "string_bytes = map (\<lambda>c. word_of_nat (of_char c))"

definition fnv32a :: "uint8 list \<Rightarrow> uint32" where
  "fnv32a = foldl (\<lambda>h b. (xor h (ucast b)) * 16777619) 2166136261"

text \<open>\<open>strconv.Itoa\<close>, also \<open>%d\<close>.\<close>

fun nat_digits :: "nat \<Rightarrow> string" where
  "nat_digits n = (if n < 10 then [char_of (48 + n)] else nat_digits (n div 10) @ [char_of (48 + n mod 10)])"

declare nat_digits.simps [simp del]

definition itoa :: "int \<Rightarrow> string" where
  "itoa i = (if i < 0 then CHR ''-'' # nat_digits (nat (- i)) else nat_digits (nat i))"

text \<open>\<open>strings.Join\<close>, \<open>strings.HasPrefix\<close>, \<open>strings.Contains\<close>, \<open>strings.LastIndex\<close> (of one character).\<close>

fun strings_join :: "string \<Rightarrow> string list \<Rightarrow> string" where
  "strings_join sep [] = []"
| "strings_join sep [x] = x"
| "strings_join sep (x # xs) = x @ sep @ strings_join sep xs"

definition has_prefix :: "string \<Rightarrow> string \<Rightarrow> bool" where
  "has_prefix s p \<longleftrightarrow> take (length p) s = p"

fun strings_contains :: "string \<Rightarrow> string \<Rightarrow> bool" where
  "strings_contains [] p \<longleftrightarrow> p = []"
| "strings_contains (c # s) p \<longleftrightarrow> has_prefix (c # s) p \<or> strings_contains s p"

fun last_index_from :: "nat \<Rightarrow> int \<Rightarrow> string \<Rightarrow> char \<Rightarrow> int" where
  "last_index_from i r [] c = r"
| "last_index_from i r (d # s) c = last_index_from (Suc i) (if d = c then int i else r) s c"

definition last_index :: "string \<Rightarrow> char \<Rightarrow> int" where
  "last_index s c = last_index_from 0 (-1) s c"

text \<open>\<open>strings.FieldsFunc\<close>: the maximal runs of characters that are not separators.\<close>

function fields_func :: "(char \<Rightarrow> bool) \<Rightarrow> string \<Rightarrow> string list" where
  "fields_func f [] = []"
| "fields_func f (c # cs) =
     (if f c then fields_func f cs
      else (c # takeWhile (\<lambda>x. \<not> f x) cs) # fields_func f (dropWhile (\<lambda>x. \<not> f x) cs))"
  by pat_completeness auto
termination
  by (relation "measure (\<lambda>(f, s). length s)") (auto simp: le_imp_less_Suc length_dropWhile_le)

text \<open>\<open>sort.Strings\<close> returns the sorted strings; equal strings cannot be told apart.\<close>

definition sort_strings :: "string list \<Rightarrow> string list" where
  "sort_strings = sort"

lemma itoa_eq_nat: "itoa (int n) = nat_digits n"
  by (simp add: itoa_def)

text \<open>Decimal numerals can be read back, so different numbers have different numerals.\<close>

definition read_digits :: "string \<Rightarrow> nat" where
  "read_digits = foldl (\<lambda>v c. 10 * v + (of_char c - 48)) 0"

lemma of_char_digit: "d < 10 \<Longrightarrow> (of_char (char_of (48 + d :: nat)) :: nat) = 48 + d"
  by (simp add: take_bit_nat_eq_self)

lemma read_nat_digits: "read_digits (nat_digits n) = n"
proof (induction n rule: nat_digits.induct)
  case (1 n)
  show ?case
  proof (cases "n < 10")
    case True
    then have "nat_digits n = [char_of (48 + n)]" by (subst nat_digits.simps) (rule if_P)
    then show ?thesis using True by (simp add: read_digits_def of_char_digit del: of_char_of)
  next
    case False
    then have "nat_digits n = nat_digits (n div 10) @ [char_of (48 + n mod 10)]"
      by (subst nat_digits.simps) (rule if_not_P)
    then show ?thesis using 1 [OF False] by (simp add: read_digits_def of_char_digit del: of_char_of)
  qed
qed

lemma itoa_nat_inject: "itoa (int m) = itoa (int n) \<longleftrightarrow> m = n"
  by (metis itoa_eq_nat read_nat_digits)

lemma last_index_from_range:
  "last_index_from i r s c = r \<or> (int i \<le> last_index_from i r s c \<and> last_index_from i r s c < int (i + length s))"
  by (induction i r s c rule: last_index_from.induct) (auto split: if_splits)

lemma last_index_from_none: "c \<notin> set s \<Longrightarrow> last_index_from i r s c = r"
  by (induction i r s c rule: last_index_from.induct) auto

lemma last_index_from_split:
  "c \<notin> set b \<Longrightarrow> last_index_from i r (a @ c # b) c = int (i + length a)"
  by (induction a arbitrary: i r) (auto simp: last_index_from_none)

lemma last_index_none: "c \<notin> set s \<Longrightarrow> last_index s c = -1"
  by (simp add: last_index_def last_index_from_none)

lemma last_index_split: "c \<notin> set b \<Longrightarrow> last_index (a @ c # b) c = int (length a)"
  by (simp add: last_index_def last_index_from_split)

text \<open>Splitting never yields an empty word, and yields only characters that are not separators.\<close>

lemma fields_func_words: "w \<in> set (fields_func f s) \<Longrightarrow> w \<noteq> [] \<and> (\<forall>c\<in>set w. \<not> f c)"
proof (induction f s rule: fields_func.induct)
  case (2 f c cs)
  show ?case
  proof (cases "f c")
    case True
    then have "w \<in> set (fields_func f cs)" using "2.prems" by simp
    then show ?thesis using "2.IH"(1) [OF True] by blast
  next
    case False
    then consider "w = c # takeWhile (\<lambda>x. \<not> f x) cs" | "w \<in> set (fields_func f (dropWhile (\<lambda>x. \<not> f x) cs))"
      using "2.prems" by auto
    then show ?thesis
    proof cases
      case 1
      then show ?thesis using False set_takeWhileD [of _ "\<lambda>x. \<not> f x" cs] by simp
    next
      case 2
      then show ?thesis using "2.IH"(2) [OF False] by blast
    qed
  qed
qed simp

lemma concat_fields_func: "concat (fields_func f s) = filter (\<lambda>c. \<not> f c) s"
proof (induction f s rule: fields_func.induct)
  case (2 f c cs)
  have "filter (\<lambda>x. \<not> f x) cs =
      takeWhile (\<lambda>x. \<not> f x) cs @ filter (\<lambda>x. \<not> f x) (dropWhile (\<lambda>x. \<not> f x) cs)"
    by (induction cs) auto
  then show ?case using 2 by auto
qed simp

end
