(* ===== verification/Mr_Apps.thy ===== *)
theory Mr_Apps
  imports Go_Lib
begin

text \<open>
  The MapReduce applications of \<open>mrapps/\<close> and the key/value pairs of \<open>mr/worker.go\<close> they produce.
  \<open>isLetter\<close> is \<open>unicode.IsLetter\<close>. Where an application draws a random number, exits or sleeps, the
  number is an argument, exit is \<open>None\<close> and sleeping is skipped. \<open>ord\<close> is the order in which a Go map
  is traversed.
\<close>

record KeyValue =
  kv_Key :: string
  kv_Value :: string

definition KV :: "string \<Rightarrow> string \<Rightarrow> KeyValue" where
  "KV k v = \<lparr>kv_Key = k, kv_Value = v\<rparr>"

lemma KV_simps [simp]: "kv_Key (KV k v) = k" "kv_Value (KV k v) = v"
  by (simp_all add: KV_def)

section \<open>Word count\<close>

definition wc_Map :: "(char \<Rightarrow> bool) \<Rightarrow> string \<Rightarrow> string \<Rightarrow> KeyValue list" where
  "wc_Map isLetter filename contents =
     (let words = fields_func (\<lambda>r. \<not> isLetter r) contents in map (\<lambda>w. KV w ''1'') words)"

definition wc_Reduce :: "string \<Rightarrow> string list \<Rightarrow> string" where
  "wc_Reduce key values = itoa (int (length values))"

section \<open>Indexer\<close>

definition indexer_Map :: "(string list \<Rightarrow> string list) \<Rightarrow> (char \<Rightarrow> bool) \<Rightarrow> string \<Rightarrow> string \<Rightarrow> KeyValue list" where
  "indexer_Map ord isLetter document value =
     (let words = fields_func (\<lambda>x. \<not> isLetter x) value
      in map (\<lambda>w. KV w document) (ord (remdups words)))"

definition indexer_Reduce :: "string \<Rightarrow> string list \<Rightarrow> string" where
  "indexer_Reduce key values =
     (let values = sort_strings values in itoa (int (length values)) @ '' '' @ strings_join '','' values)"

section \<open>Crash tests\<close>

text \<open>\<open>crash.go\<close> exits if a random number below 1000 is below 330; \<open>nocrash.go\<close> never does.\<close>

definition crash_maybeCrash :: "int \<Rightarrow> unit option" where
  "crash_maybeCrash rr = (if rr < 330 then None else Some ())"

definition nocrash_maybeCrash :: "int \<Rightarrow> unit option" where
  "nocrash_maybeCrash rr = (if False \<and> rr < 500 then None else Some ())"

definition crash_pairs :: "string \<Rightarrow> string \<Rightarrow> KeyValue list" where
  "crash_pairs filename contents =
     [KV ''a'' filename, KV ''b'' (itoa (int (length filename))),
      KV ''c'' (itoa (int (length contents))), KV ''d'' ''xyzzy'']"

definition crash_Map :: "int \<Rightarrow> string \<Rightarrow> string \<Rightarrow> KeyValue list option" where
  "crash_Map rr filename contents =
     (case crash_maybeCrash rr of None \<Rightarrow> None | Some _ \<Rightarrow> Some (crash_pairs filename contents))"

definition nocrash_Map :: "int \<Rightarrow> string \<Rightarrow> string \<Rightarrow> KeyValue list option" where
  "nocrash_Map rr filename contents =
     (case nocrash_maybeCrash rr of None \<Rightarrow> None | Some _ \<Rightarrow> Some (crash_pairs filename contents))"

definition crash_Reduce :: "int \<Rightarrow> string \<Rightarrow> string list \<Rightarrow> string option" where
  "crash_Reduce rr key values =
     (case crash_maybeCrash rr of None \<Rightarrow> None | Some _ \<Rightarrow> Some (strings_join '' '' (sort_strings values)))"

definition nocrash_Reduce :: "int \<Rightarrow> string \<Rightarrow> string list \<Rightarrow> string option" where
  "nocrash_Reduce rr key values =
     (case nocrash_maybeCrash rr of None \<Rightarrow> None | Some _ \<Rightarrow> Some (strings_join '' '' (sort_strings values)))"

section \<open>Timing tests\<close>

definition early_exit_Map :: "string \<Rightarrow> string \<Rightarrow> KeyValue list" where
  "early_exit_Map filename contents = [KV filename ''1'']"

definition early_exit_sleeps :: "string \<Rightarrow> bool" where
  "early_exit_sleeps key \<longleftrightarrow> strings_contains key ''sherlock'' \<or> strings_contains key ''tom''"

definition early_exit_Reduce :: "string \<Rightarrow> string list \<Rightarrow> string" where
  "early_exit_Reduce key values = itoa (int (length values))"

definition rtiming_Map :: "string \<Rightarrow> string \<Rightarrow> KeyValue list" where
  "rtiming_Map filename contents =
     map (\<lambda>k. KV k ''1'') [''a'', ''b'', ''c'', ''d'', ''e'', ''f'', ''g'', ''h'', ''i'', ''j'']"

text \<open>
  \<open>nparallel\<close> creates a file with the worker's name, counts the files of live workers of the same phase
  and removes its file again. \<open>scan\<close> is \<open>fmt.Sscanf\<close> with the pattern of the phase, \<open>alive\<close> is the
  signal test; the directory is a list of names, and creating, opening and removing succeed.
\<close>

definition worker_file :: "string \<Rightarrow> int \<Rightarrow> string" where
  "worker_file phase pid = ''mr-worker-'' @ phase @ ''-'' @ itoa pid"

definition nparallel ::
  "(string \<Rightarrow> string \<Rightarrow> int option) \<Rightarrow> (int \<Rightarrow> bool) \<Rightarrow> string \<Rightarrow> int \<Rightarrow> string list \<Rightarrow> string list \<times> int" where
  "nparallel scan alive phase pid dir =
     (let my = worker_file phase pid;
          dir = (if my \<in> set dir then dir else dir @ [my]);
          ret = foldl (\<lambda>ret name. case scan phase name of
                    None \<Rightarrow> ret
                  | Some xpid \<Rightarrow> if alive xpid then ret + 1 else ret) 0 dir
      in (filter (\<lambda>n. n \<noteq> my) dir, ret))"

definition rtiming_Reduce ::
  "(string \<Rightarrow> string \<Rightarrow> int option) \<Rightarrow> (int \<Rightarrow> bool) \<Rightarrow> int \<Rightarrow> string list \<Rightarrow> string \<Rightarrow> string list \<Rightarrow> string list \<times> string" where
  "rtiming_Reduce scan alive pid dir key values =
     (case nparallel scan alive ''reduce'' pid dir of (dir', n) \<Rightarrow> (dir', itoa n))"

text \<open>\<open>mtiming.go\<close> has its own copy of the function. \<open>ts\<close> is the text of the time at which \<open>Map\<close> was called.\<close>

definition mtiming_nparallel ::
  "(string \<Rightarrow> string \<Rightarrow> int option) \<Rightarrow> (int \<Rightarrow> bool) \<Rightarrow> string \<Rightarrow> int \<Rightarrow> string list \<Rightarrow> string list \<times> int" where
  "mtiming_nparallel = nparallel"

definition mtiming_Map ::
  "(string \<Rightarrow> string \<Rightarrow> int option) \<Rightarrow> (int \<Rightarrow> bool) \<Rightarrow> int \<Rightarrow> string \<Rightarrow> string list \<Rightarrow> string \<Rightarrow> string \<Rightarrow> string list \<times> KeyValue list" where
  "mtiming_Map scan alive pid ts dir filename contents =
     (case mtiming_nparallel scan alive ''map'' pid dir of (dir', n) \<Rightarrow>
        (dir', [KV (''times-'' @ itoa pid) ts, KV (''parallel-'' @ itoa pid) (itoa n)]))"

definition mtiming_Reduce :: "string \<Rightarrow> string list \<Rightarrow> string" where
  "mtiming_Reduce key values = strings_join '' '' (sort_strings values)"

section \<open>Counting jobs\<close>

text \<open>\<open>Map\<close> writes one file per call, \<open>Reduce\<close> counts these files; \<open>cnt\<close> is the package variable.\<close>

definition jobcount_Map :: "int \<Rightarrow> int \<Rightarrow> string list \<Rightarrow> string \<Rightarrow> string \<Rightarrow> int \<times> string list \<times> KeyValue list" where
  "jobcount_Map pid cnt dir filename contents =
     (let f = ''mr-worker-jobcount-'' @ itoa pid @ ''-'' @ itoa cnt
      in (cnt + 1, if f \<in> set dir then dir else dir @ [f], [KV ''a'' ''x'']))"

definition jobcount_Reduce :: "string list \<Rightarrow> string \<Rightarrow> string list \<Rightarrow> string" where
  "jobcount_Reduce dir key values =
     itoa (foldl (\<lambda>n f. if has_prefix f ''mr-worker-jobcount'' then n + 1 else n) 0 dir)"

end
