(* ===== verification/Mr_Sequential.thy ===== *)
theory Mr_Sequential
  imports Mr_Apps
begin

text \<open>
  \<open>main/mrsequential.go\<close>: the sequential MapReduce that defines what a job should output. It maps every
  input file, sorts all pairs by key, calls the reduce function once per run of equal keys and prints one line
  per call. \<open>sort.Sort\<close> is not stable, so the sorting function is a parameter of which only the
  documented contract is used.
\<close>

section \<open>Sorting by key\<close>

locale key_sort =
  fixes srt :: "KeyValue list \<Rightarrow> KeyValue list"
  assumes srt_mset: "mset (srt kvs) = mset kvs"
    and srt_sorted: "sorted (map kv_Key (srt kvs))"
begin

lemma srt_keys: "kv_Key ` set (srt kvs) = kv_Key ` set kvs"
  by (metis srt_mset set_mset_mset)

lemma srt_values:
  "mset (map kv_Value (filter (\<lambda>x. kv_Key x = k) (srt kvs))) = mset (map kv_Value (filter (\<lambda>x. kv_Key x = k) kvs))"
  by (simp add: srt_mset)

end

text \<open>\<open>ByKey.Less\<close> is the order on keys, so any sort with the contract will do; here is one.\<close>

definition ByKey_Less :: "KeyValue list \<Rightarrow> nat \<Rightarrow> nat \<Rightarrow> bool" where
  "ByKey_Less a i j \<longleftrightarrow> kv_Key (a ! i) < kv_Key (a ! j)"

definition ByKey_sort :: "KeyValue list \<Rightarrow> KeyValue list" where
  "ByKey_sort = sort_key kv_Key"

interpretation by_key: key_sort ByKey_sort
  by unfold_locales (simp_all add: ByKey_sort_def)

section \<open>The program\<close>

text \<open>\<open>fs\<close> gives the contents of the files that can be opened and read.\<close>

fun map_phase :: "(string \<Rightarrow> string option) \<Rightarrow> (string \<Rightarrow> string \<Rightarrow> KeyValue list) \<Rightarrow> string list \<Rightarrow>
    KeyValue list \<Rightarrow> KeyValue list go" where
  "map_phase fs mapf [] intermediate = Inr intermediate"
| "map_phase fs mapf (filename # rest) intermediate =
     (case fs filename of
        None \<Rightarrow> Inl LogFatal
      | Some content \<Rightarrow> map_phase fs mapf rest (intermediate @ mapf filename content))"

text \<open>The loops over positions: the end of the run of equal keys, and the lines of output.\<close>

function run_end :: "KeyValue list \<Rightarrow> nat \<Rightarrow> nat \<Rightarrow> nat" where
  "run_end kvs i j =
     (if j < length kvs \<and> kv_Key (kvs ! j) = kv_Key (kvs ! i) then run_end kvs i (j + 1) else j)"
  by pat_completeness auto
termination
  by (relation "measure (\<lambda>(kvs, i, j). length kvs - j)") auto

declare run_end.simps [simp del]

lemma run_end_ge: "j \<le> run_end kvs i j"
  by (induction kvs i j rule: run_end.induct) (subst run_end.simps, force)

function reduce_loop :: "(string \<Rightarrow> string list \<Rightarrow> string) \<Rightarrow> KeyValue list \<Rightarrow> nat \<Rightarrow> (string \<times> string) list" where
  "reduce_loop reducef kvs i =
     (if i < length kvs
      then let j = run_end kvs i (i + 1);
               values = map (\<lambda>k. kv_Value (kvs ! k)) [i..<j];
               output = reducef (kv_Key (kvs ! i)) values
           in (kv_Key (kvs ! i), output) # reduce_loop reducef kvs j
      else [])"
  by pat_completeness auto
termination
  by (relation "measure (\<lambda>(reducef, kvs, i). length kvs - i)")
    (auto intro: diff_less_mono2 less_le_trans [OF _ run_end_ge])

declare reduce_loop.simps [simp del]

definition output_line :: "string \<times> string \<Rightarrow> string" where
  "output_line = (\<lambda>(key, output). key @ '' '' @ output @ [CHR 0x0A])"

definition mrsequential ::
  "(KeyValue list \<Rightarrow> KeyValue list) \<Rightarrow> (string \<Rightarrow> string option) \<Rightarrow> (string \<Rightarrow> string \<Rightarrow> KeyValue list) \<Rightarrow>
   (string \<Rightarrow> string list \<Rightarrow> string) \<Rightarrow> string list \<Rightarrow> string go" where
  "mrsequential srt fs mapf reducef filenames =
     (case map_phase fs mapf filenames [] of
        Inl p \<Rightarrow> Inl p
      | Inr intermediate \<Rightarrow> Inr (concat (map output_line (reduce_loop reducef (srt intermediate) 0))))"

section \<open>Runs of equal keys\<close>

text \<open>The same grouping by recursion on the list, on which the facts below are proved.\<close>

function key_runs :: "KeyValue list \<Rightarrow> (string \<times> string list) list" where
  "key_runs [] = []"
| "key_runs (x # xs) =
     (kv_Key x, kv_Value x # map kv_Value (takeWhile (\<lambda>y. kv_Key y = kv_Key x) xs)) #
     key_runs (dropWhile (\<lambda>y. kv_Key y = kv_Key x) xs)"
  by pat_completeness auto
termination
  by (relation "measure length") (auto simp: le_imp_less_Suc length_dropWhile_le)

lemma run_end_eq:
  "j \<le> length kvs \<Longrightarrow>
     run_end kvs i j = j + length (takeWhile (\<lambda>y. kv_Key y = kv_Key (kvs ! i)) (drop j kvs))"
proof (induction kvs i j rule: run_end.induct)
  case (1 kvs i j)
  show ?case
  proof (cases "j < length kvs")
    case True
    then have "drop j kvs = kvs ! j # drop (Suc j) kvs" by (simp add: Cons_nth_drop_Suc)
    then show ?thesis using 1 True by (subst run_end.simps) auto
  next
    case False
    then show ?thesis using 1 by (subst run_end.simps) simp
  qed
qed

lemma map_nth_slice: "m + n \<le> length xs \<Longrightarrow> map (\<lambda>k. xs ! k) [m..<m + n] = take n (drop m xs)"
  by (intro nth_equalityI) auto

lemma reduce_loop_eq:
  "reduce_loop reducef kvs i = map (\<lambda>(k, vs). (k, reducef k vs)) (key_runs (drop i kvs))"
proof (induction reducef kvs i rule: reduce_loop.induct)
  case (1 reducef kvs i)
  show ?case
  proof (cases "i < length kvs")
    case True
    define run where "run = takeWhile (\<lambda>y. kv_Key y = kv_Key (kvs ! i)) (drop (Suc i) kvs)"
    have j: "run_end kvs i (i + 1) = Suc i + length run"
      using True run_end_eq [of "Suc i" kvs i] by (simp add: run_def)
    have "drop (Suc i) kvs = run @ dropWhile (\<lambda>y. kv_Key y = kv_Key (kvs ! i)) (drop (Suc i) kvs)"
      by (simp add: run_def)
    then have rest: "drop (Suc i + length run) kvs = dropWhile (\<lambda>y. kv_Key y = kv_Key (kvs ! i)) (drop (Suc i) kvs)"
      by (metis add.commute append_eq_conv_conj drop_drop)
    have "length run \<le> length (drop (Suc i) kvs)" unfolding run_def by (rule length_takeWhile_le)
    moreover have "take (length run) (drop (Suc i) kvs) = run"
      unfolding run_def by (metis append_eq_conv_conj takeWhile_dropWhile_id)
    ultimately have "map (\<lambda>k. kvs ! k) [Suc i..<Suc i + length run] = run"
      using map_nth_slice [of "Suc i" "length run" kvs] True by simp
    then have "map kv_Value (map (\<lambda>k. kvs ! k) [Suc i..<Suc i + length run]) = map kv_Value run" by (rule arg_cong)
    then have vals: "map (\<lambda>k. kv_Value (kvs ! k)) [i..<Suc i + length run] = kv_Value (kvs ! i) # map kv_Value run"
      unfolding map_map comp_def by (subst upt_conv_Cons) (auto simp del: upt_Suc)
    show ?thesis
      using True 1 [OF True j [symmetric] vals [symmetric] refl] rest vals
      by (subst reduce_loop.simps) (simp add: j [simplified] Let_def Cons_nth_drop_Suc [OF True, symmetric] run_def [symmetric] del: upt_Suc)
  next
    case False
    then show ?thesis by (subst reduce_loop.simps) simp
  qed
qed

text \<open>On sorted input a run of equal keys has all pairs with that key.\<close>

lemma sorted_runs:
  assumes "sorted (k # map kv_Key xs)"
  shows "takeWhile (\<lambda>y. kv_Key y = k) xs = filter (\<lambda>y. kv_Key y = k) xs"
    and "dropWhile (\<lambda>y. kv_Key y = k) xs = filter (\<lambda>y. kv_Key y \<noteq> k) xs"
  using assms
proof (induction xs)
  case (Cons x xs)
  {
    case 1
    then have "\<forall>y\<in>set xs. kv_Key y \<noteq> k" if "kv_Key x \<noteq> k" using that by force
    then show ?case using 1 Cons.IH(1) by (cases "kv_Key x = k") (simp_all add: filter_empty_conv)
  next
    case 2
    then have "\<forall>y\<in>set xs. kv_Key y \<noteq> k" if "kv_Key x \<noteq> k" using that by force
    then show ?case using 2 Cons.IH(2) by (cases "kv_Key x = k") (simp_all add: filter_id_conv)
  }
qed simp_all

lemma key_runs_sorted:
  "sorted (map kv_Key kvs) \<Longrightarrow>
     key_runs kvs = map (\<lambda>k. (k, map kv_Value (filter (\<lambda>x. kv_Key x = k) kvs))) (sorted_list_of_set (kv_Key ` set kvs))"
proof (induction kvs rule: key_runs.induct)
  case (2 x xs)
  let ?k = "kv_Key x" and ?rest = "filter (\<lambda>y. kv_Key y \<noteq> kv_Key x) xs"
  have s: "sorted (?k # map kv_Key xs)" using "2.prems" by simp
  note runs = sorted_runs [OF s]
  have IH: "key_runs ?rest =
      map (\<lambda>k. (k, map kv_Value (filter (\<lambda>x. kv_Key x = k) ?rest))) (sorted_list_of_set (kv_Key ` set ?rest))"
    using "2.IH" sorted_filter [of kv_Key xs] s unfolding runs by simp
  have keys: "kv_Key ` set (x # xs) = insert ?k (kv_Key ` set ?rest)" by auto
  have less: "?k < k" if "k \<in> kv_Key ` set ?rest" for k using that s by auto
  have "sorted_list_of_set (kv_Key ` set (x # xs)) = ?k # sorted_list_of_set (kv_Key ` set ?rest)"
    unfolding keys using less
    by (subst sorted_list_of_set_insert) (auto simp: insort_is_Cons less_imp_le)
  moreover have "filter (\<lambda>y. kv_Key y = k) ?rest = filter (\<lambda>y. kv_Key y = k) (x # xs)"
    if "k \<in> kv_Key ` set ?rest" for k
    using less [OF that] by (auto simp: intro!: filter_cong)
  ultimately show ?case using IH runs by simp
qed simp

lemma map_phase_eq:
  "(\<forall>f\<in>set filenames. fs f \<noteq> None) \<Longrightarrow>
     map_phase fs mapf filenames acc = Inr (acc @ concat (map (\<lambda>f. mapf f (the (fs f))) filenames))"
  by (induction filenames arbitrary: acc) (auto split: option.splits)

lemma map_phase_missing:
  "f \<in> set filenames \<Longrightarrow> fs f = None \<Longrightarrow> map_phase fs mapf filenames acc = Inl LogFatal"
  by (induction filenames arbitrary: acc) (auto split: option.splits)

text \<open>The pairs of all input files.\<close>

definition all_pairs :: "(string \<Rightarrow> string option) \<Rightarrow> (string \<Rightarrow> string \<Rightarrow> KeyValue list) \<Rightarrow> string list \<Rightarrow> KeyValue list" where
  "all_pairs fs mapf filenames = concat (map (\<lambda>f. mapf f (the (fs f))) filenames)"

context key_sort
begin

lemma reduce_loop_sorted:
  "reduce_loop reducef (srt kvs) 0 =
     map (\<lambda>k. (k, reducef k (map kv_Value (filter (\<lambda>x. kv_Key x = k) (srt kvs)))))
       (sorted_list_of_set (kv_Key ` set kvs))"
  by (simp add: reduce_loop_eq key_runs_sorted [OF srt_sorted] srt_keys)

text \<open>For a reduce function that does not depend on the order of its values the output is determined.\<close>

lemma mrsequential_spec:
  assumes files: "\<forall>f\<in>set filenames. fs f \<noteq> None"
    and comm: "\<And>k vs ws. mset vs = mset ws \<Longrightarrow> reducef k vs = reducef k ws"
  shows "mrsequential srt fs mapf reducef filenames =
    Inr (concat (map (\<lambda>k. output_line (k, reducef k (map kv_Value (filter (\<lambda>x. kv_Key x = k) (all_pairs fs mapf filenames)))))
      (sorted_list_of_set (kv_Key ` set (all_pairs fs mapf filenames)))))"
proof -
  have "reducef k (map kv_Value (filter (\<lambda>x. kv_Key x = k) (srt kvs))) =
        reducef k (map kv_Value (filter (\<lambda>x. kv_Key x = k) kvs))" for k kvs
    by (intro comm srt_values)
  then show ?thesis
    by (simp add: mrsequential_def map_phase_eq [OF files] reduce_loop_sorted all_pairs_def comp_def)
qed

end

section \<open>Applications\<close>

definition doc_words :: "(char \<Rightarrow> bool) \<Rightarrow> string option \<Rightarrow> string list" where
  "doc_words isLetter doc = fields_func (\<lambda>c. \<not> isLetter c) (the doc)"

definition all_words :: "(char \<Rightarrow> bool) \<Rightarrow> (string \<Rightarrow> string option) \<Rightarrow> string list \<Rightarrow> string list" where
  "all_words isLetter fs filenames = concat (map (\<lambda>f. doc_words isLetter (fs f)) filenames)"

lemma wc_pairs: "all_pairs fs (wc_Map isLetter) filenames = map (\<lambda>w. KV w ''1'') (all_words isLetter fs filenames)"
  by (simp add: all_pairs_def all_words_def doc_words_def wc_Map_def map_concat comp_def)

lemma wc_count: "length (filter (\<lambda>u. u = w) ws) = count_list ws w"
  by (induction ws) auto

lemma index_pairs:
  assumes "\<And>ws. mset (ord ws) = mset ws"
  shows "map kv_Value (filter (\<lambda>x. kv_Key x = w) (all_pairs fs (indexer_Map ord isLetter) filenames)) =
         filter (\<lambda>f. w \<in> set (doc_words isLetter (fs f))) filenames"
    and "kv_Key ` set (all_pairs fs (indexer_Map ord isLetter) filenames) = set (all_words isLetter fs filenames)"
proof -
  have s: "set (ord ws) = set ws" "distinct (ord (remdups ws))" for ws
    by (metis assms set_mset_mset, metis assms distinct_remdups mset_eq_imp_distinct_iff)
  have one: "map kv_Value (filter (\<lambda>x. kv_Key x = w) (map (\<lambda>u. KV u f) us)) = (if w \<in> set us then [f] else [])"
    if "distinct us" for us f using that by (induction us) auto
  show "map kv_Value (filter (\<lambda>x. kv_Key x = w) (all_pairs fs (indexer_Map ord isLetter) filenames)) =
      filter (\<lambda>f. w \<in> set (doc_words isLetter (fs f))) filenames"
    by (induction filenames) (simp_all add: all_pairs_def indexer_Map_def Let_def one s doc_words_def)
  show "kv_Key ` set (all_pairs fs (indexer_Map ord isLetter) filenames) = set (all_words isLetter fs filenames)"
    by (induction filenames) (simp_all add: all_pairs_def all_words_def indexer_Map_def Let_def s doc_words_def image_Un image_image)
qed

section \<open>Properties\<close>

text \<open>
  C23: the sequential program computes MapReduce. For any sorting function with the contract of
  \<open>sort.Sort\<close>, any application whose reduce function does not depend on the order of its values, and
  readable input files, the output has exactly one line per distinct key of the mapped pairs, in
  ascending order of the keys, with the reduction of all values of that key.
\<close>

theorem mrsequential_correct:
  assumes "\<And>kvs. mset (srt kvs) = mset kvs" "\<And>kvs. sorted (map kv_Key (srt kvs))"
    and "\<forall>f\<in>set filenames. fs f \<noteq> None"
    and "\<And>k vs ws. mset vs = mset ws \<Longrightarrow> reducef k vs = reducef k ws"
  shows "mrsequential srt fs mapf reducef filenames =
    Inr (concat (map (\<lambda>k. output_line (k, reducef k (map kv_Value (filter (\<lambda>x. kv_Key x = k) (all_pairs fs mapf filenames)))))
      (sorted_list_of_set (kv_Key ` set (all_pairs fs mapf filenames)))))"
  by (rule key_sort.mrsequential_spec [OF key_sort.intro [OF assms(1,2)] assms(3,4)])

definition docs :: "string \<Rightarrow> string option" where
  "docs = [''x'' \<mapsto> ''b-a b'', ''y'' \<mapsto> ''a'']"

theorem mrsequential_correct_witness:
  "mrsequential ByKey_sort docs (\<lambda>f c. [KV ''k'' c]) (\<lambda>k vs. itoa (int (length vs))) [''x'', ''y''] =
     Inr (output_line (''k'', itoa 2))"
proof -
  have f: "\<forall>f\<in>set [''x'', ''y'']. docs f \<noteq> None" by (simp add: docs_def)
  have r: "itoa (int (length vs)) = itoa (int (length ws))" if "mset vs = mset ws" for vs ws :: "string list"
    using mset_eq_length [OF that] by simp
  show ?thesis
    using mrsequential_correct [where srt = ByKey_sort and reducef = "\<lambda>k vs. itoa (int (length vs))"
        and mapf = "\<lambda>f c. [KV ''k'' c]", OF by_key.srt_mset by_key.srt_sorted f r]
    by (simp add: all_pairs_def)
qed

text \<open>
  Word count counts words. The output of the word count application has one line per distinct word of the input
  files, in ascending order, with the number of its occurrences in all files together.
\<close>

theorem wordcount_correct:
  assumes "\<And>kvs. mset (srt kvs) = mset kvs" "\<And>kvs. sorted (map kv_Key (srt kvs))"
    and "\<forall>f\<in>set filenames. fs f \<noteq> None"
  shows "mrsequential srt fs (wc_Map isLetter) wc_Reduce filenames =
    Inr (concat (map (\<lambda>w. output_line (w, itoa (int (count_list (all_words isLetter fs filenames) w))))
      (sorted_list_of_set (set (all_words isLetter fs filenames)))))"
proof -
  have "wc_Reduce k vs = wc_Reduce k ws" if "mset vs = mset ws" for k vs ws
    using mset_eq_length [OF that] by (simp add: wc_Reduce_def)
  from key_sort.mrsequential_spec [where reducef = wc_Reduce and mapf = "wc_Map isLetter",
      OF key_sort.intro [OF assms(1,2)] assms(3) this]
  show ?thesis unfolding wc_pairs by (simp add: wc_Reduce_def wc_count image_image comp_def)
qed

theorem wordcount_correct_witness:
  "mrsequential ByKey_sort docs (wc_Map (\<lambda>c. c = CHR ''a'' \<or> c = CHR ''b'')) wc_Reduce [''x'', ''y''] =
     Inr (output_line (''a'', itoa 2) @ output_line (''b'', itoa 2))"
proof -
  let ?l = "\<lambda>c. c = CHR ''a'' \<or> c = CHR ''b''"
  have "\<forall>f\<in>set [''x'', ''y'']. docs f \<noteq> None" by (simp add: docs_def)
  moreover have words: "all_words ?l docs [''x'', ''y''] = [''b'', ''a'', ''b'', ''a'']"
    by (simp add: all_words_def doc_words_def docs_def)
  moreover have "sorted_list_of_set (set (all_words ?l docs [''x'', ''y''])) = [''a'', ''b'']"
    unfolding words by (simp add: insert_commute less_char_def less_eq_char_def)
  ultimately show ?thesis
    using wordcount_correct [OF by_key.srt_mset by_key.srt_sorted, of "[''x'', ''y'']" docs ?l] by simp
qed

text \<open>
  The indexer lists documents. Its output has one line per distinct word of the input files, in
  ascending order, with the number of the input files that contain the word and their names in
  sorted order, whatever order Go traverses the map of words in.
\<close>

theorem indexer_correct:
  assumes "\<And>kvs. mset (srt kvs) = mset kvs" "\<And>kvs. sorted (map kv_Key (srt kvs))"
    and "\<And>ws. mset (ord ws) = mset ws" "\<forall>f\<in>set filenames. fs f \<noteq> None"
  shows "mrsequential srt fs (indexer_Map ord isLetter) indexer_Reduce filenames =
    Inr (concat (map (\<lambda>w. let found = filter (\<lambda>f. w \<in> set (doc_words isLetter (fs f))) filenames
           in output_line (w, itoa (int (length found)) @ '' '' @ strings_join '','' (sort found)))
      (sorted_list_of_set (set (all_words isLetter fs filenames)))))"
proof -
  have "indexer_Reduce k vs = indexer_Reduce k ws" if "mset vs = mset ws" for k vs ws
  proof -
    have "sort vs = sort ws" by (metis that mset_sort properties_for_sort sorted_sort)
    then show ?thesis by (simp add: indexer_Reduce_def sort_strings_def)
  qed
  from key_sort.mrsequential_spec [where reducef = indexer_Reduce and mapf = "indexer_Map ord isLetter",
      OF key_sort.intro [OF assms(1,2)] assms(4) this]
  show ?thesis unfolding index_pairs [OF assms(3)] by (simp add: indexer_Reduce_def sort_strings_def Let_def)
qed

theorem indexer_correct_witness:
  "mrsequential ByKey_sort docs (indexer_Map rev (\<lambda>c. c = CHR ''a'' \<or> c = CHR ''b'')) indexer_Reduce [''y'', ''x''] =
     Inr (output_line (''a'', itoa 2 @ '' x,y'') @ output_line (''b'', itoa 1 @ '' x''))"
proof -
  let ?l = "\<lambda>c. c = CHR ''a'' \<or> c = CHR ''b''"
  have "\<forall>f\<in>set [''y'', ''x'']. docs f \<noteq> None" by (simp add: docs_def)
  moreover have words: "all_words ?l docs [''y'', ''x''] = [''a'', ''b'', ''a'', ''b'']"
    "doc_words ?l (docs ''x'') = [''b'', ''a'', ''b'']" "doc_words ?l (docs ''y'') = [''a'']"
    by (simp_all add: all_words_def doc_words_def docs_def)
  moreover have "sorted_list_of_set (set (all_words ?l docs [''y'', ''x''])) = [''a'', ''b'']"
    unfolding words by (simp add: insert_commute less_char_def less_eq_char_def)
  moreover have "sort [''y'', ''x''] = [''x'', ''y'']" by (simp add: less_eq_char_def less_char_def)
  ultimately show ?thesis
    using indexer_correct [OF by_key.srt_mset by_key.srt_sorted, of rev "[''y'', ''x'']" docs ?l] by simp
qed

end
