(* ===== verification/Mr_Worker.thy ===== *)
theory Mr_Worker
  imports Mr_Coordinator Mr_Sequential
begin

text \<open>
  \<open>mr/worker.go\<close>: the MapReduce worker. Files that can be opened and read are a function from names
  to contents. \<open>os.CreateTemp\<close> creates a file whose name is the given pattern plus a random suffix, in
  the directory for temporary files; a created file is its pattern and what was written to it.
\<close>

section \<open>Buckets\<close>

text \<open>\<open>ihash\<close> clears the top bit of the 32-bit hash.\<close>

definition ihash :: "string \<Rightarrow> int" where
  "ihash key = uint (and (fnv32a (string_bytes key)) 0x7fffffff)"

fun bucket_loop :: "int \<Rightarrow> KeyValue list \<Rightarrow> KeyValue list list \<Rightarrow> KeyValue list list go" where
  "bucket_loop nr [] intermediate = Inr intermediate"
| "bucket_loop nr (kv # kvs) intermediate =
     (if nr = 0 then Inl DividePanic
      else let bucketNum = ihash (kv_Key kv) mod nr
           in case go_index intermediate bucketNum of
                Inl p \<Rightarrow> Inl p
              | Inr b \<Rightarrow> case go_update intermediate bucketNum (b @ [kv]) of
                  Inl p \<Rightarrow> Inl p
                | Inr intermediate \<Rightarrow> bucket_loop nr kvs intermediate)"

section \<open>Map tasks\<close>

definition bucket_name :: "int \<Rightarrow> int \<Rightarrow> string" where
  "bucket_name x y = ''mr-'' @ itoa x @ ''-'' @ itoa y"

text \<open>
  The loop that writes a bucket ranges over its positions, so what is encoded is the positions and not
  the pairs. \<open>doMap\<close> returns the files it writes; \<open>make\<close> with a negative length panics.
\<close>

definition doMap :: "(string \<Rightarrow> string option) \<Rightarrow> (string \<Rightarrow> string \<Rightarrow> KeyValue list) \<Rightarrow> Task \<Rightarrow>
    (string \<times> int list) list go" where
  "doMap fs mapf taskInfo =
     (case fs (t_FileName taskInfo) of
        None \<Rightarrow> Inl LogFatal
      | Some content \<Rightarrow>
          if t_NReduce taskInfo < 0 then Inl IndexPanic
          else case bucket_loop (t_NReduce taskInfo) (mapf (t_FileName taskInfo) content)
                      (replicate (nat (t_NReduce taskInfo)) []) of
                 Inl p \<Rightarrow> Inl p
               | Inr intermediate \<Rightarrow>
                   Inr (map (\<lambda>i. (bucket_name (t_TaskId taskInfo) (int i),
                                  map int [0..<length (intermediate ! i)])) [0..<nat (t_NReduce taskInfo)]))"

section \<open>Reduce tasks\<close>

text \<open>
  \<open>decode\<close> is what a JSON decoder reads from a file before its first error; a file that cannot be
  opened yields nothing. Each result is written to a file of its own.
\<close>

definition read_buckets :: "(string \<Rightarrow> string option) \<Rightarrow> (string \<Rightarrow> KeyValue list) \<Rightarrow> int \<Rightarrow> int \<Rightarrow> KeyValue list" where
  "read_buckets fs decode bucketNum mapNum =
     concat (map (\<lambda>i. case fs (bucket_name (int i) bucketNum) of None \<Rightarrow> [] | Some c \<Rightarrow> decode c)
       [0..<nat mapNum])"

fun reduce_scan :: "(string \<Rightarrow> string list \<Rightarrow> string) \<Rightarrow> KeyValue list \<Rightarrow> int \<Rightarrow> int \<Rightarrow> nat list \<Rightarrow> string list go" where
  "reduce_scan reducef kvs start end' [] = Inr []"
| "reduce_scan reducef kvs start end' (i # is) =
     (case go_index kvs (int i) of
        Inl p \<Rightarrow> Inl p
      | Inr cur \<Rightarrow> case go_index kvs (int i - 1) of
          Inl p \<Rightarrow> Inl p
        | Inr prev \<Rightarrow>
            if kv_Key cur = kv_Key prev then reduce_scan reducef kvs start (end' + 1) is
            else let temp = map (\<lambda>j. kv_Value (kvs ! nat j)) [start..end' - 1];
                     res = reducef (kv_Key prev) temp
                 in case reduce_scan reducef kvs start end' is of
                      Inl p \<Rightarrow> Inl p
                    | Inr rest \<Rightarrow> Inr (res # rest))"

definition doReduce :: "(KeyValue list \<Rightarrow> KeyValue list) \<Rightarrow> (string \<Rightarrow> string option) \<Rightarrow> (string \<Rightarrow> KeyValue list) \<Rightarrow>
    (string \<Rightarrow> string list \<Rightarrow> string) \<Rightarrow> int \<Rightarrow> int \<Rightarrow> (string \<times> string) list go" where
  "doReduce srt fs decode reducef bucketNum mapNum =
     (let allKV = srt (read_buckets fs decode bucketNum mapNum)
      in case reduce_scan reducef allKV 0 0 [0..<length allKV] of
           Inl p \<Rightarrow> Inl p
         | Inr results \<Rightarrow> Inr (map (\<lambda>r. (''res-'' @ itoa bucketNum, r)) results))"

section \<open>Calls to the coordinator\<close>

text \<open>
  What \<open>net/rpc\<close> does with the name of a call: it takes the service and the method from the two sides of the last dot and
  refuses a name without one. The coordinator is registered under the name of its type; \<open>methods\<close> are its handlers.
\<close>

definition rpc_find :: "(string \<rightharpoonup> 'h) \<Rightarrow> string \<rightharpoonup> 'h" where
  "rpc_find methods name =
     (let dot = last_index name CHR ''.''
      in if dot < 0 then None
         else if take (nat dot) name = ''Coordinator'' then methods (drop (Suc (nat dot)) name) else None)"

text \<open>
  One call. \<open>dial\<close> tells whether the coordinator's socket can be dialed; if not, the process ends. A call that \<open>net/rpc\<close> refuses is printed, gives
  false and leaves the reply as it was. A handler that panics or ends the process is the fault of the result. \<open>os.Getuid\<close> is an argument.
\<close>

definition coordinatorSock :: "int \<Rightarrow> string" where
  "coordinatorSock uid = ''/var/tmp/5840-mr-'' @ itoa uid"

definition call :: "(string \<Rightarrow> bool) \<Rightarrow> int \<Rightarrow> (string \<rightharpoonup> (Coordinator \<Rightarrow> (Coordinator \<times> 'r) go)) \<Rightarrow> string \<Rightarrow> 'r \<Rightarrow>
    Coordinator \<Rightarrow> (Coordinator \<times> 'r \<times> bool) go" where
  "call dial uid methods rpcName reply c =
     (let sockName = coordinatorSock uid
      in if \<not> dial sockName then Inl LogFatal
         else case rpc_find methods rpcName of
             None \<Rightarrow> Inr (c, reply, False)
           | Some handler \<Rightarrow> (case handler c of Inl p \<Rightarrow> Inl p | Inr (c, reply) \<Rightarrow> Inr (c, reply, True)))"

definition getTaskRPC :: "(string \<Rightarrow> bool) \<Rightarrow> int \<Rightarrow> int \<Rightarrow> int \<Rightarrow> Coordinator \<Rightarrow> (Coordinator \<times> GetTaskReply) go" where
  "getTaskRPC dial uid now started c =
     (case call dial uid [''GetTask'' \<mapsto> GetTask now started] ''GetTask'' GetTaskReply0 c of
        Inl p \<Rightarrow> Inl p
      | Inr (c, reply, ok) \<Rightarrow> Inr (c, reply))"

definition reportTaskDone :: "(string \<Rightarrow> bool) \<Rightarrow> int \<Rightarrow> TaskId \<Rightarrow> Coordinator \<Rightarrow> Coordinator go" where
  "reportTaskDone dial uid tid c =
     (case call dial uid [''ReportTask'' \<mapsto> (\<lambda>c. map_sum id (\<lambda>c. (c, ())) (ReportTask tid c))] ''ReportTask'' () c of
        Inl p \<Rightarrow> Inl p
      | Inr (c, reply, ok) \<Rightarrow> Inr c)"

text \<open>With the name that \<open>net/rpc\<close> asks for, the handler would be called; with the names in the code no handler is.\<close>

lemma rpc_find_names:
  "CHR ''.'' \<notin> set meth \<Longrightarrow> rpc_find methods (''Coordinator'' @ CHR ''.'' # meth) = methods meth"
  "CHR ''.'' \<notin> set name \<Longrightarrow> rpc_find methods name = None"
  using last_index_split [of "CHR ''.''" meth "''Coordinator''"]
  by (simp_all add: rpc_find_def last_index_none Let_def)

section \<open>The worker\<close>

text \<open>
  The reply is fetched once, before the loop. \<open>fuel\<close> bounds the iterations observed; a worker is still
  running after them, has returned, or has ended with a fault. The files written so far are collected. \<open>dial n\<close> tells whether the coordinator can be
  dialed in the iteration after which \<open>n\<close> more are observed; \<open>dial fuel\<close> is for the call before the loop.
\<close>

datatype worker_state = Running | Returned | Faulted fault

fun Worker_loop :: "(nat \<Rightarrow> string \<Rightarrow> bool) \<Rightarrow> int \<Rightarrow> (KeyValue list \<Rightarrow> KeyValue list) \<Rightarrow> (string \<Rightarrow> string option) \<Rightarrow> (string \<Rightarrow> KeyValue list) \<Rightarrow>
    (string \<Rightarrow> string \<Rightarrow> KeyValue list) \<Rightarrow> (string \<Rightarrow> string list \<Rightarrow> string) \<Rightarrow> GetTaskReply \<Rightarrow>
    nat \<Rightarrow> Coordinator \<Rightarrow> string list \<Rightarrow> Coordinator \<times> string list \<times> worker_state" where
  "Worker_loop dial uid srt fs decode mapf reducef reply 0 c out = (c, out, Running)"
| "Worker_loop dial uid srt fs decode mapf reducef reply (Suc fuel) c out =
     (case t_TaskType (TaskInfo reply) of
        MapTask \<Rightarrow>
          (case doMap fs mapf (TaskInfo reply) of
             Inl p \<Rightarrow> (c, out, Faulted p)
           | Inr written \<Rightarrow>
               (case reportTaskDone (dial fuel) uid (t_TaskId (TaskInfo reply)) c of
                  Inl p \<Rightarrow> (c, out @ map fst written, Faulted p)
                | Inr c \<Rightarrow> Worker_loop dial uid srt fs decode mapf reducef reply fuel c (out @ map fst written)))
      | ReduceTask \<Rightarrow>
          (case doReduce srt fs decode reducef (BucketNum reply) (MapNum reply) of
             Inl p \<Rightarrow> (c, out, Faulted p)
           | Inr written \<Rightarrow>
               (case reportTaskDone (dial fuel) uid (t_TaskId (TaskInfo reply)) c of
                  Inl p \<Rightarrow> (c, out @ map fst written, Faulted p)
                | Inr c \<Rightarrow> Worker_loop dial uid srt fs decode mapf reducef reply fuel c (out @ map fst written)))
      | WaitTask \<Rightarrow> Worker_loop dial uid srt fs decode mapf reducef reply fuel c out
      | FinishedTask \<Rightarrow> (c, out, Returned)
      | NoTask \<Rightarrow> Worker_loop dial uid srt fs decode mapf reducef reply fuel c out)"

definition Worker :: "(nat \<Rightarrow> string \<Rightarrow> bool) \<Rightarrow> int \<Rightarrow> (KeyValue list \<Rightarrow> KeyValue list) \<Rightarrow> (string \<Rightarrow> string option) \<Rightarrow> (string \<Rightarrow> KeyValue list) \<Rightarrow>
    (string \<Rightarrow> string \<Rightarrow> KeyValue list) \<Rightarrow> (string \<Rightarrow> string list \<Rightarrow> string) \<Rightarrow> int \<Rightarrow> int \<Rightarrow>
    nat \<Rightarrow> Coordinator \<Rightarrow> Coordinator \<times> string list \<times> worker_state" where
  "Worker dial uid srt fs decode mapf reducef now started fuel c =
     (case getTaskRPC (dial fuel) uid now started c of
        Inl p \<Rightarrow> (c, [], Faulted p)
      | Inr (c, reply) \<Rightarrow> Worker_loop dial uid srt fs decode mapf reducef reply fuel c [])"

section \<open>Facts\<close>

lemma ihash_bounds: "0 \<le> ihash key" "ihash key < 2 ^ 31"
proof -
  show "0 \<le> ihash key" by (simp add: ihash_def)
  have "ihash key \<le> 0x7fffffff"
    unfolding ihash_def using word_and_le1 [of "fnv32a (string_bytes key)" "0x7fffffff"]
    by (simp add: word_le_def)
  then show "ihash key < 2 ^ 31" by simp
qed

lemma bucket_loop_spec:
  assumes "nr > 0" "length acc = nat nr"
  shows "bucket_loop nr kvs acc = Inr (map (\<lambda>i. acc ! i @ filter (\<lambda>kv. ihash (kv_Key kv) mod nr = int i) kvs) [0..<nat nr])"
  using assms(2)
proof (induction kvs arbitrary: acc)
  case Nil
  then show ?case by (simp add: map_nth_slice [of 0 "nat nr" acc, simplified])
next
  case (Cons kv kvs)
  define b where "b = ihash (kv_Key kv) mod nr"
  have b: "0 \<le> b" "b < nr" using assms(1) by (simp_all add: b_def)
  have nb: "nat b < length acc" using b Cons.prems by simp
  have "bucket_loop nr (kv # kvs) acc = bucket_loop nr kvs (acc[nat b := acc ! nat b @ [kv]])"
    using b assms(1) Cons.prems by (simp add: b_def [symmetric] go_index_def go_update_def Let_def)
  also have "\<dots> = Inr (map (\<lambda>i. acc[nat b := acc ! nat b @ [kv]] ! i @
      filter (\<lambda>kv. ihash (kv_Key kv) mod nr = int i) kvs) [0..<nat nr])"
    using Cons.IH [of "acc[nat b := acc ! nat b @ [kv]]"] Cons.prems by simp
  also have "map (\<lambda>i. acc[nat b := acc ! nat b @ [kv]] ! i @ filter (\<lambda>kv. ihash (kv_Key kv) mod nr = int i) kvs) [0..<nat nr] =
      map (\<lambda>i. acc ! i @ filter (\<lambda>kv. ihash (kv_Key kv) mod nr = int i) (kv # kvs)) [0..<nat nr]"
    using b nb by (intro map_cong refl) (auto simp: nth_list_update b_def [symmetric])
  finally show ?case .
qed

section \<open>Properties\<close>

text \<open>
  The buckets of a map task are a partition by hash. For a positive number of reduce tasks the
  loop never panics, bucket \<open>i\<close> has exactly the pairs whose key hashes to \<open>i\<close>, in the order of
  the map function's result, and together the buckets are a permutation of the pairs; so all pairs with
  one key, from all map tasks, are in the buckets of one number.
\<close>

theorem bucket_loop_partition:
  assumes "nr > 0"
  shows "\<exists>bs. bucket_loop nr kvs (replicate (nat nr) []) = Inr bs \<and> length bs = nat nr \<and>
     (\<forall>i<nat nr. bs ! i = filter (\<lambda>kv. ihash (kv_Key kv) mod nr = int i) kvs) \<and>
     mset (concat bs) = mset kvs"
proof -
  let ?b = "\<lambda>i. filter (\<lambda>kv. ihash (kv_Key kv) mod nr = int i)"
  have eq: "bucket_loop nr kvs (replicate (nat nr) []) = Inr (map (\<lambda>i. ?b i kvs) [0..<nat nr])"
    using bucket_loop_spec [OF assms, of "replicate (nat nr) []" kvs]
    by (simp cong: map_cong)
  have "mset (concat (map (\<lambda>i. ?b i kvs) [0..<nat nr])) = mset kvs"
  proof (induction kvs)
    case Nil
    have "concat (map (\<lambda>i. []) ns) = ([] :: KeyValue list)" for ns :: "nat list" by (induction ns) auto
    then show ?case by simp
  next
    case (Cons kv kvs)
    define b where "b = nat (ihash (kv_Key kv) mod nr)"
    have b: "b < nat nr" "ihash (kv_Key kv) mod nr = int b" using assms by (simp_all add: b_def)
    have "mset (concat (map (\<lambda>i. ?b i (kv # kvs)) ns)) =
        (if b \<in> set ns then {#kv#} else {#}) + mset (concat (map (\<lambda>i. ?b i kvs) ns))"
      if "distinct ns" for ns using that b(2) by (induction ns) auto
    from this [of "[0..<nat nr]"] show ?case using Cons.IH b(1) by simp
  qed
  then show ?thesis using eq by (intro exI [of _ "map (\<lambda>i. ?b i kvs) [0..<nat nr]"]) simp
qed

theorem bucket_loop_partition_witness:
  "\<exists>bs. bucket_loop 2 [KV ''a'' ''1'', KV ''b'' ''2''] (replicate (nat 2) []) = Inr bs \<and> length bs = 2 \<and>
     mset (concat bs) = mset [KV ''a'' ''1'', KV ''b'' ''2'']"
  using bucket_loop_partition [of 2 "[KV ''a'' ''1'', KV ''b'' ''2'']"] by fastforce

text \<open>
  A map task does not write its pairs. Whatever the map function returns, the file of a
  bucket holds the numbers from 0 up, one per pair of the bucket, and no key or value.
\<close>

theorem doMap_writes_positions:
  assumes "fs (t_FileName task) = Some content" "t_NReduce task > 0"
  shows "doMap fs mapf task = Inr (map (\<lambda>i. (bucket_name (t_TaskId task) (int i),
     map int [0..<length (filter (\<lambda>kv. ihash (kv_Key kv) mod t_NReduce task = int i) (mapf (t_FileName task) content))]))
     [0..<nat (t_NReduce task)])"
  using assms bucket_loop_spec [of "t_NReduce task" "replicate (nat (t_NReduce task)) []" "mapf (t_FileName task) content"]
  by (simp add: doMap_def cong: map_cong)

theorem doMap_writes_positions_witness:
  "doMap docs (\<lambda>f c. [KV ''k'' c]) ((NewTask MapTask)\<lparr>t_FileName := ''x'', t_NReduce := 1\<rparr>) =
     Inr [(bucket_name 0 0, [0])]"
proof -
  let ?t = "(NewTask MapTask)\<lparr>t_FileName := ''x'', t_NReduce := 1\<rparr>"
  have "docs (t_FileName ?t) = Some ''b-a b''" "t_NReduce ?t > 0" by (simp_all add: docs_def)
  from doMap_writes_positions [where fs = docs and task = ?t, OF this] show ?thesis by (simp add: NewTask_def)
qed

text \<open>
  A reduce task with any input panics. If the buckets hold at least one pair, the first
  iteration reads the element before the first one; if they hold none, nothing is written.
\<close>

theorem doReduce_panics:
  assumes "\<And>kvs. mset (srt kvs) = mset kvs"
  shows "doReduce srt fs decode reducef bucketNum mapNum =
    (if read_buckets fs decode bucketNum mapNum = [] then Inr [] else Inl IndexPanic)"
proof -
  have "length (srt kvs) = length kvs" for kvs using mset_eq_length [OF assms] .
  then show ?thesis
    by (cases "read_buckets fs decode bucketNum mapNum")
      (auto simp: doReduce_def Let_def go_index_def upt_conv_Cons simp del: upt_Suc)
qed

theorem doReduce_panics_witness:
  "doReduce ByKey_sort (\<lambda>_. Some ''x'') (\<lambda>_. [KV ''a'' ''1'']) wc_Reduce 0 1 = Inl IndexPanic"
  using doReduce_panics [OF by_key.srt_mset, of "\<lambda>_. Some ''x''" "\<lambda>_. [KV ''a'' ''1'']" wc_Reduce 0 1]
  by (simp add: read_buckets_def)

text \<open>
  A worker never gets a task. If it cannot dial the coordinator it ends at once. If it can, the name of its only request
  for a task has no dot, so that the request fails and leaves a zero reply, on which the worker loops: after any number of
  iterations it is still running, has written nothing and has not changed the coordinator.
\<close>

theorem Worker_gets_no_task:
  "Worker dial uid srt fs decode mapf reducef now started fuel c =
     (c, [], if dial fuel (coordinatorSock uid) then Running else Faulted LogFatal)"
proof -
  have "Worker_loop dial uid srt fs decode mapf reducef GetTaskReply0 fuel c [] = (c, [], Running)"
    by (induction fuel) (simp_all add: GetTaskReply0_def NewTask_def)
  moreover have "getTaskRPC (dial fuel) uid now started c =
      (if dial fuel (coordinatorSock uid) then Inr (c, GetTaskReply0) else Inl LogFatal)"
    by (simp add: getTaskRPC_def call_def rpc_find_names(2) Let_def)
  ultimately show ?thesis by (simp add: Worker_def)
qed

end
