(* ===== verification/Go_Json.thy ===== *)
theory Go_Json
  imports Go_Lib Kv_Rpc
begin

text \<open>
  What the tests of the key/value services use of \<open>encoding/json\<close>: the texts that \<open>Marshal\<close> writes for
  their structs of two integer fields and for slices of such structs, and reading such texts back with
  \<open>Unmarshal\<close>. Only the compact form that \<open>Marshal\<close> writes is read; the integers are unbounded except for
  versions, which must fit 64 bits.
\<close>

section \<open>Writing\<close>

text \<open>\<open>EntryV\<close> of the put tests, \<open>entry\<close> and \<open>EntryN\<close> of the append tests, from \<open>kvtest1/kvtest.go\<close>.\<close>

record EntryV =
  ev_Id :: int
  ev_V :: Tversion

record EntryN =
  en_Id :: int
  en_N :: int

definition json_field :: "string \<Rightarrow> string" where
  "json_field f = [CHR 0x22] @ f @ [CHR 0x22, CHR '':'']"

definition json_pair :: "string \<Rightarrow> string \<Rightarrow> int \<times> int \<Rightarrow> string" where
  "json_pair f g p = ''{'' @ json_field f @ itoa (fst p) @ '','' @ json_field g @ itoa (snd p) @ ''}''"

definition marshal_EntryV :: "EntryV \<Rightarrow> string" where
  "marshal_EntryV e = json_pair ''Id'' ''V'' (ev_Id e, uint (ev_V e))"

definition marshal_EntryN :: "EntryN \<Rightarrow> string" where
  "marshal_EntryN e = json_pair ''Id'' ''N'' (en_Id e, en_N e)"

definition marshal_entries :: "EntryN list \<Rightarrow> string" where
  "marshal_entries es = ''['' @ strings_join '','' (map marshal_EntryN es) @ '']''"

section \<open>Reading\<close>

definition digit :: "char \<Rightarrow> bool" where
  "digit c \<longleftrightarrow> 48 \<le> (of_char c :: nat) \<and> (of_char c :: nat) \<le> 57"

definition expect :: "string \<Rightarrow> string \<Rightarrow> string option" where
  "expect p s = (if has_prefix s p then Some (drop (length p) s) else None)"

definition read_nat :: "string \<Rightarrow> (nat \<times> string) option" where
  "read_nat s = (let ds = takeWhile digit s in if ds = [] then None else Some (read_digits ds, dropWhile digit s))"

definition read_int :: "string \<Rightarrow> (int \<times> string) option" where
  "read_int s = (case expect ''-'' s of
      Some t \<Rightarrow> map_option (\<lambda>(n, r). (- int n, r)) (read_nat t)
    | None \<Rightarrow> map_option (\<lambda>(n, r). (int n, r)) (read_nat s))"

definition read_pair :: "string \<Rightarrow> string \<Rightarrow> string \<Rightarrow> ((int \<times> int) \<times> string) option" where
  "read_pair f g s = Option.bind (expect (''{'' @ json_field f) s) (\<lambda>s. Option.bind (read_int s) (\<lambda>(i, s).
     Option.bind (expect ('','' @ json_field g) s) (\<lambda>s. Option.bind (read_int s) (\<lambda>(j, s).
     Option.bind (expect ''}'' s) (\<lambda>s. Some ((i, j), s))))))"

definition unmarshal_EntryV :: "string \<Rightarrow> EntryV option" where
  "unmarshal_EntryV s = (case read_pair ''Id'' ''V'' s of
      Some ((i, v), []) \<Rightarrow> if 0 \<le> v \<and> v < 2 ^ 64 then Some \<lparr>ev_Id = i, ev_V = word_of_int v\<rparr> else None
    | _ \<Rightarrow> None)"

text \<open>
  The elements of a slice or of an object up to the closing bracket or brace; the length of the text bounds their number.
\<close>

fun read_seq :: "(string \<Rightarrow> ('a \<times> string) option) \<Rightarrow> char \<Rightarrow> nat \<Rightarrow> string \<Rightarrow> ('a list \<times> string) option" where
  "read_seq p cl 0 s = None"
| "read_seq p cl (Suc k) s = Option.bind (p s) (\<lambda>(e, s).
     case expect [cl] s of
       Some s \<Rightarrow> Some ([e], s)
     | None \<Rightarrow> Option.bind (expect '','' s) (\<lambda>s. map_option (\<lambda>(es, s). (e # es, s)) (read_seq p cl k s)))"

definition read_list :: "(string \<Rightarrow> ('a \<times> string) option) \<Rightarrow> char \<Rightarrow> string \<Rightarrow> ('a list \<times> string) option" where
  "read_list p cl s = (case expect [cl] s of Some r \<Rightarrow> Some ([], r) | None \<Rightarrow> read_seq p cl (length s) s)"

definition read_EntryN :: "string \<Rightarrow> (EntryN \<times> string) option" where
  "read_EntryN s = map_option (\<lambda>((i, j), s). (\<lparr>en_Id = i, en_N = j\<rparr>, s)) (read_pair ''Id'' ''N'' s)"

definition unmarshal_entries :: "string \<Rightarrow> EntryN list option" where
  "unmarshal_entries s = Option.bind (expect ''['' s) (\<lambda>s.
     case read_list read_EntryN CHR '']'' s of Some (es, []) \<Rightarrow> Some es | _ \<Rightarrow> None)"

section \<open>Reading what was written\<close>

lemma digit_char: "d < 10 \<Longrightarrow> digit (char_of (48 + d :: nat))"
  by (simp add: digit_def of_char_digit del: of_char_of)

lemma nat_digits_digit: "\<forall>c\<in>set (nat_digits n). digit c" and nat_digits_nonempty: "nat_digits n \<noteq> []"
proof (induction n rule: nat_digits.induct)
  case (1 n)
  case 1
  then show ?case using "1.IH" by (subst nat_digits.simps) (simp add: digit_char)
  case 2
  then show ?case by (subst nat_digits.simps) simp
qed

lemma expect_append [simp]: "expect p (p @ s) = Some s"
  by (simp add: expect_def has_prefix_def)

lemma read_nat_digits_append:
  assumes "s = [] \<or> \<not> digit (hd s)"
  shows "read_nat (nat_digits n @ s) = Some (n, s)"
proof -
  have "takeWhile digit (nat_digits n @ s) = nat_digits n" "dropWhile digit (nat_digits n @ s) = s"
    using assms nat_digits_digit [of n] by (cases s; simp add: takeWhile_append2 dropWhile_append2)+
  then show ?thesis using nat_digits_nonempty [of n] by (simp add: read_nat_def read_nat_digits)
qed

lemma read_int_itoa:
  assumes "s = [] \<or> \<not> digit (hd s)"
  shows "read_int (itoa i @ s) = Some (i, s)"
proof (cases "i < 0")
  case True
  then have "itoa i @ s = ''-'' @ (nat_digits (nat (- i)) @ s)" by (simp add: itoa_def)
  then show ?thesis using True read_nat_digits_append [OF assms] by (simp only: read_int_def expect_append) simp
next
  case False
  obtain c cs where c: "nat_digits (nat i) = c # cs" "digit c"
    using nat_digits_nonempty [of "nat i"] nat_digits_digit [of "nat i"] by (cases "nat_digits (nat i)") auto
  then have "c \<noteq> CHR ''-''" by (auto simp: digit_def)
  then have "expect ''-'' (nat_digits (nat i) @ s) = None" using c by (simp add: expect_def has_prefix_def)
  then show ?thesis using False read_nat_digits_append [OF assms] by (simp add: read_int_def itoa_def)
qed

lemma read_json_pair: "read_pair f g (json_pair f g p @ s) = Some (p, s)"
proof -
  have "json_pair f g p @ s = (''{'' @ json_field f) @ itoa (fst p) @ ('','' @ json_field g) @ itoa (snd p) @ ''}'' @ s"
    by (simp add: json_pair_def)
  moreover have "\<not> digit (hd (('','' @ json_field g) @ itoa (snd p) @ ''}'' @ s))" "\<not> digit (hd (''}'' @ s))"
    by (simp_all add: digit_def)
  ultimately show ?thesis
    unfolding read_pair_def by (simp only: expect_append bind.simps read_int_itoa case_prod_conv simp_thms) simp
qed

text \<open>Reading a sequence, for any way to write the elements that starts with another character than the closing one.\<close>

lemma read_seq_join:
  assumes "xs \<noteq> []" "length xs \<le> k" "cl \<noteq> CHR '',''"
    and p: "\<And>x c t. x \<in> set xs \<Longrightarrow> c \<in> {CHR '','', cl} \<Longrightarrow> p (f x @ c # t) = Some (x, c # t)"
  shows "read_seq p cl k (strings_join '','' (map f xs) @ cl # s) = Some (xs, s)"
  using assms
proof (induction xs arbitrary: k)
  case (Cons x xs)
  obtain k' where k: "k = Suc k'" using Cons.prems(2) by (cases k) auto
  have x: "p (f x @ cl # t) = Some (x, cl # t)" "p (f x @ CHR '','' # t) = Some (x, CHR '','' # t)" for t using Cons.prems(4) by simp_all
  have e: "expect [c] (c # t) = Some t" for c t using expect_append [of "[c]" t] by simp
  show ?case
  proof (cases xs)
    case Nil
    then show ?thesis using k x e by simp
  next
    case (Cons y ys)
    let ?t = "strings_join '','' (map f xs) @ cl # s"
    have "strings_join '','' (map f (x # xs)) @ cl # s = f x @ CHR '','' # ?t" by (simp add: Cons)
    moreover have "expect [cl] (CHR '','' # ?t) = None" using Cons.prems(3) by (simp add: expect_def has_prefix_def)
    moreover have "read_seq p cl k' ?t = Some (xs, s)" using Cons.IH Cons.prems k Cons by simp
    ultimately show ?thesis using k by (simp only: read_seq.simps x bind.simps case_prod_conv option.case e) simp
  qed
qed simp

lemma join_length: "\<forall>x\<in>set xs. f x \<noteq> [] \<Longrightarrow> length xs \<le> length (strings_join '','' (map f xs))"
proof (induction xs)
  case (Cons x xs)
  then show ?case by (cases xs; cases "f x") auto
qed simp

lemma read_list_join:
  assumes "cl \<noteq> CHR '',''" and f: "\<And>x. x \<in> set xs \<Longrightarrow> \<exists>c t. f x = c # t \<and> c \<noteq> cl"
    and p: "\<And>x c t. x \<in> set xs \<Longrightarrow> c \<in> {CHR '','', cl} \<Longrightarrow> p (f x @ c # t) = Some (x, c # t)"
  shows "read_list p cl (strings_join '','' (map f xs) @ cl # s) = Some (xs, s)"
proof (cases xs)
  case Nil
  then show ?thesis by (simp add: read_list_def expect_def has_prefix_def)
next
  case (Cons x rest)
  let ?t = "strings_join '','' (map f xs) @ cl # s"
  obtain c t where "?t = c # t" "c \<noteq> cl" using f [of x] Cons by (cases rest) auto
  then have "expect [cl] ?t = None" by (simp add: expect_def has_prefix_def)
  moreover have "length xs \<le> length ?t" using join_length [of xs f] f by fastforce
  ultimately show ?thesis using Cons read_seq_join [of xs "length ?t" cl p f s] assms by (simp add: read_list_def)
qed

lemma unmarshal_marshal_EntryV [simp]: "unmarshal_EntryV (marshal_EntryV e) = Some e"
proof -
  have "read_pair ''Id'' ''V'' (marshal_EntryV e @ []) = Some ((ev_Id e, uint (ev_V e)), [])"
    unfolding marshal_EntryV_def by (rule read_json_pair)
  then show ?thesis
    using unsigned_less [of "ev_V e", where 'a = int] by (simp add: unmarshal_EntryV_def)
qed

lemma read_EntryN_marshal: "read_EntryN (marshal_EntryN e @ s) = Some (e, s)"
  unfolding marshal_EntryN_def read_EntryN_def by (simp add: read_json_pair)

lemma unmarshal_marshal_entries [simp]: "unmarshal_entries (marshal_entries es) = Some es"
proof -
  have "read_list read_EntryN CHR '']'' (strings_join '','' (map marshal_EntryN es) @ CHR '']'' # []) = Some (es, [])"
    by (rule read_list_join) (simp, simp add: marshal_EntryN_def json_pair_def, rule read_EntryN_marshal)
  moreover have "marshal_entries es = ''['' @ strings_join '','' (map marshal_EntryN es) @ CHR '']'' # []" by (simp add: marshal_entries_def)
  ultimately show ?thesis unfolding unmarshal_entries_def by (simp only: expect_append) simp
qed

text \<open>
  What a test writes it reads back. The JSON text of an entry of the put tests, and of a slice
  of entries of the append tests, is decoded to the same value.
\<close>

theorem json_roundtrip:
  "unmarshal_EntryV (marshal_EntryV e) = Some e \<and> unmarshal_entries (marshal_entries es) = Some es"
  by simp

end
