(* ===== verification/Main_Cmds.thy ===== *)
theory Main_Cmds
  imports Mr_Worker Go_Json
begin

text \<open>
  The programs of \<open>main/\<close> besides the sequential MapReduce: the commands that start the MapReduce coordinator and
  worker, and those of older services (lock, primary/backup and view service, persistent shards), whose packages are not part
  of the repository and are parameters here. What is modelled is how the commands read their arguments and what
  they call. \<open>args\<close> is \<open>os.Args\<close>, with the name of the program first.
\<close>

section \<open>Reading arguments\<close>

text \<open>
  How a command ends or goes on: it prints its usage and exits, fails, has finished with a result, or serves for ever.
\<close>

datatype 'a cmd_outcome = Usage | Fault fault | Finished 'a | Serving 'a

text \<open>
  \<open>strconv.ParseInt\<close> and \<open>Atoi\<close> for decimal numerals of 64 bits, with their error ignored: the value is 0 on a syntax error and the
  nearest representable one on overflow. \<open>ParseBool\<close> gives false for a text it does not know.
\<close>

definition parse_int :: "string \<Rightarrow> int" where
  "parse_int s = (let (neg, ds) = (case s of
         c # t \<Rightarrow> if c = CHR ''-'' then (True, t) else if c = CHR ''+'' then (False, t) else (False, s)
       | [] \<Rightarrow> (False, []))
     in if ds = [] \<or> \<not> list_all digit ds then 0
        else let n = (if neg then - int (read_digits ds) else int (read_digits ds))
             in max (- (2 ^ 63)) (min (2 ^ 63 - 1) n))"

definition parse_bool :: "string \<Rightarrow> bool" where
  "parse_bool s \<longleftrightarrow> s \<in> {''1'', ''t'', ''T'', ''TRUE'', ''true'', ''True''}"

section \<open>diskvd\<close>

record diskv_opts =
  dv_gid :: int
  dv_masters :: "string list"
  dv_replicas :: "string list"
  dv_me :: int
  dv_unreliable :: bool
  dv_dir :: string
  dv_restart :: bool

definition diskv_opts0 :: diskv_opts where
  "diskv_opts0 = \<lparr>dv_gid = -1, dv_masters = [], dv_replicas = [], dv_me = -1, dv_unreliable = False, dv_dir = '''', dv_restart = False\<rparr>"

text \<open>The arguments are read in pairs; a single last one is ignored, and an unknown flag ends the program.\<close>

fun diskvd_loop :: "string list \<Rightarrow> diskv_opts \<Rightarrow> diskv_opts option" where
  "diskvd_loop (a0 # a1 # rest) opts =
     (if a0 = ''-g'' then diskvd_loop rest (opts\<lparr>dv_gid := parse_int a1\<rparr>)
      else if a0 = ''-m'' then diskvd_loop rest (opts\<lparr>dv_masters := dv_masters opts @ [a1]\<rparr>)
      else if a0 = ''-s'' then diskvd_loop rest (opts\<lparr>dv_replicas := dv_replicas opts @ [a1]\<rparr>)
      else if a0 = ''-i'' then diskvd_loop rest (opts\<lparr>dv_me := parse_int a1\<rparr>)
      else if a0 = ''-u'' then diskvd_loop rest (opts\<lparr>dv_unreliable := parse_bool a1\<rparr>)
      else if a0 = ''-d'' then diskvd_loop rest (opts\<lparr>dv_dir := a1\<rparr>)
      else if a0 = ''-r'' then diskvd_loop rest (opts\<lparr>dv_restart := parse_bool a1\<rparr>)
      else None)"
| "diskvd_loop _ opts = Some opts"

definition diskvd_valid :: "diskv_opts \<Rightarrow> bool" where
  "diskvd_valid opts \<longleftrightarrow> \<not> (dv_gid opts < 0 \<or> dv_me opts < 0 \<or> length (dv_masters opts) < 1 \<or>
     dv_me opts \<ge> int (length (dv_replicas opts)) \<or> dv_dir opts = '''')"

text \<open>The server runs with the options for ten minutes; what \<open>diskv.StartServer\<close> does with them is not part of the repository.\<close>

definition diskvd_main :: "string list \<Rightarrow> diskv_opts cmd_outcome" where
  "diskvd_main args = (case diskvd_loop (tl args) diskv_opts0 of
      None \<Rightarrow> Usage
    | Some opts \<Rightarrow> if \<not> diskvd_valid opts then Usage else Finished opts)"

section \<open>Lock, primary/backup and view service\<close>

text \<open>The clerk's calls are parameters; the result is what is printed.\<close>

definition lockc_main :: "(string \<Rightarrow> string \<Rightarrow> string \<Rightarrow> bool) \<Rightarrow> (string \<Rightarrow> string \<Rightarrow> string \<Rightarrow> bool) \<Rightarrow> string list \<Rightarrow> bool cmd_outcome" where
  "lockc_main lock unlock args =
     (if length args = 5
      then if args ! 1 = ''-l'' then Finished (lock (args ! 2) (args ! 3) (args ! 4))
           else if args ! 1 = ''-u'' then Finished (unlock (args ! 2) (args ! 3) (args ! 4))
           else Usage
      else Usage)"

text \<open>The ports and whether the server is the primary.\<close>

definition lockd_main :: "string list \<Rightarrow> (string \<times> string \<times> bool) cmd_outcome" where
  "lockd_main args =
     (if length args = 4 \<and> args ! 1 = ''-p'' then Serving (args ! 2, args ! 3, True)
      else if length args = 4 \<and> args ! 1 = ''-b'' then Serving (args ! 2, args ! 3, False)
      else Usage)"

text \<open>A get prints the value, a put (\<open>None\<close>) prints nothing; the store is that of the service.\<close>

definition pbc_main :: "(string \<Rightarrow> 's \<Rightarrow> string \<Rightarrow> string \<times> 's) \<Rightarrow> (string \<Rightarrow> 's \<Rightarrow> string \<Rightarrow> string \<Rightarrow> 's) \<Rightarrow> string list \<Rightarrow> 's \<Rightarrow>
    (string option \<times> 's) cmd_outcome" where
  "pbc_main get put args st =
     (if length args = 3 then let (v, st) = get (args ! 1) st (args ! 2) in Finished (Some v, st)
      else if length args = 4 then Finished (None, put (args ! 1) st (args ! 2) (args ! 3))
      else Usage)"

definition pbd_main :: "string list \<Rightarrow> (string \<times> string) cmd_outcome" where
  "pbd_main args = (if length args \<noteq> 3 then Usage else Serving (args ! 1, args ! 2))"

definition viewd_main :: "string list \<Rightarrow> string cmd_outcome" where
  "viewd_main args = (if length args \<noteq> 2 then Usage else Serving (args ! 1))"

section \<open>MapReduce\<close>

text \<open>The program waits while \<open>Done\<close> is false; \<open>cs\<close> are the states of the coordinator at its looks.\<close>

fun coordinator_wait :: "Coordinator list \<Rightarrow> Coordinator option" where
  "coordinator_wait [] = None"
| "coordinator_wait (c # cs) = (if Done c = False then coordinator_wait cs else Some c)"

text \<open>
  \<open>server\<close>, which \<open>MakeCoordinator\<close> calls last: \<open>registers\<close> tells whether \<open>net/rpc\<close> accepts the coordinator, \<open>listens\<close> whether its socket
  can be opened. The goroutine that serves is started only if both do; otherwise the process ends.
\<close>

definition coordinator_server :: "bool \<Rightarrow> (string \<Rightarrow> bool) \<Rightarrow> int \<Rightarrow> Coordinator \<Rightarrow> Coordinator go" where
  "coordinator_server registers listens uid c =
     (if \<not> registers then Inl LogFatal
      else let sockName = coordinatorSock uid
           in if \<not> listens sockName then Inl LogFatal else Inr c)"

definition mrcoordinator_main :: "bool \<Rightarrow> (string \<Rightarrow> bool) \<Rightarrow> int \<Rightarrow> string list \<Rightarrow> Coordinator list \<Rightarrow> Coordinator cmd_outcome" where
  "mrcoordinator_main registers listens uid args cs =
     (if length args < 2 then Usage
      else case coordinator_server registers listens uid (MakeCoordinator (tl args) 10) of
          Inl p \<Rightarrow> Fault p
        | Inr c \<Rightarrow> (case coordinator_wait (c # cs) of None \<Rightarrow> Serving c | Some c \<Rightarrow> Finished c))"

text \<open>
  A plugin that can be loaded is a table of symbols; a symbol is the application's map function, its reduce function, or something of
  another type, on which the type assertion panics.
\<close>

datatype plugin_symbol =
    MapSym "string \<Rightarrow> string \<Rightarrow> KeyValue list"
  | ReduceSym "string \<Rightarrow> string list \<Rightarrow> string"
  | OtherSym

type_synonym plugins = "string \<Rightarrow> (string \<Rightarrow> plugin_symbol option) option"

definition loadPlugin :: "plugins \<Rightarrow> string \<Rightarrow> ((string \<Rightarrow> string \<Rightarrow> KeyValue list) \<times> (string \<Rightarrow> string list \<Rightarrow> string)) go" where
  "loadPlugin open_plugin filename = (case open_plugin filename of
      None \<Rightarrow> Inl LogFatal
    | Some p \<Rightarrow> (case p ''Map'' of
        None \<Rightarrow> Inl LogFatal
      | Some (MapSym mapf) \<Rightarrow> (case p ''Reduce'' of
          None \<Rightarrow> Inl LogFatal
        | Some (ReduceSym reducef) \<Rightarrow> Inr (mapf, reducef)
        | Some _ \<Rightarrow> Inl TypePanic)
      | Some _ \<Rightarrow> Inl TypePanic))"

text \<open>\<open>mrsequential.go\<close> has its own copy of the function.\<close>

definition seq_loadPlugin :: "plugins \<Rightarrow> string \<Rightarrow> ((string \<Rightarrow> string \<Rightarrow> KeyValue list) \<times> (string \<Rightarrow> string list \<Rightarrow> string)) go" where
  "seq_loadPlugin = loadPlugin"

text \<open>The worker runs on the loaded functions; \<open>fuel\<close> bounds the observed iterations of its loop.\<close>

definition mrworker_main :: "(nat \<Rightarrow> string \<Rightarrow> bool) \<Rightarrow> int \<Rightarrow> plugins \<Rightarrow> (KeyValue list \<Rightarrow> KeyValue list) \<Rightarrow> (string \<Rightarrow> string option) \<Rightarrow> (string \<Rightarrow> KeyValue list) \<Rightarrow>
    int \<Rightarrow> int \<Rightarrow> nat \<Rightarrow> string list \<Rightarrow> Coordinator \<Rightarrow> (Coordinator \<times> string list) cmd_outcome" where
  "mrworker_main dial uid open_plugin srt fs decode now started fuel args c =
     (if length args \<noteq> 2 then Usage
      else case loadPlugin open_plugin (args ! 1) of
        Inl p \<Rightarrow> Fault p
      | Inr (mapf, reducef) \<Rightarrow> (case Worker dial uid srt fs decode mapf reducef now started fuel c of
          (c, out, Running) \<Rightarrow> Serving (c, out)
        | (c, out, Returned) \<Rightarrow> Finished (c, out)
        | (c, out, Faulted p) \<Rightarrow> Fault p))"

section \<open>Facts\<close>

lemma parse_int_itoa:
  assumes "- (2 ^ 63) \<le> i" "i < 2 ^ 63"
  shows "parse_int (itoa i) = i"
proof -
  have digits: "list_all digit (nat_digits n)" "nat_digits n \<noteq> []" for n
    using nat_digits_digit [of n] nat_digits_nonempty [of n] by (auto simp: list_all_iff)
  show ?thesis
  proof (cases "i < 0")
    case True
    then show ?thesis using digits assms by (simp add: parse_int_def itoa_def read_nat_digits)
  next
    case False
    obtain c cs where c: "nat_digits (nat i) = c # cs" using digits(2) [of "nat i"] by (cases "nat_digits (nat i)") auto
    then have "digit c" using digits(1) [of "nat i"] by simp
    then have "c \<noteq> CHR ''-''" "c \<noteq> CHR ''+''" by (auto simp: digit_def)
    then have "parse_int (nat_digits (nat i)) = max (- (2 ^ 63)) (min (2 ^ 63 - 1) (int (read_digits (nat_digits (nat i)))))"
      using c digits [of "nat i"] by (simp add: parse_int_def)
    then show ?thesis using False assms by (simp add: itoa_def read_nat_digits)
  qed
qed

text \<open>The command line that asks for given options.\<close>

definition bool_text :: "bool \<Rightarrow> string" where
  "bool_text b = (if b then ''true'' else ''false'')"

definition diskvd_args :: "diskv_opts \<Rightarrow> string list" where
  "diskvd_args opts = [''diskvd'', ''-g'', itoa (dv_gid opts)] @ concat (map (\<lambda>m. [''-m'', m]) (dv_masters opts)) @
     concat (map (\<lambda>s. [''-s'', s]) (dv_replicas opts)) @
     [''-i'', itoa (dv_me opts), ''-u'', bool_text (dv_unreliable opts), ''-d'', dv_dir opts, ''-r'', bool_text (dv_restart opts)]"

lemma parse_bool_text: "parse_bool (bool_text b) = b"
  by (simp add: parse_bool_def bool_text_def)

lemma diskvd_loop_masters:
  "diskvd_loop (concat (map (\<lambda>m. [''-m'', m]) ms) @ rest) opts = diskvd_loop rest (opts\<lparr>dv_masters := dv_masters opts @ ms\<rparr>)"
  by (induction ms arbitrary: opts) simp_all

lemma diskvd_loop_replicas:
  "diskvd_loop (concat (map (\<lambda>s. [''-s'', s]) ss) @ rest) opts = diskvd_loop rest (opts\<lparr>dv_replicas := dv_replicas opts @ ss\<rparr>)"
  by (induction ss arbitrary: opts) simp_all

text \<open>
  The options of \<open>diskvd\<close> are read back as they were asked for; they must be acceptable, and the number of the group must fit
  64 bits.
\<close>

lemma diskvd_roundtrip:
  assumes "diskvd_valid opts" "dv_gid opts < 2 ^ 63" "length (dv_replicas opts) < 2 ^ 63"
  shows "diskvd_main (diskvd_args opts) = Finished opts"
proof -
  have "parse_int (itoa (dv_gid opts)) = dv_gid opts" "parse_int (itoa (dv_me opts)) = dv_me opts"
    using assms by (auto intro!: parse_int_itoa simp: diskvd_valid_def)
  then have "diskvd_loop (tl (diskvd_args opts)) diskv_opts0 = Some opts"
    by (simp add: diskvd_args_def diskvd_loop_masters diskvd_loop_replicas diskv_opts0_def parse_bool_text)
  then show ?thesis using assms(1) by (simp add: diskvd_main_def)
qed

text \<open>A group number that is not a number is taken for 0, which is accepted.\<close>

lemma diskvd_accepts_garbage:
  "diskvd_main [''diskvd'', ''-g'', ''x'', ''-m'', ''m'', ''-s'', ''s'', ''-i'', ''y'', ''-d'', ''d''] =
     Finished (diskv_opts0\<lparr>dv_gid := 0, dv_masters := [''m''], dv_replicas := [''s''], dv_me := 0, dv_dir := ''d''\<rparr>)"
  by (simp add: diskvd_main_def diskvd_valid_def diskv_opts0_def parse_int_def digit_def)

lemma coordinator_waits: "coordinator_wait cs = None"
  by (induction cs) (simp_all add: Done_def)

text \<open>
  C39: a distributed MapReduce job never finishes. Started with input files, the coordinator program ends at once if it cannot
  register or listen; otherwise it keeps waiting, whatever becomes of its coordinator, because \<open>Done\<close> never says that the job is done. A worker
  program started with a plugin that loads ends at once if it cannot dial the coordinator; otherwise it keeps running after any number of
  iterations, has written no file and has not changed the coordinator, because no call of it reaches a handler.
\<close>

theorem mapreduce_never_finishes:
  assumes "2 \<le> length args" "length wargs = 2" "loadPlugin open_plugin (wargs ! 1) = Inr app"
  shows "mrcoordinator_main registers listens uid args cs =
      (if registers \<and> listens (coordinatorSock uid) then Serving (MakeCoordinator (tl args) 10) else Fault LogFatal) \<and>
    mrworker_main dial uid open_plugin srt fs decode now started fuel wargs c =
      (if dial fuel (coordinatorSock uid) then Serving (c, []) else Fault LogFatal)"
  using assms
  by (cases app) (simp add: mrcoordinator_main_def coordinator_server_def mrworker_main_def coordinator_waits Worker_gets_no_task Let_def
      del: coordinator_wait.simps)

definition ex_plugins :: plugins where
  "ex_plugins f = (if f = ''wc.so'' then Some [''Map'' \<mapsto> MapSym (wc_Map (\<lambda>c. c \<noteq> CHR '' '')), ''Reduce'' \<mapsto> ReduceSym wc_Reduce] else None)"

lemma mapreduce_never_finishes_witness:
  "mrcoordinator_main True (\<lambda>_. True) 1000 [''mrcoordinator'', ''pg.txt''] [] = Serving (MakeCoordinator [''pg.txt''] 10) \<and>
   mrworker_main (\<lambda>_ _. True) 1000 ex_plugins ByKey_sort (\<lambda>_. None) (\<lambda>_. []) 0 0 5 [''mrworker'', ''wc.so''] (MakeCoordinator [''pg.txt''] 10) =
     Serving (MakeCoordinator [''pg.txt''] 10, [])"
proof -
  have "loadPlugin ex_plugins ([''mrworker'', ''wc.so''] ! 1) = Inr (wc_Map (\<lambda>c. c \<noteq> CHR '' ''), wc_Reduce)" by (simp add: loadPlugin_def ex_plugins_def)
  from mapreduce_never_finishes [OF _ _ this, of "[''mrcoordinator'', ''pg.txt'']"] show ?thesis by simp
qed

end
