(* ===== verification/Raft_Api.thy ===== *)
theory Raft_Api
  imports Prelude
begin

text \<open>
  \<open>raftapi/raftapi.go\<close>: the message type by which a Raft peer hands committed entries and
  snapshots to the service above it, and the Go \<open>any\<close> values that commands are.
\<close>

text \<open>
  Commands are values of type \<open>any\<close>. The sources build them from ints (the Raft tests), strings
  (large commands of the Raft tests, keys of the history logs) and structs of the services above;
  the structs are opaque to the code modelled here and are told apart by a number.
\<close>

datatype any = AnyNil | AnyInt int | AnyString string | AnyStruct nat

fun any_int :: "any \<Rightarrow> int option" where
  "any_int (AnyInt i) = Some i"
| "any_int _ = None"

record ApplyMsg =
  CommandValid :: bool
  Command :: any
  CommandIndex :: int
  SnapshotValid :: bool
  Snapshot :: "uint8 list"
  SnapshotTerm :: int
  SnapshotIndex :: int

end
