(* ===== verification/Persister.thy ===== *)
theory Persister
  imports Prelude
begin

text \<open>
  \<open>tester1/persister.go\<close>: the object that holds a server's Raft state and snapshot across crashes.
  \<open>Copy\<close> shares the byte arrays of the original, while \<open>Save\<close> and the read operations clone them;
  the point of the component is that this sharing can never be observed. The model therefore keeps
  an explicit heap of byte arrays, slices are references into it, and the callers' slices are part
  of the state. The specification has plain values and no sharing.
\<close>

section \<open>Byte slices\<close>

text \<open>
  A slice is nil or a reference to a whole array (the sources never re-slice these arrays); arrays
  are never freed, so allocation appends to the heap.
\<close>

type_synonym bytes = "uint8 list"
type_synonym heap = "bytes list"
type_synonym slice = "nat option"

fun slice_bytes :: "heap \<Rightarrow> slice \<Rightarrow> bytes" where
  "slice_bytes h None = []"
| "slice_bytes h (Some a) = (if a < length h then h ! a else [])"

definition clone :: "heap \<Rightarrow> slice \<Rightarrow> heap \<times> slice" where
  "clone h orig = (h @ [slice_bytes h orig], Some (length h))"

section \<open>The persister\<close>

record Persister =
  raftstate :: slice
  snapshot :: slice

definition MakePersister :: Persister where
  "MakePersister = \<lparr>raftstate = None, snapshot = None\<rparr>"

definition Persister_Copy :: "Persister \<Rightarrow> Persister" where
  "Persister_Copy ps = MakePersister\<lparr>raftstate := raftstate ps, snapshot := snapshot ps\<rparr>"

definition ReadRaftState :: "heap \<Rightarrow> Persister \<Rightarrow> heap \<times> slice" where
  "ReadRaftState h ps = clone h (raftstate ps)"

definition RaftStateSize :: "heap \<Rightarrow> Persister \<Rightarrow> nat" where
  "RaftStateSize h ps = length (slice_bytes h (raftstate ps))"

definition Persister_Save :: "heap \<Rightarrow> Persister \<Rightarrow> slice \<Rightarrow> slice \<Rightarrow> heap \<times> Persister" where
  "Persister_Save h ps rs sn =
     (let (h1, a) = clone h rs; (h2, b) = clone h1 sn
      in (h2, ps\<lparr>raftstate := a, snapshot := b\<rparr>))"

definition ReadSnapshot :: "heap \<Rightarrow> Persister \<Rightarrow> heap \<times> slice" where
  "ReadSnapshot h ps = clone h (snapshot ps)"

definition SnapshotSize :: "heap \<Rightarrow> Persister \<Rightarrow> nat" where
  "SnapshotSize h ps = length (slice_bytes h (snapshot ps))"

section \<open>Clients\<close>

text \<open>
  What the users of persisters can do: create and copy persisters, save through slices they hold,
  read (and then hold the returned slice), build byte arrays, and overwrite the arrays they hold.
  Persisters and held slices are numbered in order of creation; an operation that names one that
  does not exist does nothing.
\<close>

record world =
  wheap :: heap
  pers :: "Persister list"
  held :: "slice list"

datatype pop =
    PMake
  | PCopy nat
  | PSave nat nat nat
  | PReadState nat
  | PReadSnapshot nat
  | PAlloc bytes
  | PWrite nat bytes

definition world0 :: world where
  "world0 = \<lparr>wheap = [], pers = [], held = [None]\<rparr>"

fun world_op :: "pop \<Rightarrow> world \<Rightarrow> world" where
  "world_op PMake w = w\<lparr>pers := pers w @ [MakePersister]\<rparr>"
| "world_op (PCopy p) w =
     (if p < length (pers w) then w\<lparr>pers := pers w @ [Persister_Copy (pers w ! p)]\<rparr> else w)"
| "world_op (PSave p r s) w =
     (if p < length (pers w) \<and> r < length (held w) \<and> s < length (held w)
      then let (h, q) = Persister_Save (wheap w) (pers w ! p) (held w ! r) (held w ! s)
           in w\<lparr>wheap := h, pers := (pers w)[p := q]\<rparr>
      else w)"
| "world_op (PReadState p) w =
     (if p < length (pers w)
      then let (h, sl) = ReadRaftState (wheap w) (pers w ! p)
           in w\<lparr>wheap := h, held := held w @ [sl]\<rparr>
      else w)"
| "world_op (PReadSnapshot p) w =
     (if p < length (pers w)
      then let (h, sl) = ReadSnapshot (wheap w) (pers w ! p)
           in w\<lparr>wheap := h, held := held w @ [sl]\<rparr>
      else w)"
| "world_op (PAlloc bs) w = w\<lparr>wheap := wheap w @ [bs], held := held w @ [Some (length (wheap w))]\<rparr>"
| "world_op (PWrite i bs) w =
     (if i < length (held w)
      then case held w ! i of None \<Rightarrow> w | Some a \<Rightarrow> w\<lparr>wheap := (wheap w)[a := bs]\<rparr>
      else w)"

section \<open>Specification\<close>

text \<open>Persisters and held slices as values.\<close>

record spec =
  spers :: "(bytes \<times> bytes) list"
  sheld :: "bytes option list"

fun spec_op :: "pop \<Rightarrow> spec \<Rightarrow> spec" where
  "spec_op PMake s = s\<lparr>spers := spers s @ [([], [])]\<rparr>"
| "spec_op (PCopy p) s =
     (if p < length (spers s) then s\<lparr>spers := spers s @ [spers s ! p]\<rparr> else s)"
| "spec_op (PSave p r t) s =
     (if p < length (spers s) \<and> r < length (sheld s) \<and> t < length (sheld s)
      then s\<lparr>spers := (spers s)[p := (case_option [] id (sheld s ! r), case_option [] id (sheld s ! t))]\<rparr>
      else s)"
| "spec_op (PReadState p) s =
     (if p < length (spers s) then s\<lparr>sheld := sheld s @ [Some (fst (spers s ! p))]\<rparr> else s)"
| "spec_op (PReadSnapshot p) s =
     (if p < length (spers s) then s\<lparr>sheld := sheld s @ [Some (snd (spers s ! p))]\<rparr> else s)"
| "spec_op (PAlloc bs) s = s\<lparr>sheld := sheld s @ [Some bs]\<rparr>"
| "spec_op (PWrite i bs) s =
     (if i < length (sheld s) \<and> sheld s ! i \<noteq> None then s\<lparr>sheld := (sheld s)[i := Some bs]\<rparr> else s)"

definition pers_value :: "heap \<Rightarrow> Persister \<Rightarrow> bytes \<times> bytes" where
  "pers_value h ps = (slice_bytes h (raftstate ps), slice_bytes h (snapshot ps))"

definition abs_world :: "world \<Rightarrow> spec" where
  "abs_world w = \<lparr>spers = map (pers_value (wheap w)) (pers w),
                 sheld = map (map_option (\<lambda>a. slice_bytes (wheap w) (Some a))) (held w)\<rparr>"

section \<open>Separation\<close>

definition pers_refs :: "Persister \<Rightarrow> nat set" where
  "pers_refs ps = set_option (raftstate ps) \<union> set_option (snapshot ps)"

definition world_inv :: "world \<Rightarrow> bool" where
  "world_inv w \<longleftrightarrow>
     (\<forall>ps\<in>set (pers w). \<forall>a\<in>pers_refs ps. a < length (wheap w) \<and> Some a \<notin> set (held w)) \<and>
     (\<forall>a. Some a \<in> set (held w) \<longrightarrow> a < length (wheap w)) \<and>
     (\<forall>i j a. i < length (held w) \<longrightarrow> j < length (held w) \<longrightarrow>
        held w ! i = Some a \<longrightarrow> held w ! j = Some a \<longrightarrow> i = j)"

lemma slice_bytes_append [simp]:
  "a < length h \<Longrightarrow> slice_bytes (h @ xs) (Some a) = slice_bytes h (Some a)"
  by (simp add: nth_append)

lemma slice_bytes_new [simp]: "slice_bytes (h @ [bs]) (Some (length h)) = bs"
  by simp

lemma slice_bytes_write [simp]:
  "a \<noteq> b \<Longrightarrow> slice_bytes (h[a := bs]) (Some b) = slice_bytes h (Some b)"
  by simp

text \<open>What a persister reads depends only on the arrays it refers to.\<close>

lemma pers_value_cong:
  "(\<And>a. a \<in> pers_refs ps \<Longrightarrow> slice_bytes h (Some a) = slice_bytes h' (Some a)) \<Longrightarrow>
     pers_value h ps = pers_value h' ps"
  by (cases "raftstate ps"; cases "snapshot ps") (simp_all add: pers_value_def pers_refs_def)

lemma pers_refs_Make [simp]: "pers_refs MakePersister = {}"
  by (simp add: pers_refs_def MakePersister_def)

lemma pers_refs_Copy [simp]: "pers_refs (Persister_Copy ps) = pers_refs ps"
  by (simp add: pers_refs_def Persister_Copy_def)

lemma pers_value_Make [simp]: "pers_value h MakePersister = ([], [])"
  by (simp add: pers_value_def MakePersister_def)

lemma pers_value_Copy [simp]: "pers_value h (Persister_Copy ps) = pers_value h ps"
  by (simp add: pers_value_def Persister_Copy_def)

lemma Persister_Save_eq:
  "Persister_Save h ps rs sn =
     (h @ [slice_bytes h rs, slice_bytes (h @ [slice_bytes h rs]) sn],
      ps\<lparr>raftstate := Some (length h), snapshot := Some (Suc (length h))\<rparr>)"
  by (simp add: Persister_Save_def clone_def)

lemma world_inv_pers:
  "world_inv w \<Longrightarrow> ps \<in> set (pers w) \<Longrightarrow> a \<in> pers_refs ps \<Longrightarrow>
     a < length (wheap w) \<and> Some a \<notin> set (held w)"
  by (simp add: world_inv_def)

lemma world_inv_held: "world_inv w \<Longrightarrow> Some a \<in> set (held w) \<Longrightarrow> a < length (wheap w)"
  by (simp add: world_inv_def)

lemma world_inv_inj:
  "world_inv w \<Longrightarrow> i < length (held w) \<Longrightarrow> j < length (held w) \<Longrightarrow>
     held w ! i = Some a \<Longrightarrow> held w ! j = Some a \<Longrightarrow> i = j"
  by (simp add: world_inv_def)

lemma world_inv_alloc:
  assumes "world_inv w"
  shows "world_inv (w\<lparr>wheap := wheap w @ [bs], held := held w @ [Some (length (wheap w))]\<rparr>)"
proof -
  have fresh: "held w ! i \<noteq> Some (length (wheap w))" if "i < length (held w)" for i
    using world_inv_held [OF assms, of "length (wheap w)"] that by (metis nth_mem less_irrefl)
  show ?thesis
    unfolding world_inv_def
    using world_inv_pers [OF assms] world_inv_held [OF assms] world_inv_inj [OF assms] fresh
    by (fastforce simp: nth_append less_Suc_eq)
qed

lemma world_inv_save:
  assumes "world_inv w" "p < length (pers w)"
  shows "world_inv (w\<lparr>wheap := wheap w @ [x, y], pers := (pers w)[p := (pers w ! p)
           \<lparr>raftstate := Some (length (wheap w)), snapshot := Some (Suc (length (wheap w)))\<rparr>]\<rparr>)"
proof -
  let ?ps = "(pers w ! p)\<lparr>raftstate := Some (length (wheap w)), snapshot := Some (Suc (length (wheap w)))\<rparr>"
  have "a < Suc (Suc (length (wheap w))) \<and> Some a \<notin> set (held w)"
    if "ps \<in> set ((pers w)[p := ?ps])" and a: "a \<in> pers_refs ps" for ps a
  proof -
    from that consider "ps \<in> set (pers w)" | "ps = ?ps"
      using set_update_subset_insert by fastforce
    then show ?thesis
    proof cases
      case 1
      then show ?thesis using world_inv_pers [OF assms(1) 1 a] by simp
    next
      case 2
      then have "a = length (wheap w) \<or> a = Suc (length (wheap w))"
        using a by (auto simp: pers_refs_def)
      then show ?thesis using world_inv_held [OF assms(1), of a] by auto
    qed
  qed
  moreover have "a < Suc (Suc (length (wheap w)))" if "Some a \<in> set (held w)" for a
    using world_inv_held [OF assms(1) that] by simp
  ultimately show ?thesis
    unfolding world_inv_def using world_inv_inj [OF assms(1)] by simp
qed

lemma world_op_inv: "world_inv w \<Longrightarrow> world_inv (world_op x w)"
proof (cases x)
  case (PSave p r s)
  assume "world_inv w"
  then show ?thesis using PSave by (auto simp: Persister_Save_eq intro!: world_inv_save)
next
  case (PWrite i bs)
  assume "world_inv w"
  then show ?thesis using PWrite by (simp add: world_inv_def split: option.split)
qed (auto simp: world_inv_alloc ReadRaftState_def ReadSnapshot_def clone_def,
     auto simp: world_inv_def)

lemma abs_world_keep:
  assumes "world_inv w"
    and "\<And>a. a < length (wheap w) \<Longrightarrow> slice_bytes h (Some a) = slice_bytes (wheap w) (Some a)"
  shows "map (pers_value h) (pers w) = map (pers_value (wheap w)) (pers w)"
    and "map (map_option (\<lambda>a. slice_bytes h (Some a))) (held w) =
         map (map_option (\<lambda>a. slice_bytes (wheap w) (Some a))) (held w)"
proof -
  show "map (pers_value h) (pers w) = map (pers_value (wheap w)) (pers w)"
    by (intro map_cong [OF refl] pers_value_cong assms(2)) (use world_inv_pers [OF assms(1)] in blast)
  show "map (map_option (\<lambda>a. slice_bytes h (Some a))) (held w) =
        map (map_option (\<lambda>a. slice_bytes (wheap w) (Some a))) (held w)"
    using world_inv_held [OF assms(1)] assms(2)
    by (intro map_cong [OF refl] option.map_cong0) auto
qed

lemma abs_world_alloc:
  "world_inv w \<Longrightarrow>
     abs_world (w\<lparr>wheap := wheap w @ [bs], held := held w @ [Some (length (wheap w))]\<rparr>) =
     (abs_world w)\<lparr>sheld := sheld (abs_world w) @ [Some bs]\<rparr>"
  by (simp add: abs_world_def abs_world_keep [where h = "wheap w @ [bs]"] del: slice_bytes.simps)

lemma abs_world_write:
  assumes "world_inv w" "i < length (held w)" "held w ! i = Some a"
  shows "abs_world (w\<lparr>wheap := (wheap w)[a := bs]\<rparr>) =
         (abs_world w)\<lparr>sheld := (sheld (abs_world w))[i := Some bs]\<rparr>"
proof -
  have a: "a < length (wheap w)" "Some a \<in> set (held w)"
    using assms by (metis nth_mem world_inv_held)+
  have "map (pers_value ((wheap w)[a := bs])) (pers w) = map (pers_value (wheap w)) (pers w)"
    by (intro map_cong [OF refl] pers_value_cong slice_bytes_write)
      (use world_inv_pers [OF assms(1)] a in blast)
  moreover have "map (map_option (\<lambda>b. slice_bytes ((wheap w)[a := bs]) (Some b))) (held w) =
      (map (map_option (\<lambda>b. slice_bytes (wheap w) (Some b))) (held w))[i := Some bs]"
  proof (rule nth_equalityI; clarsimp simp del: slice_bytes.simps)
    fix j assume j: "j < length (held w)"
    show "map_option (\<lambda>b. slice_bytes ((wheap w)[a := bs]) (Some b)) (held w ! j) =
          (map (map_option (\<lambda>b. slice_bytes (wheap w) (Some b))) (held w))[i := Some bs] ! j"
      using j a world_inv_inj [OF assms(1) assms(2) j assms(3)] assms
      by (cases "held w ! j"; cases "i = j") (auto simp: nth_list_update)
  qed
  ultimately show ?thesis by (simp add: abs_world_def del: slice_bytes.simps)
qed

lemma abs_world_save:
  assumes "world_inv w" "p < length (pers w)"
  shows "abs_world (w\<lparr>wheap := wheap w @ [x, y], pers := (pers w)[p := (pers w ! p)
           \<lparr>raftstate := Some (length (wheap w)), snapshot := Some (Suc (length (wheap w)))\<rparr>]\<rparr>) =
         (abs_world w)\<lparr>spers := (spers (abs_world w))[p := (x, y)]\<rparr>"
proof -
  have "pers_value (wheap w @ [x, y]) ((pers w ! p)
      \<lparr>raftstate := Some (length (wheap w)), snapshot := Some (Suc (length (wheap w)))\<rparr>) = (x, y)"
    by (simp add: pers_value_def nth_append)
  then show ?thesis
    using assms abs_world_keep [where h = "wheap w @ [x, y]", OF assms(1) slice_bytes_append]
    by (simp add: abs_world_def map_update del: slice_bytes.simps map_eq_conv)
qed

lemma slice_bytes_held:
  "r < length (held w) \<Longrightarrow> slice_bytes (wheap w) (held w ! r) = case_option [] id (sheld (abs_world w) ! r)"
  by (cases "held w ! r") (simp_all add: abs_world_def)

lemma abs_world_lengths [simp]:
  "length (spers (abs_world w)) = length (pers w)"
  "length (sheld (abs_world w)) = length (held w)"
  by (simp_all add: abs_world_def)

lemma world_op_abs:
  assumes inv: "world_inv w"
  shows "abs_world (world_op x w) = spec_op x (abs_world w)"
proof (cases x)
  case (PSave p r s)
  have "slice_bytes (wheap w @ [bs]) (held w ! s) = slice_bytes (wheap w) (held w ! s)"
    if "s < length (held w)" for bs
    using world_inv_held [OF inv] nth_mem [OF that]
    by (cases "held w ! s") (simp_all del: slice_bytes.simps(2))
  then show ?thesis
    using PSave by (simp add: Persister_Save_eq abs_world_save [OF inv] slice_bytes_held)
next
  case (PWrite i bs)
  show ?thesis
  proof (cases "i < length (held w)")
    case True
    then show ?thesis using PWrite abs_world_write [OF inv True]
      by (cases "held w ! i") (simp_all add: abs_world_def)
  qed (simp add: PWrite)
next
  case (PReadState p)
  then show ?thesis by (simp add: ReadRaftState_def clone_def abs_world_alloc [OF inv])
      (simp add: abs_world_def pers_value_def)
next
  case (PReadSnapshot p)
  then show ?thesis by (simp add: ReadSnapshot_def clone_def abs_world_alloc [OF inv])
      (simp add: abs_world_def pers_value_def)
next
  case (PAlloc bs)
  then show ?thesis by (simp add: abs_world_alloc [OF inv])
qed (simp_all add: abs_world_def del: slice_bytes.simps)

interpretation persisters: functional_refinement world_op spec_op abs_world world_inv
  by unfold_locales (fact world_op_inv world_op_abs)+

lemma world0_inv: "world_inv world0"
  by (simp add: world_inv_def world0_def)

section \<open>Properties\<close>

text \<open>
  C12: persisters behave as values. After any sequence of creations, copies, saves, reads, new
  arrays and in-place writes by the callers through any slice they hold, every persister holds
  exactly the bytes of the specification, in which nothing is shared, and every held slice holds
  the bytes the specification gives it: a copy made at a crash keeps its contents whatever the old
  instance saves afterwards, and no caller can alter a persister through a slice it passed or got.
\<close>

theorem persister_no_aliasing:
  "abs_world (fold world_op ops world0) = fold spec_op ops \<lparr>spers = [], sheld = [None]\<rparr>"
  using persisters.run_abs [OF world0_inv] by (simp add: abs_world_def world0_def)

end
