(* ===== verification/Raft_Peer.thy ===== *)
theory Raft_Peer
  imports Raft_Api Persister
begin

text \<open>
  \<open>raft1/raft.go\<close>: one Raft peer. Its state is the struct \<open>Raft\<close>; every method is a function from
  the state to the new state and the method's result. Time is an argument, since the code reads
  \<open>time.Now()\<close> only to store or compare it. An end in \<open>peers\<close> is the number of the server it
  reaches; the calls a broadcast starts are returned as a list. Terms are Go ints; they grow by one
  per election and are unbounded here.
\<close>

section \<open>State and messages\<close>

datatype NodeRole = Follower | Leader | Candidate

record Raft_Entry =
  e_Term :: int
  e_Index :: int
  e_Command :: any

type_synonym ClientEnd = nat

record Raft =
  peers :: "ClientEnd list"
  persister :: Persister
  me :: int
  dead :: int
  currTerm :: int
  role :: NodeRole
  rlog :: "Raft_Entry list"
  votedFor :: int
  votesReceived :: int
  electionTimeout :: int
  lastHeartBeat :: int
  lastAppliedIndex :: int
  lastCommitedIndex :: int

record RequestVoteArgs =
  rv_Term :: int
  rv_CandidateId :: int
  rv_LastestLogTerm :: int
  rv_LastestLogIndex :: int

record RequestVoteReply =
  rvr_Term :: int
  rvr_VoteGranted :: bool

record AppendEntriesArgs =
  ae_Term :: int
  ae_LeaderId :: int
  ae_Entries :: "Raft_Entry list"

record AppendEntriesReply =
  aer_Term :: int
  aer_Success :: bool

section \<open>Methods\<close>

definition resetTimeout :: "int \<Rightarrow> Raft \<Rightarrow> Raft" where
  "resetTimeout now self = self\<lparr>lastHeartBeat := now\<rparr>"

definition setRole :: "NodeRole \<Rightarrow> Raft \<Rightarrow> Raft" where
  "setRole r self = self\<lparr>role := r\<rparr>"

definition checkTerm :: "int \<Rightarrow> Raft \<Rightarrow> Raft \<times> bool" where
  "checkTerm term self =
     (if term > currTerm self
      then ((setRole Follower self)\<lparr>currTerm := term, votedFor := -1\<rparr>, False)
      else (self, True))"

text \<open>
  \<open>readPersist\<close> returns at once without saved bytes, and the restoration that would follow is not
  written, so the peer is unchanged in both cases. \<open>rnd\<close> is the value of \<open>rand.Intn(150)\<close>.
\<close>

definition readPersist :: "bytes \<Rightarrow> Raft \<Rightarrow> Raft" where
  "readPersist data self = (if data = [] then self else self)"

definition dummy_entry :: Raft_Entry where
  "dummy_entry = \<lparr>e_Term = 0, e_Index = 0, e_Command = AnyInt 0\<rparr>"

definition Raft_Make :: "ClientEnd list \<Rightarrow> int \<Rightarrow> Persister \<Rightarrow> heap \<Rightarrow> int \<Rightarrow> int \<Rightarrow> Raft" where
  "Raft_Make ps i p h now rnd =
     (let self = \<lparr>peers = ps, persister = p, me = i, dead = 0, currTerm = 0, role = Follower,
                  rlog = [], votedFor = -1, votesReceived = 0,
                  electionTimeout = (150 + rnd) * 1000000, lastHeartBeat = now,
                  lastAppliedIndex = 0, lastCommitedIndex = 0\<rparr>;
          (h', data) = ReadRaftState h p;
          self = readPersist (slice_bytes h' data) self
      in self\<lparr>rlog := rlog self @ [dummy_entry]\<rparr>)"

definition broadCastAppendEntries :: "AppendEntriesArgs \<Rightarrow> Raft \<Rightarrow> (nat \<times> AppendEntriesArgs) list" where
  "broadCastAppendEntries args self =
     map (\<lambda>i. (i, args)) (filter (\<lambda>i. int i \<noteq> me self) [0..<length (peers self)])"

text \<open>What \<open>sendAppendEntries\<close> does once its RPC has returned: nothing, with or without a reply.\<close>

definition sendAppendEntries :: "bool \<Rightarrow> AppendEntriesReply \<Rightarrow> Raft \<Rightarrow> Raft" where
  "sendAppendEntries ok reply self = (if \<not> ok then self else self)"

definition AppendEntries ::
  "int \<Rightarrow> AppendEntriesArgs \<Rightarrow> AppendEntriesReply \<Rightarrow> Raft \<Rightarrow> Raft \<times> AppendEntriesReply" where
  "AppendEntries now args reply self =
     (let (self, legit) = checkTerm (ae_Term args) self
      in if legit
         then (self, reply\<lparr>aer_Success := False, aer_Term := currTerm self\<rparr>)
         else let self = (if length (ae_Entries args) = 0 then resetTimeout now self else self)
              in (self, reply\<lparr>aer_Term := currTerm self, aer_Success := True\<rparr>))"

definition preElection :: "int \<Rightarrow> Raft \<Rightarrow> Raft" where
  "preElection now self =
     self\<lparr>currTerm := currTerm self + 1, role := Candidate, votedFor := me self, lastHeartBeat := now\<rparr>"

definition broadCastVote :: "RequestVoteArgs \<Rightarrow> Raft \<Rightarrow> (nat \<times> RequestVoteArgs) list" where
  "broadCastVote args self =
     map (\<lambda>i. (i, args)) (filter (\<lambda>i. int i \<noteq> me self) [0..<length (peers self)])"

text \<open>What \<open>sendRequestVote\<close> does once its RPC has returned.\<close>

definition sendRequestVote :: "bool \<Rightarrow> RequestVoteReply \<Rightarrow> Raft \<Rightarrow> Raft" where
  "sendRequestVote ok reply self =
     (if \<not> ok then self
      else if rvr_Term reply < currTerm self then self
      else let (self, legit) = checkTerm (rvr_Term reply) self
           in if \<not> legit then self
              else let self = self\<lparr>votesReceived := votesReceived self + 1\<rparr>
                   in if votesReceived self > int (length (peers self)) div 2
                      then self\<lparr>role := Leader\<rparr> else self)"

definition last_entry :: "Raft \<Rightarrow> Raft_Entry go" where
  "last_entry self = go_index (rlog self) (int (length (rlog self)) - 1)"

definition RequestVote ::
  "int \<Rightarrow> RequestVoteArgs \<Rightarrow> RequestVoteReply \<Rightarrow> Raft \<Rightarrow> (Raft \<times> RequestVoteReply) go" where
  "RequestVote now args reply self =
     (let (self, legit) = checkTerm (rv_Term args) self;
          deny = reply\<lparr>rvr_VoteGranted := False, rvr_Term := currTerm self\<rparr>
      in if legit then Inr (self, deny)
         else case last_entry self of
           Inl p \<Rightarrow> Inl p
         | Inr e \<Rightarrow>
             if rv_LastestLogTerm args < e_Term e then Inr (self, deny)
             else if rv_LastestLogIndex args < e_Index e then Inr (self, deny)
             else let (self, reply) =
                    (if votedFor self = -1
                     then (self\<lparr>votedFor := rv_CandidateId args\<rparr>,
                           reply\<lparr>rvr_VoteGranted := True, rvr_Term := currTerm self\<rparr>)
                     else (self, reply))
                  in Inr (resetTimeout now self, reply))"

text \<open>
  The ticker goroutine reads \<open>dead\<close>, \<open>role\<close>, \<open>lastHeartBeat\<close>, \<open>currTerm\<close> and \<open>log\<close> without the lock, so other goroutines
  run between its reads. Its control points are the condition of the loop, the test of the role, the leader branch after the
  role was read, the test of the timer, the call of \<open>preElection\<close>, and the construction of the vote request after it.
\<close>

datatype ticker_pc = TickTop | TickRole | TickTimer | TickBeat | TickElect | TickArgs | TickDone

definition killed :: "Raft \<Rightarrow> bool" where
  "killed self \<longleftrightarrow> dead self = 1"

definition ticker_loop :: "Raft \<Rightarrow> ticker_pc" where
  "ticker_loop self = (if killed self then TickDone else TickRole)"

definition ticker_role :: "Raft \<Rightarrow> ticker_pc" where
  "ticker_role self = (if role self = Leader then TickBeat else TickTimer)"

definition ticker_timer :: "int \<Rightarrow> Raft \<Rightarrow> ticker_pc" where
  "ticker_timer now self = (if now - lastHeartBeat self > electionTimeout self then TickElect else TickTop)"

text \<open>The three tests when nothing happens between them.\<close>

definition ticker_top :: "int \<Rightarrow> Raft \<Rightarrow> ticker_pc" where
  "ticker_top now self =
     (case ticker_loop self of
        TickRole \<Rightarrow> (case ticker_role self of TickTimer \<Rightarrow> ticker_timer now self | pc \<Rightarrow> pc)
      | pc \<Rightarrow> pc)"

lemmas ticker_tests = ticker_top_def ticker_loop_def ticker_role_def ticker_timer_def killed_def

definition ticker_beat_args :: "Raft \<Rightarrow> AppendEntriesArgs" where
  "ticker_beat_args self = \<lparr>ae_Term = currTerm self, ae_LeaderId = me self, ae_Entries = []\<rparr>"

definition ticker_vote_args :: "Raft \<Rightarrow> RequestVoteArgs go" where
  "ticker_vote_args self =
     (case last_entry self of
        Inl p \<Rightarrow> Inl p
      | Inr e \<Rightarrow> Inr \<lparr>rv_Term = currTerm self, rv_CandidateId = me self,
                      rv_LastestLogTerm = e_Term e, rv_LastestLogIndex = e_Index e\<rparr>)"

definition Raft_GetState :: "Raft \<Rightarrow> int \<times> bool" where
  "Raft_GetState self = (currTerm self, role self = Leader)"

definition Raft_Start :: "any \<Rightarrow> Raft \<Rightarrow> Raft \<times> int \<times> int \<times> bool" where
  "Raft_Start command self = (self, -1, -1, True)"

definition Raft_Kill :: "Raft \<Rightarrow> Raft" where
  "Raft_Kill self = self\<lparr>dead := 1\<rparr>"

definition PersistBytes :: "heap \<Rightarrow> Raft \<Rightarrow> nat" where
  "PersistBytes h self = RaftStateSize h (persister self)"

definition persist :: "Raft \<Rightarrow> Raft" where
  "persist self = self"

definition Raft_Snapshot :: "int \<Rightarrow> bytes \<Rightarrow> Raft \<Rightarrow> Raft" where
  "Raft_Snapshot index snap self = self"

definition RequestVoteReply0 :: RequestVoteReply where
  "RequestVoteReply0 = \<lparr>rvr_Term = 0, rvr_VoteGranted = False\<rparr>"

definition AppendEntriesReply0 :: AppendEntriesReply where
  "AppendEntriesReply0 = \<lparr>aer_Term = 0, aer_Success = False\<rparr>"

lemmas [raft_simps] =
  resetTimeout_def setRole_def checkTerm_def preElection_def last_entry_def killed_def
  Raft_Kill_def go_index_def sendAppendEntries_def

section \<open>Behaviour of the handlers\<close>

lemma last_entry_nonempty: "rlog self \<noteq> [] \<Longrightarrow> last_entry self = Inr (last (rlog self))"
  by (simp add: last_entry_def go_index_def last_conv_nth nat_diff_distrib Suc_le_eq)

lemma last_entry_update [simp]:
  "last_entry (self\<lparr>currTerm := t\<rparr>) = last_entry self"
  "last_entry (self\<lparr>role := r\<rparr>) = last_entry self"
  "last_entry (self\<lparr>votedFor := v\<rparr>) = last_entry self"
  by (simp_all add: last_entry_def)

text \<open>A vote is granted exactly in a new term, to a candidate not behind in term nor in index.\<close>

definition grants :: "RequestVoteArgs \<Rightarrow> Raft \<Rightarrow> bool" where
  "grants args self \<longleftrightarrow> rv_Term args > currTerm self \<and>
     rv_LastestLogTerm args \<ge> e_Term (last (rlog self)) \<and>
     rv_LastestLogIndex args \<ge> e_Index (last (rlog self))"

lemma RequestVote_eq:
  assumes "rlog self \<noteq> []"
  shows "RequestVote now args RequestVoteReply0 self =
    Inr (if rv_Term args > currTerm self
         then if grants args self
              then self\<lparr>currTerm := rv_Term args, role := Follower,
                        votedFor := rv_CandidateId args, lastHeartBeat := now\<rparr>
              else self\<lparr>currTerm := rv_Term args, role := Follower, votedFor := -1\<rparr>
         else self,
         \<lparr>rvr_Term = max (rv_Term args) (currTerm self), rvr_VoteGranted = grants args self\<rparr>)"
  using assms
  by (simp add: RequestVote_def RequestVoteReply0_def raft_simps [unfolded last_entry_def]
      last_entry_nonempty grants_def Let_def del: last_entry_def)

lemma AppendEntries_eq:
  "AppendEntries now args AppendEntriesReply0 self =
     (if ae_Term args > currTerm self
      then (self\<lparr>currTerm := ae_Term args, role := Follower, votedFor := -1,
                 lastHeartBeat := if ae_Entries args = [] then now else lastHeartBeat self\<rparr>,
            \<lparr>aer_Term = ae_Term args, aer_Success = True\<rparr>)
      else (self, \<lparr>aer_Term = currTerm self, aer_Success = False\<rparr>))"
  by (simp add: AppendEntries_def AppendEntriesReply0_def checkTerm_def setRole_def resetTimeout_def)

lemma sendRequestVote_eq:
  "sendRequestVote True reply self =
     (if rvr_Term reply < currTerm self then self
      else if rvr_Term reply > currTerm self
      then self\<lparr>currTerm := rvr_Term reply, role := Follower, votedFor := -1\<rparr>
      else self\<lparr>votesReceived := votesReceived self + 1,
                role := if votesReceived self + 1 > int (length (peers self)) div 2
                        then Leader else role self\<rparr>)"
  by (simp add: sendRequestVote_def checkTerm_def setRole_def)

lemma ticker_vote_args_eq:
  "rlog self \<noteq> [] \<Longrightarrow> ticker_vote_args self =
     Inr \<lparr>rv_Term = currTerm self, rv_CandidateId = me self,
          rv_LastestLogTerm = e_Term (last (rlog self)),
          rv_LastestLogIndex = e_Index (last (rlog self))\<rparr>"
  by (simp add: ticker_vote_args_def last_entry_nonempty)

lemma Raft_Make_eq:
  "Raft_Make ps i p h now rnd =
     \<lparr>peers = ps, persister = p, me = i, dead = 0, currTerm = 0, role = Follower,
      rlog = [dummy_entry], votedFor = -1, votesReceived = 0,
      electionTimeout = (150 + rnd) * 1000000, lastHeartBeat = now,
      lastAppliedIndex = 0, lastCommitedIndex = 0\<rparr>"
  by (simp add: Raft_Make_def readPersist_def split_beta Let_def)

section \<open>The paper's rule\<close>

text \<open>
  The receiver rule for RequestVote of the Raft paper, to which the comments of the code refer:
  reject an older term, adopt a newer one, and vote for a candidate with a log at least as
  up-to-date (later last term, or the same last term and at least the same last index) unless the
  vote of the term went to another candidate.
\<close>

definition up_to_date :: "int \<times> int \<Rightarrow> int \<times> int \<Rightarrow> bool" where
  "up_to_date cand own \<longleftrightarrow> fst cand > fst own \<or> (fst cand = fst own \<and> snd cand \<ge> snd own)"

definition paper_RequestVote :: "RequestVoteArgs \<Rightarrow> Raft \<Rightarrow> int \<times> int \<times> bool" where
  "paper_RequestVote args self =
     (let (t, v) = (if rv_Term args > currTerm self then (rv_Term args, -1)
                    else (currTerm self, votedFor self));
          ok = rv_Term args \<ge> currTerm self \<and> (v = -1 \<or> v = rv_CandidateId args) \<and>
               up_to_date (rv_LastestLogTerm args, rv_LastestLogIndex args)
                          (e_Term (last (rlog self)), e_Index (last (rlog self)))
      in (t, if ok then rv_CandidateId args else v, ok))"

text \<open>
  C15: the vote handler is safe with respect to the paper. It never panics on a peer that has a log
  entry, it reports and adopts the same term as the paper's rule, and it grants exactly in a newer
  term to a candidate that is behind neither in last term nor in last index; whenever it grants, the
  paper's rule grants too and leaves the same recorded vote.
\<close>

theorem RequestVote_refines_paper:
  assumes "rlog self \<noteq> []"
  shows "\<exists>self' reply. RequestVote now args RequestVoteReply0 self = Inr (self', reply) \<and>
     currTerm self' = fst (paper_RequestVote args self) \<and>
     rvr_Term reply = currTerm self' \<and>
     (rvr_VoteGranted reply \<longleftrightarrow> grants args self) \<and>
     (rvr_VoteGranted reply \<longrightarrow>
        paper_RequestVote args self = (rv_Term args, votedFor self', True))"
  using assms by (auto simp: RequestVote_eq paper_RequestVote_def grants_def up_to_date_def Let_def)

definition peer_a :: Raft where
  "peer_a = Raft_Make [0, 1, 2] 0 MakePersister [] 0 20"

theorem RequestVote_refines_paper_witness:
  "rlog peer_a \<noteq> [] \<and>
   (\<exists>self' reply. RequestVote 7 \<lparr>rv_Term = 3, rv_CandidateId = 2, rv_LastestLogTerm = 0,
                     rv_LastestLogIndex = 0\<rparr> RequestVoteReply0 peer_a = Inr (self', reply) \<and>
      rvr_VoteGranted reply \<and> votedFor self' = 2 \<and> currTerm self' = 3)"
proof -
  let ?args = "\<lparr>rv_Term = 3, rv_CandidateId = 2, rv_LastestLogTerm = 0, rv_LastestLogIndex = 0\<rparr>"
  have ne: "rlog peer_a \<noteq> []" by (simp add: peer_a_def Raft_Make_eq)
  have g: "grants ?args peer_a" by (simp add: grants_def peer_a_def Raft_Make_eq dummy_entry_def)
  show ?thesis using RequestVote_refines_paper [OF ne, of 7 ?args] ne g
    by (auto simp: paper_RequestVote_def Let_def split: if_splits)
qed

text \<open>The effect of one heartbeat of a leader \<open>l\<close> of term \<open>t\<close> that arrives at time \<open>now\<close>.\<close>

definition heartbeat :: "int \<Rightarrow> int \<Rightarrow> int \<Rightarrow> Raft \<Rightarrow> Raft" where
  "heartbeat t l now self =
     fst (AppendEntries now \<lparr>ae_Term = t, ae_LeaderId = l, ae_Entries = []\<rparr> AppendEntriesReply0 self)"

lemma heartbeat_old: "t \<le> currTerm self \<Longrightarrow> heartbeat t l now self = self"
  by (simp add: heartbeat_def AppendEntries_eq)

lemma heartbeats_old: "t \<le> currTerm self \<Longrightarrow> fold (heartbeat t l) ts self = self"
  by (induction ts) (simp_all add: heartbeat_old)

lemma currTerm_heartbeat: "currTerm (heartbeat t l now self) = max t (currTerm self)"
  by (simp add: heartbeat_def AppendEntries_eq)

text \<open>
  C17: a leader's heartbeats do not keep its followers quiet. However many heartbeats of a term
  a peer receives, only the first can change it: all later ones are refused and do not reset the
  election timer. So one election timeout after that first heartbeat the peer's ticker starts an
  election, although the leader has been heard all the time.
\<close>

theorem heartbeats_do_not_prevent_election:
  assumes "currTerm self < t" "\<not> killed self" "now - t0 > electionTimeout self"
  shows "fold (heartbeat t l) (t0 # ts) self = heartbeat t l t0 self \<and>
         ticker_top now (fold (heartbeat t l) (t0 # ts) self) = TickElect \<and>
         snd (AppendEntries t' \<lparr>ae_Term = t, ae_LeaderId = l, ae_Entries = []\<rparr> AppendEntriesReply0
           (fold (heartbeat t l) (t0 # ts) self)) = \<lparr>aer_Term = t, aer_Success = False\<rparr>"
proof -
  have "fold (heartbeat t l) (t0 # ts) self = heartbeat t l t0 self"
    by (simp add: heartbeats_old currTerm_heartbeat)
  moreover have "ticker_top now (heartbeat t l t0 self) = TickElect"
    using assms by (simp add: heartbeat_def AppendEntries_eq ticker_tests)
  moreover have "snd (AppendEntries t' \<lparr>ae_Term = t, ae_LeaderId = l, ae_Entries = []\<rparr> AppendEntriesReply0 (heartbeat t l t0 self)) =
      \<lparr>aer_Term = t, aer_Success = False\<rparr>"
    using assms(1) by (simp add: heartbeat_def AppendEntries_eq)
  ultimately show ?thesis by simp
qed

theorem heartbeats_do_not_prevent_election_witness:
  "currTerm peer_a < 1 \<and> \<not> killed peer_a \<and>
   ticker_top 171000000 (fold (heartbeat 1 2) [0, 50000000, 100000000, 150000000] peer_a) = TickElect"
proof -
  have "currTerm peer_a < 1" "\<not> killed peer_a" "171000000 - 0 > electionTimeout peer_a"
    by (simp_all add: peer_a_def Raft_Make_eq killed_def)
  then show ?thesis
    using heartbeats_do_not_prevent_election
      [of peer_a 1 171000000 0 2 "[50000000, 100000000, 150000000]"] by blast
qed

end
