(* ===== verification/Raft_Cluster.thy ===== *)
theory Raft_Cluster
  imports Raft_Peer
begin

text \<open>
  A cluster of the peers of \<open>Raft_Peer\<close> over a network that may lose, delay and reorder requests
  and replies but runs a handler at most once per call, as \<open>labrpc\<close> does. Every critical section of
  \<open>raft1/raft.go\<close> is one step; the ticker's unlocked reads are separate steps.
\<close>

section \<open>States and steps\<close>

text \<open>
  A call in flight is a request that has not reached its server, or a reply that has not been
  handled by the goroutine waiting for it. \<open>votes\<close> records who voted for whom in which term; no step
  reads it. \<open>panicked\<close> is set when a handler or the ticker indexes out of range.
\<close>

datatype rpc =
    VoteCall nat nat RequestVoteArgs
  | VoteReturn nat nat RequestVoteReply
  | AppendCall nat nat AppendEntriesArgs
  | AppendReturn nat nat AppendEntriesReply

record cluster =
  clock :: int
  nodes :: "Raft list"
  tpcs :: "ticker_pc list"
  net :: "rpc multiset"
  votes :: "(nat \<times> int \<times> int) list"
  panicked :: bool

text \<open>The cluster after \<open>Make\<close> on every server; \<open>rnds\<close> are the random parts of the timeouts.\<close>

definition cluster_init :: "nat \<Rightarrow> (nat \<Rightarrow> int) \<Rightarrow> cluster" where
  "cluster_init n rnds =
     \<lparr>clock = 0,
      nodes = map (\<lambda>i. Raft_Make [0..<n] (int i) MakePersister [] 0 (rnds i)) [0..<n],
      tpcs = replicate n TickTop, net = {#}, votes = [], panicked = False\<rparr>"

definition node_ticks :: "cluster \<Rightarrow> nat \<Rightarrow> ticker_pc \<Rightarrow> bool" where
  "node_ticks s i pc \<longleftrightarrow> i < length (nodes s) \<and> tpcs s ! i = pc \<and> \<not> panicked s"

inductive raft_step :: "cluster \<Rightarrow> cluster \<Rightarrow> bool" where
  raft_time: "clock s \<le> t \<Longrightarrow> raft_step s (s\<lparr>clock := t\<rparr>)"
| raft_top: "node_ticks s i TickTop \<Longrightarrow>
    raft_step s (s\<lparr>tpcs := (tpcs s)[i := ticker_loop (nodes s ! i)]\<rparr>)"
| raft_role: "node_ticks s i TickRole \<Longrightarrow>
    raft_step s (s\<lparr>tpcs := (tpcs s)[i := ticker_role (nodes s ! i)]\<rparr>)"
| raft_timer: "node_ticks s i TickTimer \<Longrightarrow>
    raft_step s (s\<lparr>tpcs := (tpcs s)[i := ticker_timer (clock s) (nodes s ! i)]\<rparr>)"
| raft_beat: "node_ticks s i TickBeat \<Longrightarrow> args = ticker_beat_args (nodes s ! i) \<Longrightarrow>
    raft_step s (s\<lparr>tpcs := (tpcs s)[i := TickTop],
      net := net s + mset (map (\<lambda>(j, a). AppendCall i j a) (broadCastAppendEntries args (nodes s ! i)))\<rparr>)"
| raft_elect: "node_ticks s i TickElect \<Longrightarrow>
    raft_step s (s\<lparr>tpcs := (tpcs s)[i := TickArgs],
      nodes := (nodes s)[i := preElection (clock s) (nodes s ! i)],
      votes := (i, currTerm (nodes s ! i) + 1, me (nodes s ! i)) # votes s\<rparr>)"
| raft_args: "node_ticks s i TickArgs \<Longrightarrow> ticker_vote_args (nodes s ! i) = Inr args \<Longrightarrow>
    raft_step s (s\<lparr>tpcs := (tpcs s)[i := TickTop],
      net := net s + mset (map (\<lambda>(j, a). VoteCall i j a) (broadCastVote args (nodes s ! i)))\<rparr>)"
| raft_args_panic: "node_ticks s i TickArgs \<Longrightarrow> ticker_vote_args (nodes s ! i) = Inl p \<Longrightarrow>
    raft_step s (s\<lparr>panicked := True\<rparr>)"
| raft_vote: "VoteCall i j args \<in># net s \<Longrightarrow> j < length (nodes s) \<Longrightarrow> \<not> panicked s \<Longrightarrow>
    RequestVote (clock s) args RequestVoteReply0 (nodes s ! j) = Inr (node, reply) \<Longrightarrow>
    raft_step s (s\<lparr>nodes := (nodes s)[j := node],
      net := add_mset (VoteReturn i j reply) (net s - {#VoteCall i j args#}),
      votes := (if rvr_VoteGranted reply then (j, rvr_Term reply, votedFor node) # votes s else votes s)\<rparr>)"
| raft_vote_panic: "VoteCall i j args \<in># net s \<Longrightarrow> j < length (nodes s) \<Longrightarrow> \<not> panicked s \<Longrightarrow>
    RequestVote (clock s) args RequestVoteReply0 (nodes s ! j) = Inl p \<Longrightarrow>
    raft_step s (s\<lparr>panicked := True\<rparr>)"
| raft_voted: "VoteReturn i j reply \<in># net s \<Longrightarrow> i < length (nodes s) \<Longrightarrow> \<not> panicked s \<Longrightarrow>
    raft_step s (s\<lparr>nodes := (nodes s)[i := sendRequestVote True reply (nodes s ! i)],
      net := net s - {#VoteReturn i j reply#}\<rparr>)"
| raft_append: "AppendCall i j args \<in># net s \<Longrightarrow> j < length (nodes s) \<Longrightarrow> \<not> panicked s \<Longrightarrow>
    AppendEntries (clock s) args AppendEntriesReply0 (nodes s ! j) = (node, reply) \<Longrightarrow>
    raft_step s (s\<lparr>nodes := (nodes s)[j := node],
      net := add_mset (AppendReturn i j reply) (net s - {#AppendCall i j args#})\<rparr>)"
| raft_appended: "AppendReturn i j reply \<in># net s \<Longrightarrow> i < length (nodes s) \<Longrightarrow> \<not> panicked s \<Longrightarrow>
    raft_step s (s\<lparr>nodes := (nodes s)[i := sendAppendEntries True reply (nodes s ! i)],
      net := net s - {#AppendReturn i j reply#}\<rparr>)"
| raft_lost: "c \<in># net s \<Longrightarrow> raft_step s (s\<lparr>net := net s - {#c#}\<rparr>)"
| raft_kill: "i < length (nodes s) \<Longrightarrow>
    raft_step s (s\<lparr>nodes := (nodes s)[i := Raft_Kill (nodes s ! i)]\<rparr>)"

section \<open>Invariant\<close>

text \<open>
  What every peer satisfies: its identity and log never change, its role is consistent with its vote
  and its count of replies; and every message in flight carries a term its sender has reached.
\<close>

definition node_ok :: "nat \<Rightarrow> nat \<Rightarrow> Raft \<Rightarrow> bool" where
  "node_ok n i r \<longleftrightarrow> peers r = [0..<n] \<and> me r = int i \<and> rlog r = [dummy_entry] \<and> 0 \<le> currTerm r \<and>
     -1 \<le> votedFor r \<and> votedFor r < int n \<and> (role r = Candidate \<longrightarrow> votedFor r = me r) \<and>
     0 \<le> votesReceived r \<and> dead r \<in> {0, 1} \<and> (role r = Leader \<longrightarrow> votesReceived r > int n div 2)"

fun rpc_ok :: "Raft list \<Rightarrow> rpc \<Rightarrow> bool" where
  "rpc_ok ns (VoteCall i j a) \<longleftrightarrow> i < length ns \<and> j < length ns \<and> i \<noteq> j \<and>
     a = \<lparr>rv_Term = rv_Term a, rv_CandidateId = int i, rv_LastestLogTerm = 0, rv_LastestLogIndex = 0\<rparr> \<and>
     rv_Term a \<le> currTerm (ns ! i)"
| "rpc_ok ns (VoteReturn i j r) \<longleftrightarrow> i < length ns \<and> j < length ns \<and> i \<noteq> j \<and>
     rvr_Term r \<le> currTerm (ns ! j)"
| "rpc_ok ns (AppendCall i j a) \<longleftrightarrow> i < length ns \<and> j < length ns \<and> i \<noteq> j \<and>
     ae_Entries a = [] \<and> ae_LeaderId a = int i \<and> ae_Term a \<le> currTerm (ns ! i)"
| "rpc_ok ns (AppendReturn i j r) \<longleftrightarrow> i < length ns \<and> j < length ns \<and> i \<noteq> j \<and>
     aer_Term r \<le> currTerm (ns ! j)"

definition vote_ok :: "Raft list \<Rightarrow> nat \<times> int \<times> int \<Rightarrow> bool" where
  "vote_ok ns v \<longleftrightarrow> (case v of (i, t, c) \<Rightarrow> i < length ns \<and> t \<le> currTerm (ns ! i) \<and>
     (t = currTerm (ns ! i) \<longrightarrow> votedFor (ns ! i) = c))"

definition raft_inv :: "nat \<Rightarrow> cluster \<Rightarrow> bool" where
  "raft_inv n s \<longleftrightarrow> length (nodes s) = n \<and> length (tpcs s) = n \<and> \<not> panicked s \<and>
     (\<forall>i<n. node_ok n i (nodes s ! i)) \<and> (\<forall>c\<in>#net s. rpc_ok (nodes s) c) \<and>
     (\<forall>v\<in>set (votes s). vote_ok (nodes s) v) \<and> distinct (map (\<lambda>(i, t, c). (i, t)) (votes s))"

text \<open>How a step may change one peer.\<close>

definition node_le :: "Raft \<Rightarrow> Raft \<Rightarrow> bool" where
  "node_le r r' \<longleftrightarrow> currTerm r \<le> currTerm r' \<and>
     (currTerm r' = currTerm r \<longrightarrow> votedFor r' = votedFor r) \<and> dead r \<le> dead r'"

lemma node_le_refl [simp]: "node_le r r"
  by (simp add: node_le_def)

lemma rpc_ok_mono:
  "rpc_ok ns c \<Longrightarrow> currTerm (ns ! i) \<le> currTerm r \<Longrightarrow> rpc_ok (ns[i := r]) c"
  by (cases c) (auto simp: nth_update_if)

lemma vote_ok_mono: "vote_ok ns v \<Longrightarrow> node_le (ns ! i) r \<Longrightarrow> vote_ok (ns[i := r]) v"
  by (auto simp: vote_ok_def node_le_def nth_update_if split: if_splits)

lemma raft_inv_node: "raft_inv n s \<Longrightarrow> i < n \<Longrightarrow> node_ok n i (nodes s ! i)"
  by (simp add: raft_inv_def)

lemma raft_inv_rpc: "raft_inv n s \<Longrightarrow> c \<in># net s \<Longrightarrow> rpc_ok (nodes s) c"
  by (simp add: raft_inv_def)

lemma raft_inv_vote: "raft_inv n s \<Longrightarrow> v \<in> set (votes s) \<Longrightarrow> vote_ok (nodes s) v"
  by (simp add: raft_inv_def)

lemma raft_inv_length: "raft_inv n s \<Longrightarrow> length (nodes s) = n \<and> length (tpcs s) = n"
  by (simp add: raft_inv_def)

text \<open>
  A step that changes at most one peer keeps the invariant if the peer stays well-formed and only
  grows, every new message is well-formed, and a new vote belongs to a term the peer just entered.
\<close>

lemma raft_inv_keep:
  assumes inv: "raft_inv n s" and i: "i < n"
    and nodes: "nodes s' = (nodes s)[i := r]" "node_ok n i r" "node_le (nodes s ! i) r"
    and rest: "length (tpcs s') = n" "\<not> panicked s'"
    and net: "\<forall>c\<in>#net s'. c \<in># net s \<or> rpc_ok (nodes s') c"
    and votes: "votes s' = votes s \<or>
      votes s' = (i, currTerm r, votedFor r) # votes s \<and> currTerm (nodes s ! i) < currTerm r"
  shows "raft_inv n s'"
proof -
  have len: "length (nodes s) = n" and dist: "distinct (map (\<lambda>(i, t, c). (i, t)) (votes s))"
    using inv by (simp_all add: raft_inv_def)
  have "rpc_ok (nodes s') c" if "c \<in># net s'" for c
    using net that raft_inv_rpc [OF inv, of c] rpc_ok_mono nodes by (auto simp: node_le_def)
  moreover have old: "vote_ok (nodes s') v" if "v \<in> set (votes s)" for v
    using vote_ok_mono [OF raft_inv_vote [OF inv that] nodes(3)] nodes(1) by simp
  have "vote_ok (nodes s') v" if "v \<in> set (votes s')" for v
    using votes that old nodes(1) i len by (auto simp: vote_ok_def)
  moreover have "distinct (map (\<lambda>(i, t, c). (i, t)) (votes s'))"
  proof -
    have "(i, currTerm r, c) \<notin> set (votes s)" if "currTerm (nodes s ! i) < currTerm r" for c
      using raft_inv_vote [OF inv, of "(i, currTerm r, c)"] that by (auto simp: vote_ok_def)
    then show ?thesis using votes dist by auto
  qed
  moreover have "node_ok n j (nodes s' ! j)" if "j < n" for j
    using raft_inv_node [OF inv that] nodes len that by (auto simp: nth_update_if)
  ultimately show ?thesis using rest nodes(1) len by (simp add: raft_inv_def)
qed

lemma raft_inv_same:
  assumes "raft_inv n s" "nodes s' = nodes s" "votes s' = votes s" "length (tpcs s') = n"
    "\<not> panicked s'" "\<forall>c\<in>#net s'. c \<in># net s \<or> rpc_ok (nodes s') c"
  shows "raft_inv n s'"
  using assms by (auto simp: raft_inv_def)

lemma node_ok_log: "node_ok n i r \<Longrightarrow> rlog r \<noteq> []"
  by (simp add: node_ok_def)

lemma node_ok_preElection:
  "node_ok n i r \<Longrightarrow> i < n \<Longrightarrow> node_ok n i (preElection t r) \<and> node_le r (preElection t r)"
  by (auto simp: node_ok_def preElection_def node_le_def)

lemma node_ok_RequestVote:
  assumes "node_ok n i r" "RequestVote t args RequestVoteReply0 r = Inr (r', reply)"
    "0 \<le> rv_CandidateId args" "rv_CandidateId args < int n"
  shows "node_ok n i r' \<and> node_le r r' \<and> rvr_Term reply = currTerm r' \<and>
    (rvr_VoteGranted reply \<longrightarrow> currTerm r < currTerm r')"
proof (cases "rv_Term args > currTerm r")
  case True
  then have r': "r' = (if grants args r
      then r\<lparr>currTerm := rv_Term args, role := Follower, votedFor := rv_CandidateId args, lastHeartBeat := t\<rparr>
      else r\<lparr>currTerm := rv_Term args, role := Follower, votedFor := -1\<rparr>)"
    and "rvr_Term reply = rv_Term args"
    using assms(2) RequestVote_eq [OF node_ok_log [OF assms(1)]] by auto
  then show ?thesis using assms(1,3,4) True by (simp add: node_ok_def node_le_def)
next
  case False
  then show ?thesis
    using assms by (auto simp: RequestVote_eq [OF node_ok_log] grants_def)
qed

lemma node_ok_AppendEntries:
  assumes "node_ok n i r" "AppendEntries t args AppendEntriesReply0 r = (r', reply)"
  shows "node_ok n i r' \<and> node_le r r' \<and> aer_Term reply = currTerm r'"
proof -
  have "r' = fst (AppendEntries t args AppendEntriesReply0 r)"
    "reply = snd (AppendEntries t args AppendEntriesReply0 r)" using assms(2) by simp_all
  then show ?thesis using assms(1) by (simp add: AppendEntries_eq node_ok_def node_le_def)
qed

lemma node_ok_sendRequestVote:
  "node_ok n i r \<Longrightarrow> node_ok n i (sendRequestVote True reply r) \<and> node_le r (sendRequestVote True reply r)"
  by (auto simp: node_ok_def node_le_def sendRequestVote_eq)

lemma node_ok_Kill: "node_ok n i r \<Longrightarrow> node_ok n i (Raft_Kill r) \<and> node_le r (Raft_Kill r)"
  by (auto simp: node_ok_def node_le_def Raft_Kill_def)

lemma raft_inv_init: "raft_inv n (cluster_init n rnds)"
  by (simp add: raft_inv_def cluster_init_def node_ok_def Raft_Make_eq)

lemma raft_inv_step: "raft_step s s' \<Longrightarrow> raft_inv n s \<Longrightarrow> raft_inv n s'"
proof (induction rule: raft_step.induct)
  case (raft_time s t)
  then show ?case by (auto simp: raft_inv_def)
next
  case (raft_top s i)
  then show ?case by (auto intro: raft_inv_same simp: raft_inv_def)
next
  case (raft_role s i)
  then show ?case by (auto intro: raft_inv_same simp: raft_inv_def)
next
  case (raft_timer s i)
  then show ?case by (auto intro: raft_inv_same simp: raft_inv_def)
next
  case (raft_beat s i args)
  have ok: "i < n" "node_ok n i (nodes s ! i)"
    using raft_beat by (auto simp: node_ticks_def raft_inv_def)
  show ?case
    by (rule raft_inv_same [OF raft_beat.prems])
      (use raft_beat ok raft_inv_length [OF raft_beat.prems] in
        \<open>auto simp: raft_inv_def node_ok_def broadCastAppendEntries_def ticker_beat_args_def\<close>)
next
  case (raft_elect s i)
  have ok: "i < n" "node_ok n i (nodes s ! i)"
    using raft_elect by (auto simp: node_ticks_def raft_inv_def)
  show ?case
    by (rule raft_inv_keep [OF raft_elect.prems ok(1), where r = "preElection (clock s) (nodes s ! i)"])
      (use raft_elect node_ok_preElection [OF ok(2,1)] in \<open>auto simp: raft_inv_def preElection_def\<close>)
next
  case (raft_args s i args)
  have ok: "i < n" "node_ok n i (nodes s ! i)"
    using raft_args by (auto simp: node_ticks_def raft_inv_def)
  show ?case
    by (rule raft_inv_same [OF raft_args.prems])
      (use raft_args ok raft_inv_length [OF raft_args.prems] in
        \<open>auto simp: raft_inv_def node_ok_def broadCastVote_def ticker_vote_args_eq dummy_entry_def\<close>)
next
  case (raft_args_panic s i p)
  then show ?case
    using ticker_vote_args_eq [OF node_ok_log [OF raft_inv_node [OF raft_args_panic.prems, of i]]]
    by (auto simp: node_ticks_def raft_inv_def)
next
  case (raft_vote i j args s node reply)
  have rpc: "rpc_ok (nodes s) (VoteCall i j args)" using raft_vote raft_inv_rpc by blast
  have j: "j < n" "length (nodes s) = n" using raft_vote by (auto simp: raft_inv_def)
  have cand: "rv_CandidateId args = int i" "i < n"
    using rpc j by (cases args, auto)+
  note ok = node_ok_RequestVote [OF raft_inv_node [OF raft_vote.prems j(1)] raft_vote.hyps(4)]
  show ?case
    by (rule raft_inv_keep [OF raft_vote.prems j(1), where r = node])
      (use raft_vote j ok cand rpc in \<open>auto simp: raft_inv_def dest: in_diffD\<close>)
next
  case (raft_vote_panic i j args s p)
  then show ?case
    using RequestVote_eq [OF node_ok_log [OF raft_inv_node [OF raft_vote_panic.prems, of j]]]
    by (auto simp: raft_inv_def)
next
  case (raft_voted i j reply s)
  have i: "i < n" using raft_voted by (auto simp: raft_inv_def)
  show ?case
    by (rule raft_inv_keep [OF raft_voted.prems i, where r = "sendRequestVote True reply (nodes s ! i)"])
      (use raft_voted i node_ok_sendRequestVote raft_inv_node [OF raft_voted.prems i] in
        \<open>auto simp: raft_inv_def dest: in_diffD\<close>)
next
  case (raft_append i j args s node reply)
  have rpc: "rpc_ok (nodes s) (AppendCall i j args)" using raft_append raft_inv_rpc by blast
  have j: "j < n" "length (nodes s) = n" using raft_append by (auto simp: raft_inv_def)
  note ok = node_ok_AppendEntries [OF raft_inv_node [OF raft_append.prems j(1)] raft_append.hyps(4)]
  show ?case
    by (rule raft_inv_keep [OF raft_append.prems j(1), where r = node])
      (use raft_append j ok rpc in \<open>auto simp: raft_inv_def dest: in_diffD\<close>)
next
  case (raft_appended i j reply s)
  then show ?case
    by (auto intro!: raft_inv_same [OF raft_appended.prems] dest: in_diffD
        simp: sendAppendEntries_def raft_inv_length [OF raft_appended.prems])
next
  case (raft_lost c s)
  then show ?case
    by (auto intro!: raft_inv_same [OF raft_lost.prems] dest: in_diffD
        simp: raft_inv_length [OF raft_lost.prems]) (simp add: raft_inv_def)
next
  case (raft_kill i s)
  have i: "i < n" using raft_kill by (auto simp: raft_inv_def)
  show ?case
    by (rule raft_inv_keep [OF raft_kill.prems i, where r = "Raft_Kill (nodes s ! i)"])
      (use raft_kill i node_ok_Kill raft_inv_node [OF raft_kill.prems i] in \<open>auto simp: raft_inv_def\<close>)
qed

interpretation raft: invariant_system "cluster_init n rnds" raft_step "raft_inv n" for n rnds
  by unfold_locales (fact raft_inv_init raft_inv_step)+

section \<open>Scripted runs\<close>

text \<open>
  An executable form of the steps, for concrete runs: a script names the step to take, and a run
  whose guards all hold is a run of the cluster.
\<close>

datatype raft_act =
    ATime int
  | ATop nat
  | ARole nat
  | ATimer nat
  | ABeat nat
  | AElect nat
  | AArgs nat
  | AVote nat nat RequestVoteArgs
  | AVoted nat nat RequestVoteReply
  | AAppend nat nat AppendEntriesArgs

fun raft_exec :: "raft_act \<Rightarrow> cluster \<Rightarrow> cluster option" where
  "raft_exec (ATime t) s = (if clock s \<le> t then Some (s\<lparr>clock := t\<rparr>) else None)"
| "raft_exec (ATop i) s = (if node_ticks s i TickTop
     then Some (s\<lparr>tpcs := (tpcs s)[i := ticker_loop (nodes s ! i)]\<rparr>) else None)"
| "raft_exec (ARole i) s = (if node_ticks s i TickRole
     then Some (s\<lparr>tpcs := (tpcs s)[i := ticker_role (nodes s ! i)]\<rparr>) else None)"
| "raft_exec (ATimer i) s = (if node_ticks s i TickTimer
     then Some (s\<lparr>tpcs := (tpcs s)[i := ticker_timer (clock s) (nodes s ! i)]\<rparr>) else None)"
| "raft_exec (ABeat i) s = (if node_ticks s i TickBeat
     then Some (s\<lparr>tpcs := (tpcs s)[i := TickTop], net := net s + mset (map (\<lambda>(j, a). AppendCall i j a)
            (broadCastAppendEntries (ticker_beat_args (nodes s ! i)) (nodes s ! i)))\<rparr>)
     else None)"
| "raft_exec (AElect i) s = (if node_ticks s i TickElect
     then Some (s\<lparr>tpcs := (tpcs s)[i := TickArgs],
            nodes := (nodes s)[i := preElection (clock s) (nodes s ! i)],
            votes := (i, currTerm (nodes s ! i) + 1, me (nodes s ! i)) # votes s\<rparr>)
     else None)"
| "raft_exec (AArgs i) s = (if node_ticks s i TickArgs
     then case ticker_vote_args (nodes s ! i) of
            Inl p \<Rightarrow> None
          | Inr args \<Rightarrow> Some (s\<lparr>tpcs := (tpcs s)[i := TickTop],
              net := net s + mset (map (\<lambda>(j, a). VoteCall i j a) (broadCastVote args (nodes s ! i)))\<rparr>)
     else None)"
| "raft_exec (AVote i j args) s =
     (if VoteCall i j args \<in># net s \<and> j < length (nodes s) \<and> \<not> panicked s
      then case RequestVote (clock s) args RequestVoteReply0 (nodes s ! j) of
             Inl p \<Rightarrow> None
           | Inr (node, reply) \<Rightarrow> Some (s\<lparr>nodes := (nodes s)[j := node],
               net := add_mset (VoteReturn i j reply) (net s - {#VoteCall i j args#}),
               votes := (if rvr_VoteGranted reply
                         then (j, rvr_Term reply, votedFor node) # votes s else votes s)\<rparr>)
      else None)"
| "raft_exec (AVoted i j reply) s =
     (if VoteReturn i j reply \<in># net s \<and> i < length (nodes s) \<and> \<not> panicked s
      then Some (s\<lparr>nodes := (nodes s)[i := sendRequestVote True reply (nodes s ! i)],
                  net := net s - {#VoteReturn i j reply#}\<rparr>)
      else None)"
| "raft_exec (AAppend i j args) s =
     (if AppendCall i j args \<in># net s \<and> j < length (nodes s) \<and> \<not> panicked s
      then case AppendEntries (clock s) args AppendEntriesReply0 (nodes s ! j) of
             (node, reply) \<Rightarrow> Some (s\<lparr>nodes := (nodes s)[j := node],
               net := add_mset (AppendReturn i j reply) (net s - {#AppendCall i j args#})\<rparr>)
      else None)"

fun raft_run :: "raft_act list \<Rightarrow> cluster \<Rightarrow> cluster option" where
  "raft_run [] s = Some s"
| "raft_run (a # as) s = (case raft_exec a s of None \<Rightarrow> None | Some t \<Rightarrow> raft_run as t)"

lemma raft_exec_step:
  assumes "raft_exec a s = Some t"
  shows "raft_step s t"
proof (cases a)
  case (AVote i j args)
  have guard: "VoteCall i j args \<in># net s \<and> j < length (nodes s) \<and> \<not> panicked s"
    using assms AVote by (simp split: if_split_asm)
  then show ?thesis
    using assms AVote raft_vote [of i j args s]
    by (auto split: sum.split_asm prod.split_asm split del: if_split)
qed (use assms in \<open>auto split: if_splits sum.splits prod.splits intro: raft_step.intros simp del: mset_map\<close>)

lemma raft_run_reachable:
  "raft_run as s = Some t \<Longrightarrow> reachable init raft_step s \<Longrightarrow> reachable init raft_step t"
  by (induction as arbitrary: s)
    (auto split: option.splits dest!: raft_exec_step intro: reach_step)

lemmas raft_run_init = raft_run_reachable [OF _ reach_init]

definition vargs :: "int \<Rightarrow> nat \<Rightarrow> RequestVoteArgs" where
  "vargs t i = \<lparr>rv_Term = t, rv_CandidateId = int i, rv_LastestLogTerm = 0, rv_LastestLogIndex = 0\<rparr>"

definition start_election :: "nat \<Rightarrow> raft_act list" where
  "start_election i = [ATop i, ARole i, ATimer i, AElect i, AArgs i]"

text \<open>
  Peers 0 and 1 time out together and both enter term 1. Peer 2 votes for 0; peers 0 and 1
  refuse each other and peer 2 refuses 1, but all four replies carry term 1.
\<close>

definition two_leaders_script :: "raft_act list" where
  "two_leaders_script = ATime 300000000 # start_election 0 @ start_election 1 @
     [AVote 0 1 (vargs 1 0), AVote 0 2 (vargs 1 0), AVote 1 0 (vargs 1 1), AVote 1 2 (vargs 1 1),
      AVoted 0 1 \<lparr>rvr_Term = 1, rvr_VoteGranted = False\<rparr>, AVoted 0 2 \<lparr>rvr_Term = 1, rvr_VoteGranted = True\<rparr>,
      AVoted 1 0 \<lparr>rvr_Term = 1, rvr_VoteGranted = False\<rparr>, AVoted 1 2 \<lparr>rvr_Term = 1, rvr_VoteGranted = False\<rparr>]"

lemmas raft_eval =
  cluster_init_def Raft_Make_eq start_election_def node_ticks_def vargs_def ticker_tests
  preElection_def ticker_vote_args_eq broadCastVote_def dummy_entry_def RequestVote_eq grants_def
  sendRequestVote_eq upt_rec numeral_2_eq_2 numeral_3_eq_3

lemma two_leaders_run:
  "\<exists>s. raft_run two_leaders_script (cluster_init 3 (\<lambda>_. 0)) = Some s \<and>
       Raft_GetState (nodes s ! 0) = (1, True) \<and> Raft_GetState (nodes s ! 1) = (1, True) \<and>
       currTerm (nodes s ! 2) = 1 \<and> length (votes s) = 3 \<and>
       votes s = [(2, 1, 0), (1, 1, 1), (0, 1, 0)]"
  by (simp add: two_leaders_script_def raft_eval Raft_GetState_def)

section \<open>Properties\<close>

text \<open>
  C13: the voting rule of Raft holds. In every reachable state of a cluster of any size, each peer
  has voted at most once in each term, counting the vote a candidate gives itself, no handler and no
  ticker has panicked, and every peer is well-formed: a candidate has voted for itself, a leader has
  counted replies from more than half of the peers, and every log still holds only its dummy entry.
\<close>

theorem one_vote_per_term:
  assumes "reachable (cluster_init n rnds) raft_step s"
  shows "distinct (map (\<lambda>(voter, term, cand). (voter, term)) (votes s)) \<and> \<not> panicked s \<and>
         (\<forall>i<n. node_ok n i (nodes s ! i))"
  using raft.inv_reachable [OF assms] by (simp add: raft_inv_def)

theorem one_vote_per_term_witness:
  "\<exists>s. reachable (cluster_init 3 (\<lambda>_. 0)) raft_step s \<and> length (votes s) = 3 \<and>
       distinct (map (\<lambda>(voter, term, cand). (voter, term)) (votes s))"
proof -
  obtain s where s: "raft_run two_leaders_script (cluster_init 3 (\<lambda>_. 0)) = Some s"
    and "length (votes s) = 3" using two_leaders_run by blast
  with one_vote_per_term [OF raft_run_init [OF s]] raft_run_init [OF s] show ?thesis by blast
qed

text \<open>
  A cluster of one peer never has a leader. No RPC is ever in flight in it, since a candidate
  asks only the others, and the code decides an election only when a reply arrives and does
  not count the candidate's own vote.
\<close>

theorem single_peer_never_leads:
  assumes "reachable (cluster_init 1 rnds) raft_step s"
  shows "net s = {#} \<and> snd (Raft_GetState (nodes s ! 0)) = False"
proof -
  have empty: "net t = {#}" if "raft_inv 1 t" for t
  proof (rule ccontr)
    assume "net t \<noteq> {#}"
    then obtain c where "c \<in># net t" by blast
    then have "rpc_ok (nodes t) c" "length (nodes t) = 1"
      using that raft_inv_rpc raft_inv_length by blast+
    then show False by (cases c) auto
  qed
  have "role (nodes s ! 0) \<noteq> Leader"
    using assms
  proof (induction rule: reachable.induct)
    case reach_init
    then show ?case by (simp add: cluster_init_def Raft_Make_eq)
  next
    case (reach_step s t)
    then have "net s = {#}" "length (nodes s) = 1"
      using empty raft.inv_reachable raft_inv_length by blast+
    with reach_step(2,3) show ?case
      by (auto elim!: raft_step.cases simp: node_ticks_def preElection_def Raft_Kill_def)
  qed
  then show ?thesis using empty [OF raft.inv_reachable [OF assms]] by (simp add: Raft_GetState_def)
qed

theorem single_peer_never_leads_witness:
  "reachable (cluster_init 1 (\<lambda>_. 0)) raft_step
     ((cluster_init 1 (\<lambda>_. 0))\<lparr>clock := 5\<rparr>) \<and>
   snd (Raft_GetState (nodes ((cluster_init 1 (\<lambda>_. 0))\<lparr>clock := 5\<rparr>) ! 0)) = False"
proof -
  have r: "reachable (cluster_init 1 (\<lambda>_. 0)) raft_step ((cluster_init 1 (\<lambda>_. 0))\<lparr>clock := 5\<rparr>)"
    by (rule raft_run_init [where as = "[ATime 5]"]) (simp add: cluster_init_def)
  then show ?thesis using single_peer_never_leads [OF r] by simp
qed

text \<open>
  C14: election safety fails. In a cluster of three peers a state is reachable in which two peers
  both report, from \<open>GetState\<close>, that they lead the same term, although every peer has voted at most
  once: \<open>sendRequestVote\<close> counts every reply that carries the current term as a vote, whether or
  not the vote was granted.
\<close>

theorem election_safety_fails:
  "\<exists>s. reachable (cluster_init 3 (\<lambda>_. 0)) raft_step s \<and>
       Raft_GetState (nodes s ! 0) = (1, True) \<and> Raft_GetState (nodes s ! 1) = (1, True) \<and>
       votes s = [(2, 1, 0), (1, 1, 1), (0, 1, 0)]"
  using two_leaders_run raft_run_init by blast

section \<open>Replies of older terms\<close>

text \<open>
  Peer 0 of a cluster of five runs for leader in the terms 1, 2 and 3, and in each term only peer 2
  answers, with its vote.
\<close>

definition stale_replies_script :: "raft_act list" where
  "stale_replies_script =
     concat (map (\<lambda>t. ATime (t * 300000000) # start_election 0 @
       [AVote 0 2 (vargs t 0), AVoted 0 2 \<lparr>rvr_Term = t, rvr_VoteGranted = True\<rparr>]) [1, 2, 3])"

text \<open>
  The counter of replies is never cleared, although a comment says that a new term clears it: a peer
  leads a term in which it has two of five votes, because it counts the answers of earlier terms.
\<close>

theorem stale_replies_elect:
  "\<exists>s. reachable (cluster_init 5 (\<lambda>_. 0)) raft_step s \<and> Raft_GetState (nodes s ! 0) = (3, True) \<and>
       filter (\<lambda>(voter, t, c). t = 3) (votes s) = [(2, 3, 0), (0, 3, 0)]"
proof -
  obtain s where s: "raft_run stale_replies_script (cluster_init 5 (\<lambda>_. 0)) = Some s"
    and "Raft_GetState (nodes s ! 0) = (3, True)" "filter (\<lambda>(voter, t, c). t = 3) (votes s) = [(2, 3, 0), (0, 3, 0)]"
    by (simp add: stale_replies_script_def raft_eval eval_nat_numeral Raft_GetState_def)
  with raft_run_init [OF s] show ?thesis by blast
qed

section \<open>Crashes and restarts\<close>

text \<open>
  A peer that crashes and is started again is made by \<open>Make\<close> from what its predecessor saved; \<open>h\<close> is the heap that
  holds the saved bytes. The calls to and from the crashed peer fail. Since \<open>persist\<close> saves nothing and \<open>readPersist\<close>
  restores nothing, the new peer has term 0 and no vote.
\<close>

fun rpc_of :: "nat \<Rightarrow> rpc \<Rightarrow> bool" where
  "rpc_of k (VoteCall i j a) \<longleftrightarrow> k = i \<or> k = j"
| "rpc_of k (VoteReturn i j a) \<longleftrightarrow> k = i \<or> k = j"
| "rpc_of k (AppendCall i j a) \<longleftrightarrow> k = i \<or> k = j"
| "rpc_of k (AppendReturn i j a) \<longleftrightarrow> k = i \<or> k = j"

definition restart_node :: "nat \<Rightarrow> heap \<Rightarrow> int \<Rightarrow> cluster \<Rightarrow> cluster" where
  "restart_node i h rnd s =
     (let old = persist (nodes s ! i)
      in s\<lparr>nodes := (nodes s)[i := Raft_Make (peers old) (me old) (persister old) h (clock s) rnd],
           tpcs := (tpcs s)[i := TickTop], net := filter_mset (\<lambda>c. \<not> rpc_of i c) (net s)\<rparr>)"

inductive crash_step :: "cluster \<Rightarrow> cluster \<Rightarrow> bool" where
  crash_run: "raft_step s s' \<Longrightarrow> crash_step s s'"
| crash_restart: "i < length (nodes s) \<Longrightarrow> crash_step s (restart_node i h rnd s)"

text \<open>
  In a cluster of five, peers 2, 3 and 4 vote for peer 0 in term 1, restart, and vote for peer 1 in term 1.
\<close>

definition majority_for :: "nat \<Rightarrow> raft_act list" where
  "majority_for c = start_election c @
     concat (map (\<lambda>j. [AVote c j (vargs 1 c), AVoted c j \<lparr>rvr_Term = 1, rvr_VoteGranted = True\<rparr>]) [2, 3, 4])"

definition restart_all :: "cluster \<Rightarrow> cluster" where
  "restart_all s = restart_node 4 [] 0 (restart_node 3 [] 0 (restart_node 2 [] 0 s))"

lemma crash_run_reachable:
  "raft_run as s = Some t \<Longrightarrow> reachable init crash_step s \<Longrightarrow> reachable init crash_step t"
  by (induction as arbitrary: s)
    (auto split: option.splits dest!: raft_exec_step intro: reach_step crash_run)

lemma restart_reachable:
  "reachable init crash_step s \<Longrightarrow> i < length (nodes s) \<Longrightarrow> reachable init crash_step (restart_node i h rnd s)"
  by (rule reach_step, assumption, rule crash_restart)

lemma length_restart [simp]: "length (nodes (restart_node i h rnd s)) = length (nodes s)"
  by (simp add: restart_node_def Let_def)

lemma restart_all_reachable:
  "reachable init crash_step s \<Longrightarrow> length (nodes s) = 5 \<Longrightarrow> reachable init crash_step (restart_all s)"
  by (simp add: restart_all_def restart_reachable)

text \<open>
  C16: a crash makes peers vote twice. With restarts, a cluster of five reaches a state in which peers 0 and 1 both report that
  they lead term 1, each elected by granted votes of peers 2, 3 and 4 and by no refusal: these have voted for peer 0, crashed,
  and voted for peer 1 in the same term, because neither term nor vote is saved.
\<close>

theorem restarted_peers_vote_twice:
  "\<exists>s. reachable (cluster_init 5 (\<lambda>_. 0)) crash_step s \<and>
       Raft_GetState (nodes s ! 0) = (1, True) \<and> Raft_GetState (nodes s ! 1) = (1, True) \<and>
       votes s = [(4, 1, 1), (3, 1, 1), (2, 1, 1), (1, 1, 1), (4, 1, 0), (3, 1, 0), (2, 1, 0), (0, 1, 0)]"
proof -
  obtain s where s: "raft_run (ATime 300000000 # majority_for 0) (cluster_init 5 (\<lambda>_. 0)) = Some s"
    and len: "length (nodes s) = 5"
    and "\<exists>t. raft_run (majority_for 1) (restart_all s) = Some t \<and>
       Raft_GetState (nodes t ! 0) = (1, True) \<and> Raft_GetState (nodes t ! 1) = (1, True) \<and>
       votes t = [(4, 1, 1), (3, 1, 1), (2, 1, 1), (1, 1, 1), (4, 1, 0), (3, 1, 0), (2, 1, 0), (0, 1, 0)]"
    by (simp add: majority_for_def restart_all_def restart_node_def persist_def raft_eval eval_nat_numeral Raft_GetState_def)
  then show ?thesis
    using crash_run_reachable [OF _ restart_all_reachable [OF crash_run_reachable [OF s reach_init] len]] by blast
qed

end
