(* ===== verification/Raft_Tester.thy ===== *)
theory Raft_Tester
  imports Raft_Cluster
begin

text \<open>
  \<open>raft1/server.go\<close> and \<open>raft1/test.go\<close>: the tester of Raft. Per server it keeps a copy of the
  committed entries, filled from the apply channel, and checks every message against the copies of all
  servers; its other checks read the peers' states. What the checks observe over time is given as
  lists of observations. Failed checks end the process (\<open>log.Fatalf\<close>) or the test; the texts of the
  messages and annotations are dropped, so an error message is a boolean.
\<close>

section \<open>State\<close>

definition SnapShotInterval :: int where
  "SnapShotInterval = 10"

record rfsrv =
  rs_me :: nat
  rs_applyErr :: bool
  rs_lastApplied :: int
  rs_alive :: bool
  rs_logs :: "int \<rightharpoonup> any"

record Test =
  ts_n :: nat
  ts_finished :: int
  ts_srvs :: "rfsrv list"
  ts_maxIndex :: int
  ts_snapshot :: bool

text \<open>\<open>decode\<close> reads the last included index and the entries from a snapshot, if it can.\<close>

definition ingestSnap :: "(bytes \<Rightarrow> (int \<times> any list) option) \<Rightarrow> bytes option \<Rightarrow> int \<Rightarrow> rfsrv \<Rightarrow> (rfsrv \<times> bool) go" where
  "ingestSnap decode snap index rs = (case snap of
      None \<Rightarrow> Inl LogFatal
    | Some bs \<Rightarrow> (case decode bs of
        None \<Rightarrow> Inl LogFatal
      | Some (lastIncludedIndex, xlog) \<Rightarrow>
          if index \<noteq> -1 \<and> index \<noteq> lastIncludedIndex then Inr (rs, True)
          else Inr (rs\<lparr>rs_logs := (\<lambda>j. if 0 \<le> j \<and> j < int (length xlog) then Some (xlog ! nat j) else None),
                       rs_lastApplied := lastIncludedIndex\<rparr>, False)))"

definition newRfsrv :: "(bytes \<Rightarrow> (int \<times> any list) option) \<Rightarrow> nat \<Rightarrow> bytes \<Rightarrow> bool \<Rightarrow> rfsrv go" where
  "newRfsrv decode srv saved withSnap =
     (let s = \<lparr>rs_me = srv, rs_applyErr = False, rs_lastApplied = 0, rs_alive = True, rs_logs = Map.empty\<rparr>
      in if withSnap \<and> saved \<noteq> []
         then case ingestSnap decode (Some saved) (-1) s of
                Inl p \<Rightarrow> Inl p
              | Inr (s, err) \<Rightarrow> if err then Inl TestFatal else Inr s
         else Inr s)"

text \<open>Stopping a server copies its saved state to a fresh array of the same contents.\<close>

definition rfsrv_Kill :: "rfsrv \<Rightarrow> heap \<Rightarrow> Persister \<Rightarrow> rfsrv \<times> heap \<times> Persister" where
  "rfsrv_Kill rs h ps =
     (let (h, rl) = ReadRaftState h ps; (h, sn) = ReadSnapshot h ps; (h, ps) = Persister_Save h ps rl sn
      in (rs\<lparr>rs_alive := False\<rparr>, h, ps))"

text \<open>\<open>GetState\<close> calls the Raft interface, which is nil after \<open>Kill\<close>.\<close>

definition rfsrv_GetState :: "Raft \<Rightarrow> rfsrv \<Rightarrow> (int \<times> bool) go" where
  "rfsrv_GetState rf rs = (if rs_alive rs then Inr (Raft_GetState rf) else Inl NilPanic)"

definition rfsrv_Raft :: "Raft \<Rightarrow> rfsrv \<Rightarrow> Raft option" where
  "rfsrv_Raft rf rs = (if rs_alive rs then Some rf else None)"

definition Logs :: "int \<Rightarrow> rfsrv \<Rightarrow> any option" where
  "Logs i rs = rs_logs rs i"

section \<open>Checks of applied entries\<close>

definition checkLogs :: "nat \<Rightarrow> ApplyMsg \<Rightarrow> Test \<Rightarrow> (Test \<times> bool \<times> bool) go" where
  "checkLogs i m ts =
     (let err = list_ex (\<lambda>rs. case Logs (CommandIndex m) rs of None \<Rightarrow> False | Some old \<Rightarrow> old \<noteq> Command m) (ts_srvs ts)
      in case go_index (ts_srvs ts) (int i) of
           Inl p \<Rightarrow> Inl p
         | Inr srv \<Rightarrow>
             let prevok = (rs_logs srv (CommandIndex m - 1) \<noteq> None);
                 srv = srv\<lparr>rs_logs := (rs_logs srv)(CommandIndex m \<mapsto> Command m)\<rparr>
             in Inr (ts\<lparr>ts_srvs := (ts_srvs ts)[i := srv],
                       ts_maxIndex := (if CommandIndex m > ts_maxIndex ts then CommandIndex m else ts_maxIndex ts)\<rparr>,
                     err, prevok))"

text \<open>What the applier of server \<open>i\<close> does with one message.\<close>

definition applier :: "nat \<Rightarrow> ApplyMsg \<Rightarrow> Test \<Rightarrow> Test go" where
  "applier i m ts =
     (if \<not> CommandValid m then Inr ts
      else case checkLogs i m ts of
        Inl p \<Rightarrow> Inl p
      | Inr (ts, err, prevok) \<Rightarrow>
          let err = (if CommandIndex m > 1 \<and> \<not> prevok then True else err)
          in if err then Inl LogFatal else Inr ts)"

text \<open>
  The applier of the snapshot tests, with the snapshots it hands to Raft (index and entries up to it);
  a missing entry is nil. A snapshot that is due while the server was stopped is a call on a nil
  interface; the process ends on an error only after the snapshot.
\<close>

definition applierSnap :: "(bytes \<Rightarrow> (int \<times> any list) option) \<Rightarrow> nat \<Rightarrow> ApplyMsg \<Rightarrow> Test \<Rightarrow>
    (Test \<times> (int \<times> any list) list) go" where
  "applierSnap decode i m ts = (case go_index (ts_srvs ts) (int i) of
      Inl p \<Rightarrow> Inl p
    | Inr rs \<Rightarrow>
        if SnapshotValid m
        then (case ingestSnap decode (Some (Snapshot m)) (SnapshotIndex m) rs of
                Inl p \<Rightarrow> Inl p
              | Inr (rs, err) \<Rightarrow>
                  if err then Inl LogFatal else Inr (ts\<lparr>ts_srvs := (ts_srvs ts)[i := rs]\<rparr>, []))
        else if CommandValid m
        then (case (if CommandIndex m \<noteq> rs_lastApplied rs + 1 then Inr (ts, True)
                    else case checkLogs i m ts of
                           Inl p \<Rightarrow> Inl p
                         | Inr (ts, err, prevok) \<Rightarrow> Inr (ts, if CommandIndex m > 1 \<and> \<not> prevok then True else err)) of
                Inl p \<Rightarrow> Inl p
              | Inr (ts, err) \<Rightarrow>
                  let rs = (ts_srvs ts ! i)\<lparr>rs_lastApplied := CommandIndex m\<rparr>;
                      ts = ts\<lparr>ts_srvs := (ts_srvs ts)[i := rs]\<rparr>;
                      due = ((CommandIndex m + 1) mod SnapShotInterval = 0);
                      snaps = (if due then [(CommandIndex m,
                                 map (\<lambda>j. case rs_logs rs j of None \<Rightarrow> AnyNil | Some v \<Rightarrow> v) [0..CommandIndex m])]
                               else [])
                  in if due \<and> \<not> rs_alive rs then Inl NilPanic
                     else if err then Inl LogFatal
                     else Inr (ts, snaps))
        else Inr (ts, []))"

fun ncommitted_loop :: "int \<Rightarrow> rfsrv list \<Rightarrow> int \<Rightarrow> any \<Rightarrow> (int \<times> any) go" where
  "ncommitted_loop index [] cnt cmd = Inr (cnt, cmd)"
| "ncommitted_loop index (rs # rest) cnt cmd =
     (if rs_applyErr rs then Inl TestFatal
      else case Logs index rs of
        None \<Rightarrow> ncommitted_loop index rest cnt cmd
      | Some cmd1 \<Rightarrow> if cnt > 0 \<and> cmd \<noteq> cmd1 then Inl TestFatal
                      else ncommitted_loop index rest (cnt + 1) cmd1)"

definition nCommitted :: "int \<Rightarrow> Test \<Rightarrow> (int \<times> any) go" where
  "nCommitted index ts = ncommitted_loop index (ts_srvs ts) 0 AnyNil"

definition checkNoAgreement :: "int \<Rightarrow> Test \<Rightarrow> unit go" where
  "checkNoAgreement index ts = (case nCommitted index ts of
      Inl p \<Rightarrow> Inl p | Inr (n, _) \<Rightarrow> if n > 0 then Inl TestFatal else Inr ())"

section \<open>Checks of leaders and terms\<close>

text \<open>
  An observation of a server: whether it is connected, and what \<open>GetState\<close> returns. A server that was killed while it is connected has no
  observation: its Raft pointer is nil and \<open>GetState\<close> panics, before a check sees anything of it.
\<close>

type_synonym observation = "bool \<times> int \<times> bool"

definition observe :: "bool list \<Rightarrow> Raft list \<Rightarrow> observation list" where
  "observe conn rs = zip conn (map Raft_GetState rs)"

text \<open>The leaders per term; the order of the terms stands for the traversal order of the map.\<close>

fun add_leader :: "int \<Rightarrow> nat \<Rightarrow> (int \<times> nat list) list \<Rightarrow> (int \<times> nat list) list" where
  "add_leader term i [] = [(term, [i])]"
| "add_leader term i ((t, ls) # rest) = (if t = term then (t, ls @ [i]) # rest else (t, ls) # add_leader term i rest)"

definition leaders_of :: "observation list \<Rightarrow> (int \<times> nat list) list" where
  "leaders_of obs = fold (\<lambda>(i, conn, term, leader) m. if conn \<and> leader then add_leader term i m else m)
     (enumerate 0 obs) []"

text \<open>Up to ten rounds; \<open>rounds\<close> are the observations made in them.\<close>

fun one_leader_loop :: "nat \<Rightarrow> observation list list \<Rightarrow> nat go" where
  "one_leader_loop 0 rounds = Inl TestFatal"
| "one_leader_loop (Suc k) [] = Inl TestFatal"
| "one_leader_loop (Suc k) (obs # rounds) =
     (let leaders = leaders_of obs
      in if list_ex (\<lambda>(t, ls). length ls > 1) leaders then Inl TestFatal
         else let lastTerm = fold (\<lambda>(t, ls) lt. if t > lt then t else lt) leaders (-1)
              in if leaders \<noteq> []
                 then case map_of leaders lastTerm of
                        None \<Rightarrow> Inl IndexPanic
                      | Some ls \<Rightarrow> go_index ls 0
                 else one_leader_loop k rounds)"

definition checkOneLeader :: "observation list list \<Rightarrow> nat go" where
  "checkOneLeader rounds = one_leader_loop 10 rounds"

fun terms_loop :: "observation list \<Rightarrow> int \<Rightarrow> int go" where
  "terms_loop [] term = Inr term"
| "terms_loop ((conn, xterm, _) # obs) term =
     (if \<not> conn then terms_loop obs term
      else if term = -1 then terms_loop obs xterm
      else if term \<noteq> xterm then Inl TestFatal
      else terms_loop obs term)"

definition checkTerms :: "observation list \<Rightarrow> int go" where
  "checkTerms obs = terms_loop obs (-1)"

definition checkNoLeader :: "observation list \<Rightarrow> unit go" where
  "checkNoLeader obs = (if list_ex (\<lambda>(conn, _, leader). conn \<and> leader) obs then Inl TestFatal else Inr ())"

section \<open>Waiting for agreement\<close>

definition checkFinished :: "Test \<Rightarrow> bool" where
  "checkFinished ts \<longleftrightarrow> ts_finished ts \<noteq> 0"

text \<open>
  The inner loop of \<open>one\<close>: from the server after \<open>starts\<close>, ask each in turn to start the command;
  \<open>ask j\<close> is what server \<open>j\<close> answers, \<open>None\<close> if it is not connected or stopped.
\<close>

fun start_scan :: "(nat \<Rightarrow> (int \<times> int \<times> bool) option) \<Rightarrow> nat \<Rightarrow> nat \<Rightarrow> nat \<Rightarrow> nat \<times> int" where
  "start_scan ask n 0 starts = (starts, -1)"
| "start_scan ask n (Suc k) starts =
     (let starts = (starts + 1) mod n
      in case ask starts of
           Some (index1, _, ok) \<Rightarrow> if ok then (starts, index1) else start_scan ask n k starts
         | None \<Rightarrow> start_scan ask n k starts)"

text \<open>
  \<open>one\<close> over what it sees: per attempt the servers' answers and the values of \<open>nCommitted\<close> that are
  read within the two seconds after a successful start. The attempts are those made until the time or
  the test is over; \<open>finished\<close> tells which.
\<close>

fun one_poll :: "any \<Rightarrow> int \<Rightarrow> (int \<times> any) go list \<Rightarrow> bool go" where
  "one_poll cmd expected [] = Inr False"
| "one_poll cmd expected (r # rs) = (case r of
      Inl p \<Rightarrow> Inl p
    | Inr (nd, cmd1) \<Rightarrow> if nd > 0 \<and> nd \<ge> expected \<and> cmd1 = cmd then Inr True else one_poll cmd expected rs)"

fun one_loop :: "any \<Rightarrow> int \<Rightarrow> bool \<Rightarrow> nat \<Rightarrow> bool \<Rightarrow> nat \<Rightarrow>
    ((nat \<Rightarrow> (int \<times> int \<times> bool) option) \<times> (int \<times> any) go list) list \<Rightarrow> int go" where
  "one_loop cmd expected retry n finished starts [] = (if finished then Inr (-1) else Inl TestFatal)"
| "one_loop cmd expected retry n finished starts ((ask, polls) # attempts) =
     (case start_scan ask n n starts of (starts, index) \<Rightarrow>
        if index \<noteq> -1
        then case one_poll cmd expected polls of
               Inl p \<Rightarrow> Inl p
             | Inr True \<Rightarrow> Inr index
             | Inr False \<Rightarrow> if \<not> retry then Inl TestFatal
                             else one_loop cmd expected retry n finished starts attempts
        else one_loop cmd expected retry n finished starts attempts)"

definition one :: "any \<Rightarrow> int \<Rightarrow> bool \<Rightarrow> bool \<Rightarrow> ((nat \<Rightarrow> (int \<times> int \<times> bool) option) \<times> (int \<times> any) go list) list \<Rightarrow>
    Test \<Rightarrow> int go" where
  "one cmd expected retry finished attempts ts =
     one_loop cmd expected retry (length (ts_srvs ts)) finished 0 attempts"

text \<open>\<open>wait\<close>: up to 30 rounds, each a value of \<open>nCommitted\<close> and the terms of the peers.\<close>

fun wait_rounds :: "nat \<Rightarrow> int \<Rightarrow> int \<Rightarrow> ((int \<times> any) go \<times> int list) list \<Rightarrow> bool go" where
  "wait_rounds 0 n startTerm rounds = Inr False"
| "wait_rounds (Suc k) n startTerm [] = Inr False"
| "wait_rounds (Suc k) n startTerm ((r, terms) # rounds) = (case r of
      Inl p \<Rightarrow> Inl p
    | Inr (nd, _) \<Rightarrow>
        if nd \<ge> n then Inr False
        else if startTerm > -1 \<and> list_ex (\<lambda>t. t > startTerm) terms then Inr True
        else wait_rounds k n startTerm rounds)"

definition wait :: "int \<Rightarrow> int \<Rightarrow> int \<Rightarrow> ((int \<times> any) go \<times> int list) list \<Rightarrow> Test \<Rightarrow> any go" where
  "wait index n startTerm rounds ts = (case wait_rounds 30 n startTerm rounds of
      Inl p \<Rightarrow> Inl p
    | Inr moved \<Rightarrow> if moved then Inr (AnyInt (-1))
                  else (case nCommitted index ts of
                          Inl p \<Rightarrow> Inl p
                        | Inr (nd, cmd) \<Rightarrow> if nd < n then Inl TestFatal else Inr cmd))"

section \<open>What the apply checks establish\<close>

text \<open>The appliers of all servers, in the order in which they handle their messages.\<close>

fun apply_run :: "(nat \<times> ApplyMsg) list \<Rightarrow> Test \<Rightarrow> Test go" where
  "apply_run [] ts = Inr ts"
| "apply_run ((i, m) # ms) ts = (case applier i m ts of Inl p \<Rightarrow> Inl p | Inr ts \<Rightarrow> apply_run ms ts)"

definition fresh_test :: "nat \<Rightarrow> Test" where
  "fresh_test n = \<lparr>ts_n = n, ts_finished = 0,
     ts_srvs = map (\<lambda>i. \<lparr>rs_me = i, rs_applyErr = False, rs_lastApplied = 0, rs_alive = True, rs_logs = Map.empty\<rparr>) [0..<n],
     ts_maxIndex = 0, ts_snapshot = False\<rparr>"

text \<open>
  A message is legal after a history of messages: no server was told another command for its index,
  and its own server was told the entry before it, unless it is the first.
\<close>

definition committed :: "(nat \<times> ApplyMsg) list \<Rightarrow> nat \<Rightarrow> int \<Rightarrow> any \<Rightarrow> bool" where
  "committed h i idx v \<longleftrightarrow> (\<exists>m. (i, m) \<in> set h \<and> CommandValid m \<and> CommandIndex m = idx \<and> Command m = v)"

definition legal :: "(nat \<times> ApplyMsg) list \<Rightarrow> nat \<times> ApplyMsg \<Rightarrow> bool" where
  "legal h x \<longleftrightarrow> (case x of (i, m) \<Rightarrow> CommandValid m \<longrightarrow>
     (\<forall>j v. committed h j (CommandIndex m) v \<longrightarrow> v = Command m) \<and>
     (CommandIndex m > 1 \<longrightarrow> (\<exists>v. committed h i (CommandIndex m - 1) v)))"

definition log_inv :: "nat \<Rightarrow> (nat \<times> ApplyMsg) list \<Rightarrow> Test \<Rightarrow> bool" where
  "log_inv n h ts \<longleftrightarrow> length (ts_srvs ts) = n \<and> (\<forall>(i, m)\<in>set h. i < n) \<and>
     (\<forall>i<n. \<forall>idx v. rs_logs (ts_srvs ts ! i) idx = Some v \<longleftrightarrow> committed h i idx v)"

lemma committed_snoc:
  "committed (h @ [(i, m)]) j idx v \<longleftrightarrow> committed h j idx v \<or>
     (j = i \<and> CommandValid m \<and> CommandIndex m = idx \<and> Command m = v)"
  by (auto simp: committed_def)

lemma log_inv_logs: "log_inv n h ts \<Longrightarrow> i < n \<Longrightarrow> rs_logs (ts_srvs ts ! i) idx = Some v \<longleftrightarrow> committed h i idx v"
  by (simp add: log_inv_def)

lemma log_inv_server: "log_inv n h ts \<Longrightarrow> committed h j idx v \<Longrightarrow> j < n"
  by (auto simp: log_inv_def committed_def)

lemma log_inv_step:
  assumes "log_inv n h ts" "legal h (i, m)" "CommandValid m" "i < n"
  shows "log_inv n (h @ [(i, m)]) (ts\<lparr>ts_srvs := (ts_srvs ts)[i := (ts_srvs ts ! i)
    \<lparr>rs_logs := (rs_logs (ts_srvs ts ! i))(CommandIndex m \<mapsto> Command m)\<rparr>], ts_maxIndex := mx\<rparr>)"
proof -
  have "rs_logs ((ts_srvs ts)[i := (ts_srvs ts ! i)\<lparr>rs_logs := (rs_logs (ts_srvs ts ! i))(CommandIndex m \<mapsto> Command m)\<rparr>] ! j) idx
      = Some v \<longleftrightarrow> committed (h @ [(i, m)]) j idx v" if "j < n" for j idx v
  proof (cases "j = i \<and> idx = CommandIndex m")
    case True
    then show ?thesis
      using assms by (auto simp: log_inv_def committed_snoc legal_def)
  next
    case False
    then show ?thesis
      using that assms log_inv_logs [OF assms(1) that] by (auto simp: log_inv_def committed_snoc nth_update_if)
  qed
  then show ?thesis using assms by (auto simp: log_inv_def)
qed

lemma list_ex_nth: "list_ex P xs \<longleftrightarrow> (\<exists>i<length xs. P (xs ! i))"
  by (metis list_ex_iff in_set_conv_nth)

lemma applier_exact:
  assumes inv: "log_inv n h ts" and i: "i < n"
  shows "if legal h (i, m) then \<exists>ts'. applier i m ts = Inr ts' \<and> log_inv n (h @ [(i, m)]) ts'
         else applier i m ts = Inl LogFatal"
proof (cases "CommandValid m")
  case False
  have "log_inv n (h @ [(i, m)]) ts" using inv i False by (auto simp: log_inv_def committed_snoc)
  then show ?thesis using False by (auto simp: legal_def applier_def)
next
  case True
  have len: "length (ts_srvs ts) = n" using inv by (simp add: log_inv_def)
  have err: "list_ex (\<lambda>rs. case Logs (CommandIndex m) rs of None \<Rightarrow> False | Some old \<Rightarrow> old \<noteq> Command m) (ts_srvs ts)
      \<longleftrightarrow> (\<exists>j v. committed h j (CommandIndex m) v \<and> v \<noteq> Command m)"
  proof
    assume "list_ex (\<lambda>rs. case Logs (CommandIndex m) rs of None \<Rightarrow> False | Some old \<Rightarrow> old \<noteq> Command m) (ts_srvs ts)"
    then obtain j where "j < n" "case rs_logs (ts_srvs ts ! j) (CommandIndex m) of None \<Rightarrow> False | Some old \<Rightarrow> old \<noteq> Command m"
      unfolding list_ex_nth len Logs_def by blast
    then show "\<exists>j v. committed h j (CommandIndex m) v \<and> v \<noteq> Command m"
      using log_inv_logs [OF inv] by (auto split: option.splits)
  next
    assume "\<exists>j v. committed h j (CommandIndex m) v \<and> v \<noteq> Command m"
    then obtain j v where "committed h j (CommandIndex m) v" "v \<noteq> Command m" by blast
    moreover have "j < n" using log_inv_server [OF inv calculation(1)] .
    ultimately show "list_ex (\<lambda>rs. case Logs (CommandIndex m) rs of None \<Rightarrow> False | Some old \<Rightarrow> old \<noteq> Command m) (ts_srvs ts)"
      unfolding list_ex_nth len Logs_def
      using log_inv_logs [OF inv, of j "CommandIndex m" v] by (intro exI [of _ j]) simp
  qed
  have prev: "rs_logs (ts_srvs ts ! i) (CommandIndex m - 1) \<noteq> None \<longleftrightarrow> (\<exists>v. committed h i (CommandIndex m - 1) v)"
    using log_inv_logs [OF inv i] by auto
  have "legal h (i, m) \<longleftrightarrow> \<not> (\<exists>j v. committed h j (CommandIndex m) v \<and> v \<noteq> Command m) \<and>
      (CommandIndex m > 1 \<longrightarrow> (\<exists>v. committed h i (CommandIndex m - 1) v))"
    using True by (auto simp: legal_def)
  then show ?thesis
    using True i len log_inv_step [OF inv _ True i] err prev
    by (auto simp: applier_def checkLogs_def go_index_def Let_def)
qed

lemma apply_run_exact:
  assumes "log_inv n h ts" "\<forall>(i, m)\<in>set ms. i < n"
  shows "if \<forall>k<length ms. legal (h @ take k ms) (ms ! k)
         then \<exists>ts'. apply_run ms ts = Inr ts' \<and> log_inv n (h @ ms) ts'
         else apply_run ms ts = Inl LogFatal"
  using assms
proof (induction ms arbitrary: h ts)
  case (Cons x ms)
  obtain i m where x: "x = (i, m)" by (cases x)
  have i: "i < n" using Cons.prems(2) x by auto
  have all: "(\<forall>k<length (x # ms). legal (h @ take k (x # ms)) ((x # ms) ! k)) \<longleftrightarrow>
      legal h x \<and> (\<forall>k<length ms. legal ((h @ [x]) @ take k ms) (ms ! k))"
    by (auto simp: less_Suc_eq_0_disj)
  show ?case
  proof (cases "legal h x")
    case True
    then obtain ts1 where ts1: "applier i m ts = Inr ts1" "log_inv n (h @ [x]) ts1"
      using applier_exact [OF Cons.prems(1) i, of m] x by auto
    show ?thesis unfolding all using Cons.IH [OF ts1(2)] Cons.prems(2) True ts1(1) x by auto
  next
    case False
    then show ?thesis unfolding all using applier_exact [OF Cons.prems(1) i, of m] x by auto
  qed
qed simp

section \<open>Properties\<close>

text \<open>
  C27: the checks on applied entries are exact. Running the appliers of all servers on any sequence of
  messages from a fresh test, in any interleaving, ends without error exactly if every message agrees
  with all commands that any server applied before at its index and every server applies its entries
  without gaps; otherwise the process is ended. Without error, all servers' logs agree wherever
  they have entries.
\<close>

theorem apply_checks_exact:
  assumes "\<forall>(i, m)\<in>set ms. i < n"
  shows "((\<exists>ts. apply_run ms (fresh_test n) = Inr ts) \<longleftrightarrow> (\<forall>k<length ms. legal (take k ms) (ms ! k))) \<and>
     (\<forall>ts. apply_run ms (fresh_test n) = Inr ts \<longrightarrow>
        (\<forall>i<n. \<forall>j<n. \<forall>idx v w. rs_logs (ts_srvs ts ! i) idx = Some v \<longrightarrow>
           rs_logs (ts_srvs ts ! j) idx = Some w \<longrightarrow> v = w))"
proof -
  have inv: "log_inv n [] (fresh_test n)"
    by (simp add: log_inv_def fresh_test_def committed_def)
  note run = apply_run_exact [OF inv assms, simplified append_Nil]
  have agree: "v = w" if leg: "\<forall>k<length ms. legal (take k ms) (ms ! k)"
    and c: "committed ms i idx v" "committed ms j idx w" for i j idx v w
  proof -
    obtain k m where k: "k < length ms" "ms ! k = (i, m)" "CommandValid m" "CommandIndex m = idx" "Command m = v"
      using c(1) by (auto simp: committed_def in_set_conv_nth)
    obtain l m' where l: "l < length ms" "ms ! l = (j, m')" "CommandValid m'" "CommandIndex m' = idx" "Command m' = w"
      using c(2) by (auto simp: committed_def in_set_conv_nth)
    have take: "committed (take b ms) i' idx u" if "a < b" "b < length ms" "ms ! a = (i', p)" "CommandValid p"
      "CommandIndex p = idx" "Command p = u" for a b i' p u
      using that by (auto simp: committed_def in_set_conv_nth intro!: exI [of _ p] exI [of _ a])
    consider "k < l" | "l < k" | "k = l" by linarith
    then show ?thesis
    proof cases
      case 1
      then show ?thesis using leg [rule_format, OF l(1)] take [OF 1 l(1) k(2-5)] l by (simp add: legal_def)
    next
      case 2
      then show ?thesis using leg [rule_format, OF k(1)] take [OF 2 k(1) l(2-5)] k by (auto simp: legal_def)
    next
      case 3
      then show ?thesis using k l by simp
    qed
  qed
  show ?thesis
    using run agree by (auto simp: log_inv_def split: if_splits)
qed

theorem apply_checks_exact_witness:
  "let m = (\<lambda>k c. \<lparr>CommandValid = True, Command = AnyInt c, CommandIndex = k, SnapshotValid = False,
                    Snapshot = [], SnapshotTerm = 0, SnapshotIndex = 0\<rparr>)
   in (\<exists>ts. apply_run [(0, m 1 7), (1, m 1 7), (1, m 2 8)] (fresh_test 2) = Inr ts) \<and>
      \<not> (\<exists>ts. apply_run [(0, m 1 7), (1, m 1 9)] (fresh_test 2) = Inr ts)"
proof -
  define m where "m = (\<lambda>k c. \<lparr>CommandValid = True, Command = AnyInt c, CommandIndex = k, SnapshotValid = False,
                    Snapshot = [], SnapshotTerm = 0, SnapshotIndex = 0\<rparr>)"
  have msg: "CommandValid (m k c)" "CommandIndex (m k c) = k" "Command (m k c) = AnyInt c" for k c
    by (simp_all add: m_def)
  have "\<forall>(i, x)\<in>set [(0 :: nat, m 1 7), (1, m 1 7), (1, m 2 8)]. i < 2" "\<forall>(i, x)\<in>set [(0 :: nat, m 1 7), (1, m 1 9)]. i < 2"
    by simp_all
  note ex = this [THEN apply_checks_exact, THEN conjunct1]
  have "\<forall>k<3. legal (take k [(0, m 1 7), (1, m 1 7), (1, m 2 8)]) ([(0, m 1 7), (1, m 1 7), (1, m 2 8)] ! k)"
    by (auto simp: legal_def committed_def msg numeral_3_eq_3 less_Suc_eq_0_disj)
  moreover have "\<not> legal (take 1 [(0, m 1 7), (1, m 1 9)]) ([(0, m 1 7), (1, m 1 9)] ! 1)"
    by (auto simp: legal_def committed_def msg)
  ultimately show ?thesis
    unfolding m_def [symmetric] Let_def ex by (auto simp: numeral_2_eq_2 numeral_3_eq_3)
qed

section \<open>The leader check\<close>

definition leads :: "observation list \<Rightarrow> int \<Rightarrow> nat \<Rightarrow> bool" where
  "leads obs t i \<longleftrightarrow> i < length obs \<and> obs ! i = (True, t, True)"

lemma map_of_add_leader:
  "map_of (add_leader tm i m) t =
     (if t = tm then Some ((case map_of m t of None \<Rightarrow> [] | Some ls \<Rightarrow> ls) @ [i]) else map_of m t)"
  by (induction tm i m rule: add_leader.induct) auto

lemma distinct_add_leader: "distinct (map fst m) \<Longrightarrow> distinct (map fst (add_leader tm i m))"
proof (induction tm i m rule: add_leader.induct)
  case (2 tm i t ls rest)
  have "fst ` set (add_leader tm i rest) = insert tm (fst ` set rest)"
    unfolding dom_map_of_conv_image_fst [symmetric] by (auto simp: map_of_add_leader split: if_splits)
  then show ?case using 2 by auto
qed simp

lemma leaders_fold:
  "distinct (map fst m) \<Longrightarrow>
   (let r = fold (\<lambda>(i, conn, term, leader) m. if conn \<and> leader then add_leader term i m else m) (enumerate k obs) m
    in distinct (map fst r) \<and> (\<forall>t. (case map_of r t of None \<Rightarrow> [] | Some ls \<Rightarrow> ls) =
      (case map_of m t of None \<Rightarrow> [] | Some ls \<Rightarrow> ls) @ filter (\<lambda>i. obs ! (i - k) = (True, t, True)) [k..<k + length obs]) \<and>
      (\<forall>t. map_of r t = Some [] \<longrightarrow> map_of m t = Some []))"
proof (induction obs arbitrary: k m)
  case (Cons x obs)
  obtain conn tm leader where x: "x = (conn, tm, leader)" by (cases x)
  define m1 where "m1 = (if conn \<and> leader then add_leader tm k m else m)"
  have d: "distinct (map fst m1)" using Cons.prems by (simp add: m1_def distinct_add_leader)
  have up: "[k..<k + length (x # obs)] = k # [Suc k..<Suc k + length obs]" by (simp add: upt_rec)
  have fil: "filter (\<lambda>i. (x # obs) ! (i - k) = (True, t, True)) [Suc k..<Suc k + length obs] =
      filter (\<lambda>i. obs ! (i - Suc k) = (True, t, True)) [Suc k..<Suc k + length obs]" for t
    by (intro filter_cong refl) (auto simp: nth_Cons')
  note IH = Cons.IH [OF d, of "Suc k", unfolded Let_def]
  have step: "fold (\<lambda>(i, conn, term, leader) m. if conn \<and> leader then add_leader term i m else m) (enumerate k (x # obs)) m =
      fold (\<lambda>(i, conn, term, leader) m. if conn \<and> leader then add_leader term i m else m) (enumerate (Suc k) obs) m1"
    by (simp add: x m1_def)
  have m1: "(case map_of m1 t of None \<Rightarrow> [] | Some ls \<Rightarrow> ls) =
      (case map_of m t of None \<Rightarrow> [] | Some ls \<Rightarrow> ls) @ (if x = (True, t, True) then [k] else [])"
    "map_of m1 t = Some [] \<longrightarrow> map_of m t = Some []" for t
    by (auto simp: m1_def x map_of_add_leader)
  show ?case
    unfolding Let_def step up using IH m1 fil by (auto simp del: upt_Suc)
qed simp

lemma leaders_of_spec:
  "distinct (map fst (leaders_of obs))"
  "map_of (leaders_of obs) t = (let is = filter (\<lambda>i. obs ! i = (True, t, True)) [0..<length obs] in if is = [] then None else Some is)"
proof -
  have s: "distinct (map fst (leaders_of obs))"
    "(case map_of (leaders_of obs) t of None \<Rightarrow> [] | Some ls \<Rightarrow> ls) = filter (\<lambda>i. obs ! i = (True, t, True)) [0..<length obs]"
    "map_of (leaders_of obs) t \<noteq> Some []" for t
    using leaders_fold [of "[]" 0 obs] by (simp_all add: leaders_of_def Let_def)
  show "distinct (map fst (leaders_of obs))" by (rule s(1))
  show "map_of (leaders_of obs) t = (let is = filter (\<lambda>i. obs ! i = (True, t, True)) [0..<length obs] in if is = [] then None else Some is)"
    using s(2,3) [of t] by (auto simp: Let_def split: option.splits)
qed

lemma card_gt_1: "finite A \<Longrightarrow> 1 < card A \<longleftrightarrow> (\<exists>i j. i \<in> A \<and> j \<in> A \<and> i \<noteq> j)"
  using card_le_Suc0_iff_eq [of A] by (auto simp: not_le [symmetric])

lemma last_term_fold:
  "fold (\<lambda>(t, ls) lt. if t > lt then t else lt) leaders lt0 = fold max (map fst leaders) (lt0 :: int)"
proof (induction leaders arbitrary: lt0)
  case (Cons x leaders)
  have "(if fst x > lt0 then fst x else lt0) = max (fst x) lt0" by auto
  then show ?case using Cons.IH by (cases x) simp
qed simp

text \<open>One round: two leaders of a term fail the test, else the newest leader is returned, if there is one.\<close>

lemma one_leader_exact:
  assumes "\<forall>(conn, t, l)\<in>set obs. 0 \<le> t"
  shows "one_leader_loop (Suc k) (obs # rounds) =
    (if \<exists>t i j. leads obs t i \<and> leads obs t j \<and> i \<noteq> j then Inl TestFatal
     else if \<exists>t i. leads obs t i
     then Inr (THE i. \<exists>t. leads obs t i \<and> (\<forall>u j. leads obs u j \<longrightarrow> u \<le> t))
     else one_leader_loop k rounds)"
proof -
  let ?L = "leaders_of obs" and ?f = "\<lambda>t. filter (\<lambda>i. obs ! i = (True, t, True)) [0..<length obs]"
  have f: "i \<in> set (?f t) \<longleftrightarrow> leads obs t i" for i t by (auto simp: leads_def)
  have mem: "(t, ls) \<in> set ?L \<longleftrightarrow> ls = ?f t \<and> ls \<noteq> []" for t ls
  proof -
    have "(t, ls) \<in> set ?L \<longleftrightarrow> map_of ?L t = Some ls"
      using leaders_of_spec(1) [of obs] by (simp add: map_of_eq_Some_iff)
    then show ?thesis using leaders_of_spec(2) [of obs t] by (auto simp: Let_def)
  qed
  have two: "list_ex (\<lambda>(t, ls). length ls > 1) ?L \<longleftrightarrow> (\<exists>t i j. leads obs t i \<and> leads obs t j \<and> i \<noteq> j)"
  proof -
    have "length (?f t) > 1 \<longleftrightarrow> (\<exists>i j. leads obs t i \<and> leads obs t j \<and> i \<noteq> j)" for t
    proof -
      have len: "length (?f t) = card (set (?f t))" by (subst distinct_card) simp_all
      have "card (set (?f t)) > 1 \<longleftrightarrow> (\<exists>i j. i \<in> set (?f t) \<and> j \<in> set (?f t) \<and> i \<noteq> j)"
        by (rule card_gt_1) (rule finite_set)
      then show ?thesis unfolding len f .
    qed
    then have "(\<exists>t. length (?f t) > 1) \<longleftrightarrow> (\<exists>t i j. leads obs t i \<and> leads obs t j \<and> i \<noteq> j)" by simp
    moreover have "list_ex (\<lambda>(t, ls). length ls > 1) ?L \<longleftrightarrow> (\<exists>t. length (?f t) > 1)"
    proof
      assume "list_ex (\<lambda>(t, ls). length ls > 1) ?L"
      then obtain t ls where "(t, ls) \<in> set ?L" "length ls > 1" by (auto simp: list_ex_iff)
      then show "\<exists>t. length (?f t) > 1" using mem [of t ls] by blast
    next
      assume "\<exists>t. length (?f t) > 1"
      then obtain t where t: "length (?f t) > 1" by blast
      then have "(t, ?f t) \<in> set ?L" using mem [of t "?f t"] by force
      then show "list_ex (\<lambda>(t, ls). length ls > 1) ?L" using t by (force simp: list_ex_iff)
    qed
    ultimately show ?thesis by simp
  qed
  have none: "?L = [] \<longleftrightarrow> \<not> (\<exists>t i. leads obs t i)"
  proof -
    have "?L = [] \<longleftrightarrow> (\<forall>t. ?f t = [])"
    proof
      assume "?L = []"
      then show "\<forall>t. ?f t = []" using mem by auto
    next
      assume "\<forall>t. ?f t = []"
      then have "(t, ls) \<notin> set ?L" for t ls using mem [of t ls] by simp
      then show "?L = []" by (cases ?L) auto
    qed
    also have "\<dots> \<longleftrightarrow> \<not> (\<exists>t i. leads obs t i)"
      by (auto simp: filter_empty_conv leads_def)
    finally show ?thesis .
  qed
  show ?thesis
  proof (cases "(\<exists>t i j. leads obs t i \<and> leads obs t j \<and> i \<noteq> j) \<or> ?L = []")
    case True
    then show ?thesis using two none by auto
  next
    case False
    define lt where "lt = fold max (map fst ?L) (-1)"
    have lt_Max: "lt = Max (insert (-1) (fst ` set ?L))"
      using Max.set_eq_fold [of "-1" "map fst ?L"] by (simp add: lt_def)
    have lead_term: "0 \<le> u" if "leads obs u j" for u j
      using assms that nth_mem [of j obs] by (auto simp: leads_def)
    have in_L: "u \<in> fst ` set ?L" if "leads obs u j" for u j
    proof -
      have "?f u \<noteq> []" using that f [of j u] by (metis empty_iff empty_set)
      then have "(u, ?f u) \<in> set ?L" using mem [of u "?f u"] by simp
      then show ?thesis by (rule image_eqI [rotated]) simp
    qed
    obtain u0 j0 where u0: "leads obs u0 j0" using False none by blast
    have top: "u \<le> lt" if "leads obs u j" for u j
      unfolding lt_Max using in_L [OF that] by (intro Max_ge) auto
    have "lt \<noteq> -1" using top [OF u0] lead_term [OF u0] by linarith
    moreover have "lt \<in> insert (-1) (fst ` set ?L)" unfolding lt_Max by (intro Max_in) auto
    ultimately obtain ls where "(lt, ls) \<in> set ?L" by auto
    then have ne: "?f lt \<noteq> []" using mem [of lt ls] by blast
    define i where "i = hd (?f lt)"
    have i: "?f lt = i # tl (?f lt)" unfolding i_def using ne by (rule list.collapse [symmetric])
    have "i \<in> set (?f lt)" unfolding i_def using ne by (rule hd_in_set)
    then have li: "leads obs lt i" unfolding f .
    have the: "(THE i. \<exists>t. leads obs t i \<and> (\<forall>u j. leads obs u j \<longrightarrow> u \<le> t)) = i"
    proof (rule the_equality)
      show "\<exists>t. leads obs t i \<and> (\<forall>u j. leads obs u j \<longrightarrow> u \<le> t)" using li top by blast
    next
      fix i'
      assume "\<exists>t. leads obs t i' \<and> (\<forall>u j. leads obs u j \<longrightarrow> u \<le> t)"
      then obtain t where t: "leads obs t i'" "lt \<le> t" using li by blast
      then have "t = lt" using top [OF t(1)] by simp
      then show "i' = i" using t(1) li False by blast
    qed
    have "map_of ?L lt = Some (?f lt)" using leaders_of_spec(2) [of obs lt] ne by (simp add: Let_def)
    moreover have "go_index (?f lt) 0 = Inr i" by (subst i) (simp add: go_index_def)
    ultimately show ?thesis
      using False two none the by (simp add: Let_def last_term_fold lt_def [symmetric])
  qed
qed

lemma quiet_rounds:
  "\<forall>q\<in>set quiet. (\<forall>(conn, t, l)\<in>set q. 0 \<le> t) \<and> (\<forall>t i. \<not> leads q t i) \<Longrightarrow> length quiet \<le> k \<Longrightarrow>
     one_leader_loop k (quiet @ rounds) = one_leader_loop (k - length quiet) rounds"
proof (induction quiet arbitrary: k)
  case (Cons q quiet)
  obtain k' where k: "k = Suc k'" using Cons.prems(2) by (cases k) auto
  have "one_leader_loop (Suc k') (q # (quiet @ rounds)) = one_leader_loop k' (quiet @ rounds)"
  proof -
    have "\<forall>(conn, t, l)\<in>set q. 0 \<le> t" "\<not> (\<exists>t i. leads q t i)"
      "\<not> (\<exists>t i j. leads q t i \<and> leads q t j \<and> i \<noteq> j)" using Cons.prems(1) by simp_all
    then show ?thesis by (simp only: one_leader_exact if_not_P if_False)
  qed
  then show ?case using Cons.IH [of k'] Cons.prems k by (simp del: one_leader_loop.simps)
qed simp

text \<open>
  C28: the leader check is exact. After fewer than ten rounds without a connected leader, a round in
  which two connected servers lead the same term fails the test, and otherwise a round with a
  connected leader returns the one of the newest term that has one; ten rounds without a leader fail the test.
\<close>

theorem checkOneLeader_exact:
  assumes quiet: "\<forall>q\<in>set quiet. (\<forall>(conn, t, l)\<in>set q. 0 \<le> t) \<and> (\<forall>t i. \<not> leads q t i)"
    and obs: "\<forall>(conn, t, l)\<in>set obs. 0 \<le> t"
  shows "(length quiet = 10 \<longrightarrow> checkOneLeader (quiet @ rest) = Inl TestFatal) \<and>
    (length quiet < 10 \<longrightarrow> leads obs t i \<longrightarrow> leads obs t j \<longrightarrow> i \<noteq> j \<longrightarrow>
       checkOneLeader (quiet @ obs # rest) = Inl TestFatal) \<and>
    (length quiet < 10 \<longrightarrow> leads obs t i \<longrightarrow> (\<forall>u j. leads obs u j \<longrightarrow> u \<le> t) \<longrightarrow>
       (\<forall>u j k. leads obs u j \<longrightarrow> leads obs u k \<longrightarrow> j = k) \<longrightarrow> checkOneLeader (quiet @ obs # rest) = Inr i)"
proof (intro conjI impI)
  assume "length quiet = 10"
  then show "checkOneLeader (quiet @ rest) = Inl TestFatal"
    using quiet_rounds [OF quiet, of 10 rest] by (simp add: checkOneLeader_def)
next
  assume len: "length quiet < 10" and "leads obs t i" "leads obs t j" "i \<noteq> j"
  then have two: "\<exists>t i j. leads obs t i \<and> leads obs t j \<and> i \<noteq> j" by blast
  have "one_leader_loop (Suc (9 - length quiet)) (obs # rest) = Inl TestFatal"
    unfolding one_leader_exact [OF obs] if_P [OF two] ..
  then show "checkOneLeader (quiet @ obs # rest) = Inl TestFatal"
    using quiet_rounds [OF quiet, of 10 "obs # rest"] len by (simp add: checkOneLeader_def Suc_diff_le [symmetric] del: one_leader_loop.simps)
next
  assume len: "length quiet < 10" and i: "leads obs t i" "\<forall>u j. leads obs u j \<longrightarrow> u \<le> t"
    "\<forall>u j k. leads obs u j \<longrightarrow> leads obs u k \<longrightarrow> j = k"
  have "(THE i. \<exists>t. leads obs t i \<and> (\<forall>u j. leads obs u j \<longrightarrow> u \<le> t)) = i"
  proof (rule the_equality)
    fix i'
    assume "\<exists>t. leads obs t i' \<and> (\<forall>u j. leads obs u j \<longrightarrow> u \<le> t)"
    then obtain t' where t': "leads obs t' i'" "t \<le> t'" using i(1) by blast
    then have "t' = t" using i(2) by (meson order.antisym)
    then show "i' = i" using t'(1) i(1,3) by blast
  qed (use i in blast)
  moreover have "\<not> (\<exists>t i j. leads obs t i \<and> leads obs t j \<and> i \<noteq> j)" "\<exists>t i. leads obs t i" using i by blast+
  ultimately have "one_leader_loop (Suc (9 - length quiet)) (obs # rest) = Inr i"
    by (simp only: one_leader_exact [OF obs] if_P if_not_P if_False)
  then show "checkOneLeader (quiet @ obs # rest) = Inr i"
    using quiet_rounds [OF quiet, of 10 "obs # rest"] len by (simp add: checkOneLeader_def Suc_diff_le [symmetric] del: one_leader_loop.simps)
qed

theorem checkOneLeader_exact_witness:
  "checkOneLeader [[(True, 1, False)], [(True, 1, False), (False, 4, True), (True, 3, True)]] = Inr 2"
proof -
  let ?q = "[(True, 1, False)]" and ?obs = "[(True, 1, False), (False, 4, True), (True, 3, True)]"
  have q: "\<forall>q\<in>set [?q]. (\<forall>(conn, t, l)\<in>set q. (0 :: int) \<le> t) \<and> (\<forall>t i. \<not> leads q t i)"
    by (auto simp: leads_def)
  have o: "\<forall>(conn, t, l)\<in>set ?obs. (0 :: int) \<le> t" by simp
  have leads: "leads ?obs t i \<longleftrightarrow> t = 3 \<and> i = 2" for t i
    by (auto simp: leads_def less_Suc_eq numeral_2_eq_2)
  show ?thesis
    using checkOneLeader_exact [OF q o, of "[]" 3 2] by (simp add: leads)
qed

text \<open>
  The state with two leaders of one term that the cluster can reach makes the leader check fail, if
  the tester looks at it while both are connected.
\<close>

corollary leader_check_catches_two_leaders:
  "\<exists>s. reachable (cluster_init 3 (\<lambda>_. 0)) raft_step s \<and>
       checkOneLeader [observe [True, True, True] (nodes s)] = Inl TestFatal"
proof -
  obtain s where s: "reachable (cluster_init 3 (\<lambda>_. 0)) raft_step s"
    "Raft_GetState (nodes s ! 0) = (1, True)" "Raft_GetState (nodes s ! 1) = (1, True)"
    using two_leaders_run raft_run_init by blast
  have inv: "raft_inv 3 s" by (rule raft.inv_reachable [OF s(1)])
  let ?obs = "observe [True, True, True] (nodes s)"
  have len: "length (nodes s) = 3" using raft_inv_length [OF inv] by simp
  then have nth: "?obs ! i = (True, Raft_GetState (nodes s ! i))" "length ?obs = 3" if "i < 3" for i
    using that by (auto simp: observe_def numeral_3_eq_3 nth_Cons' less_Suc_eq)
  have "0 \<le> currTerm (nodes s ! i)" if "i < 3" for i
    using raft_inv_node [OF inv that] by (simp add: node_ok_def)
  then have terms: "\<forall>(conn, t, l)\<in>set ?obs. 0 \<le> t"
    using nth by (fastforce simp: in_set_conv_nth Raft_GetState_def)
  have "leads ?obs 1 0" "leads ?obs 1 1" using nth(1) [of 0] nth(1) [of 1] nth(2) [of 0] s(2,3) by (simp_all add: leads_def)
  then have "\<exists>t i j. leads ?obs t i \<and> leads ?obs t j \<and> i \<noteq> j" by (metis zero_neq_one)
  moreover have "Suc 9 = 10" by simp
  ultimately have "checkOneLeader [?obs] = Inl TestFatal"
    using one_leader_exact [OF terms, of 9 "[]"] unfolding checkOneLeader_def by metis
  then show ?thesis using s(1) by blast
qed

end
