(* ===== verification/Labgob.thy ===== *)
theory Labgob
  imports Prelude
begin

text \<open>
  \<open>labgob/labgob.go\<close>: the wrapper around \<open>encoding/gob\<close> that complains about struct fields that gob would not send, and
  about decoding into variables that already have a value. Types are identified by names and described by a table,
  as types may be recursive; a type without entry has none of the kinds the check looks into. Names of fields start
  with an ASCII character. The encoder and decoder of gob are parameters.
\<close>

section \<open>Types and state\<close>

type_synonym tid = string

text \<open>Maps have the types of their elements and of their keys.\<close>

datatype gtype =
    Struct "(string \<times> tid) list"
  | Slice tid
  | Array tid
  | Ptr tid
  | Map tid tid
  | OtherKind

type_synonym types = "(tid \<times> gtype) list"

definition kind_of :: "types \<Rightarrow> tid \<Rightarrow> gtype" where
  "kind_of G t = (case map_of G t of None \<Rightarrow> OtherKind | Some g \<Rightarrow> g)"

text \<open>What is printed: a field with its struct, or the variable or field that is not zero.\<close>

datatype message = LowerCase string tid | NonDefault string

record labgob =
  errorCount :: int
  checked :: "tid set"
  printed :: "message list"

definition labgob0 :: labgob where
  "labgob0 = \<lparr>errorCount = 0, checked = {}, printed = []\<rparr>"

text \<open>\<open>unicode.IsUpper\<close> of the first rune.\<close>

definition is_upper :: "string \<Rightarrow> bool" where
  "is_upper n = (case n of [] \<Rightarrow> False | c # _ \<Rightarrow> 65 \<le> (of_char c :: nat) \<and> (of_char c :: nat) \<le> 90)"

section \<open>Checking types\<close>

definition complain :: "tid \<Rightarrow> string \<Rightarrow> labgob \<Rightarrow> labgob" where
  "complain t n s = (if is_upper n then s
     else s\<lparr>printed := printed s @ [LowerCase n t], errorCount := errorCount s + 1\<rparr>)"

text \<open>The recursion, with a bound on its depth.\<close>

fun check_type :: "nat \<Rightarrow> types \<Rightarrow> tid \<Rightarrow> labgob \<Rightarrow> labgob option"
  and check_fields :: "nat \<Rightarrow> types \<Rightarrow> tid \<Rightarrow> (string \<times> tid) list \<Rightarrow> labgob \<Rightarrow> labgob option" where
  "check_type 0 G t s = None"
| "check_type (Suc k) G t s =
     (if t \<in> checked s then Some s
      else let s = s\<lparr>checked := insert t (checked s)\<rparr>
           in case kind_of G t of
                Struct fs \<Rightarrow> check_fields k G t fs s
              | Slice u \<Rightarrow> check_type k G u s
              | Array u \<Rightarrow> check_type k G u s
              | Ptr u \<Rightarrow> check_type k G u s
              | Map e key \<Rightarrow> (case check_type k G e s of None \<Rightarrow> None | Some s \<Rightarrow> check_type k G key s)
              | OtherKind \<Rightarrow> Some s)"
| "check_fields k G t [] s = Some s"
| "check_fields k G t ((n, u) # fs) s =
     (case check_type k G u (complain t n s) of None \<Rightarrow> None | Some s \<Rightarrow> check_fields k G t fs s)"

text \<open>The types that occur in the table bound the depth.\<close>

fun components :: "gtype \<Rightarrow> tid list" where
  "components (Struct fs) = map snd fs"
| "components (Slice u) = [u]"
| "components (Array u) = [u]"
| "components (Ptr u) = [u]"
| "components (Map e k) = [e, k]"
| "components OtherKind = []"

definition all_types :: "types \<Rightarrow> tid list" where
  "all_types G = concat (map (\<lambda>(t, g). t # components g) G)"

definition checkType :: "types \<Rightarrow> tid \<Rightarrow> labgob \<Rightarrow> labgob option" where
  "checkType G t s = check_type (Suc (Suc (length (all_types G)))) G t s"

section \<open>Checking values\<close>

datatype scalar = SBool bool | SInt int | SUint nat | SFloat uint64 | SString string

text \<open>
  Scalars with the name of their type; a struct's fields with their names and whether they are embedded; nothing of other kinds is looked at.
\<close>

datatype gval =
    VScalar string scalar
  | VStruct "(string \<times> bool \<times> gval) list"
  | VPtr "gval option"
  | VOther

text \<open>Both zeros of a floating-point type equal zero; the sign is the highest bit.\<close>

fun is_zero :: "scalar \<Rightarrow> bool" where
  "is_zero (SBool b) = (\<not> b)"
| "is_zero (SInt i) = (i = 0)"
| "is_zero (SUint n) = (n = 0)"
| "is_zero (SFloat w) = (w = 0 \<or> w = push_bit 63 1)"
| "is_zero (SString s) = (s = [])"

definition warn_nondefault :: "string \<Rightarrow> labgob \<Rightarrow> labgob" where
  "warn_nondefault what s = (if errorCount s < 1 then s\<lparr>printed := printed s @ [NonDefault what], errorCount := errorCount s + 1\<rparr>
     else s\<lparr>errorCount := errorCount s + 1\<rparr>)"

text \<open>
  The read-only flags of a \<open>reflect.Value\<close>: \<open>sticky\<close> of a value reached through an unexported field, \<open>emb_ro\<close> of a value that is an embedded
  unexported field. \<open>Field\<close> keeps the first and clears the second, \<open>Elem\<close> keeps both, and \<open>Interface\<close> panics on a value that has one.
\<close>

definition field_sticky :: "bool \<Rightarrow> string \<Rightarrow> bool \<Rightarrow> bool" where
  "field_sticky sticky n embedded \<longleftrightarrow> sticky \<or> \<not> is_upper n \<and> \<not> embedded"

definition field_embed :: "string \<Rightarrow> bool \<Rightarrow> bool" where
  "field_embed n embedded \<longleftrightarrow> \<not> is_upper n \<and> embedded"

fun checkDefault1 :: "bool \<Rightarrow> bool \<Rightarrow> gval \<Rightarrow> nat \<Rightarrow> string \<Rightarrow> labgob \<Rightarrow> labgob go"
  and checkDefault_fields :: "bool \<Rightarrow> (string \<times> bool \<times> gval) list \<Rightarrow> nat \<Rightarrow> string \<Rightarrow> labgob \<Rightarrow> labgob go" where
  "checkDefault1 sticky emb_ro v depth name s =
     (if depth > 3 then Inr s
      else case v of
        VStruct fs \<Rightarrow> checkDefault_fields sticky fs depth name s
      | VPtr None \<Rightarrow> Inr s
      | VPtr (Some w) \<Rightarrow> checkDefault1 sticky emb_ro w (depth + 1) name s
      | VScalar tname x \<Rightarrow>
          if sticky \<or> emb_ro then Inl ReflectPanic
          else if is_zero x then Inr s
          else Inr (warn_nondefault (if name = [] then tname else name) s)
      | VOther \<Rightarrow> Inr s)"
| "checkDefault_fields sticky [] depth name s = Inr s"
| "checkDefault_fields sticky ((n, emb, v) # fs) depth name s =
     (case checkDefault1 (field_sticky sticky n emb) (field_embed n emb) v (depth + 1) (if name = [] then n else name @ ''.'' @ n) s of
        Inl p \<Rightarrow> Inl p
      | Inr s \<Rightarrow> checkDefault_fields sticky fs depth name s)"

text \<open>An interface value: nil, or a type and a value of it.\<close>

type_synonym iface = "(tid \<times> gval) option"

definition checkDefault :: "iface \<Rightarrow> labgob \<Rightarrow> labgob go" where
  "checkDefault value s = (case value of None \<Rightarrow> Inr s | Some (_, v) \<Rightarrow> checkDefault1 False False v 1 [] s)"

text \<open>\<open>TypeOf(nil)\<close> is a nil interface, whose \<open>Kind\<close> is called.\<close>

definition checkValue :: "types \<Rightarrow> iface \<Rightarrow> labgob \<Rightarrow> labgob go option" where
  "checkValue G value s = (case value of
      None \<Rightarrow> Some (Inl NilPanic)
    | Some (t, _) \<Rightarrow> map_option Inr (checkType G t s))"

section \<open>The wrappers\<close>

text \<open>\<open>genc\<close> and \<open>gdec\<close> are gob's encoder and decoder; a result of type \<open>'r\<close> is what they return.\<close>

definition Encode :: "types \<Rightarrow> ('e \<Rightarrow> iface \<Rightarrow> 'e \<times> 'r) \<Rightarrow> iface \<Rightarrow> labgob \<times> 'e \<Rightarrow> ((labgob \<times> 'e) \<times> 'r) go option" where
  "Encode G genc e st = (case checkValue G e (fst st) of
      None \<Rightarrow> None
    | Some (Inl p) \<Rightarrow> Some (Inl p)
    | Some (Inr s) \<Rightarrow> let (enc, r) = genc (snd st) e in Some (Inr ((s, enc), r)))"

definition EncodeValue :: "types \<Rightarrow> ('e \<Rightarrow> iface \<Rightarrow> 'e \<times> 'r) \<Rightarrow> iface \<Rightarrow> labgob \<times> 'e \<Rightarrow> ((labgob \<times> 'e) \<times> 'r) go option" where
  "EncodeValue G genc v st = (case checkValue G v (fst st) of
      None \<Rightarrow> None
    | Some (Inl p) \<Rightarrow> Some (Inl p)
    | Some (Inr s) \<Rightarrow> let (enc, r) = genc (snd st) v in Some (Inr ((s, enc), r)))"

definition Decode :: "types \<Rightarrow> ('d \<Rightarrow> iface \<Rightarrow> 'd \<times> 'r) \<Rightarrow> iface \<Rightarrow> labgob \<times> 'd \<Rightarrow> ((labgob \<times> 'd) \<times> 'r) go option" where
  "Decode G gdec e st = (case checkValue G e (fst st) of
      None \<Rightarrow> None
    | Some (Inl p) \<Rightarrow> Some (Inl p)
    | Some (Inr s) \<Rightarrow> (case checkDefault e s of
        Inl p \<Rightarrow> Some (Inl p)
      | Inr s \<Rightarrow> let (dec, r) = gdec (snd st) e in Some (Inr ((s, dec), r))))"

definition Register :: "types \<Rightarrow> (iface \<Rightarrow> 'g \<Rightarrow> 'g) \<Rightarrow> iface \<Rightarrow> labgob \<times> 'g \<Rightarrow> (labgob \<times> 'g) go option" where
  "Register G greg value st = (case checkValue G value (fst st) of
      None \<Rightarrow> None
    | Some (Inl p) \<Rightarrow> Some (Inl p)
    | Some (Inr s) \<Rightarrow> Some (Inr (s, greg value (snd st))))"

definition RegisterName :: "types \<Rightarrow> (string \<Rightarrow> iface \<Rightarrow> 'g \<Rightarrow> 'g) \<Rightarrow> string \<Rightarrow> iface \<Rightarrow> labgob \<times> 'g \<Rightarrow> (labgob \<times> 'g) go option" where
  "RegisterName G greg name value st = (case checkValue G value (fst st) of
      None \<Rightarrow> None
    | Some (Inl p) \<Rightarrow> Some (Inl p)
    | Some (Inr s) \<Rightarrow> Some (Inr (s, greg name value (snd st))))"

section \<open>What the check of a type does\<close>

text \<open>The components of a type in the order of the check, as fields; an element or key counts as a capitalized field.\<close>

fun fields :: "gtype \<Rightarrow> (string \<times> tid) list" where
  "fields (Struct fs) = fs"
| "fields (Slice u) = [(''X'', u)]"
| "fields (Array u) = [(''X'', u)]"
| "fields (Ptr u) = [(''X'', u)]"
| "fields (Map e k) = [(''X'', e), (''X'', k)]"
| "fields OtherKind = []"

definition lower :: "(string \<times> tid) list \<Rightarrow> int" where
  "lower fs = int (length (filter (\<lambda>(n, u). \<not> is_upper n) fs))"

text \<open>The types that a type is made of, itself included.\<close>

definition made_of :: "types \<Rightarrow> tid \<Rightarrow> tid set" where
  "made_of G t = {u. (\<lambda>a b. b \<in> set (components (kind_of G a)))\<^sup>*\<^sup>* t u}"

lemma components_fields: "set (components g) = snd ` set (fields g)"
  by (cases g) auto

lemma check_type_fields:
  "check_type (Suc k) G t s = (if t \<in> checked s then Some s
     else check_fields k G t (fields (kind_of G t)) (s\<lparr>checked := insert t (checked s)\<rparr>))"
  by (cases "kind_of G t") (auto simp: Let_def complain_def is_upper_def split: option.splits)

text \<open>
  What holds after types \<open>T\<close> have been checked, and \<open>d\<close> complaints made on the way about the fields that led to them.
\<close>

definition visited :: "types \<Rightarrow> tid set \<Rightarrow> int \<Rightarrow> labgob \<Rightarrow> labgob \<Rightarrow> bool" where
  "visited G T d s s' \<longleftrightarrow> checked s \<subseteq> checked s' \<and> T \<subseteq> checked s' \<and> finite (checked s' - checked s) \<and>
     checked s' \<subseteq> checked s \<union> \<Union> (made_of G ` T) \<and>
     (\<forall>u\<in>checked s' - checked s. set (components (kind_of G u)) \<subseteq> checked s') \<and>
     errorCount s' = errorCount s + d + (\<Sum>u\<in>checked s' - checked s. lower (fields (kind_of G u)))"

lemma visited_trans:
  assumes "visited G T d s s1" "visited G T' d' s1 s2"
  shows "visited G (T \<union> T') (d + d') s s2"
proof -
  have split: "checked s2 - checked s = (checked s1 - checked s) \<union> (checked s2 - checked s1)"
    using assms unfolding visited_def by blast
  have "(\<Sum>u\<in>checked s2 - checked s. lower (fields (kind_of G u))) =
      (\<Sum>u\<in>checked s1 - checked s. lower (fields (kind_of G u))) + (\<Sum>u\<in>checked s2 - checked s1. lower (fields (kind_of G u)))"
    unfolding split by (rule sum.union_disjoint) (use assms in \<open>auto simp: visited_def\<close>)
  moreover have "\<forall>u\<in>checked s2 - checked s. set (components (kind_of G u)) \<subseteq> checked s2"
    using assms unfolding visited_def by blast
  ultimately show ?thesis using assms split unfolding visited_def by auto
qed

lemma visited_complain: "visited G {} (lower [(n, u)]) s (complain t n s)"
  by (auto simp: visited_def complain_def lower_def)

lemma made_of_refl: "t \<in> made_of G t"
  by (simp add: made_of_def)

lemma made_of_step: "u \<in> set (components (kind_of G t)) \<Longrightarrow> made_of G u \<subseteq> made_of G t"
  by (auto simp: made_of_def intro: converse_rtranclp_into_rtranclp)

lemma visited_mark:
  assumes "visited G (snd ` set (fields (kind_of G t))) (lower (fields (kind_of G t))) (s\<lparr>checked := insert t (checked s)\<rparr>) s'"
    and "t \<notin> checked s"
  shows "visited G {t} 0 s s'"
proof -
  have eq: "checked s' - checked s = insert t (checked s' - insert t (checked s))" using assms by (auto simp: visited_def)
  have "\<Union> (made_of G ` snd ` set (fields (kind_of G t))) \<subseteq> made_of G t"
    using made_of_step [of _ G t] unfolding components_fields by blast
  moreover have "(\<Sum>u\<in>checked s' - checked s. lower (fields (kind_of G u))) =
      lower (fields (kind_of G t)) + (\<Sum>u\<in>checked s' - insert t (checked s). lower (fields (kind_of G u)))"
    unfolding eq using assms(1) by (subst sum.insert) (auto simp: visited_def)
  moreover have "\<forall>u\<in>checked s' - checked s. set (components (kind_of G u)) \<subseteq> checked s'"
    using assms(1) unfolding eq components_fields visited_def by simp
  moreover have "checked s' \<subseteq> checked s \<union> made_of G t" if "\<Union> (made_of G ` snd ` set (fields (kind_of G t))) \<subseteq> made_of G t"
  proof -
    have "checked s' \<subseteq> insert t (checked s) \<union> \<Union> (made_of G ` snd ` set (fields (kind_of G t)))"
      using assms(1) by (simp add: visited_def)
    then show ?thesis using that made_of_refl [of t G] by blast
  qed
  ultimately show ?thesis using assms unfolding visited_def by auto
qed

lemma visited_refl: "t \<in> checked s \<Longrightarrow> visited G {t} 0 s s"
  by (simp add: visited_def)

lemma card_checked_mono: "visited G T d s s' \<Longrightarrow> finite U \<Longrightarrow> card (U - checked s') \<le> card (U - checked s)"
  by (intro card_mono) (auto simp: visited_def)

lemma check_fields_visits:
  assumes types: "\<And>u s. u \<in> U \<Longrightarrow> card (U - checked s) < k \<Longrightarrow> \<exists>s'. check_type k G u s = Some s' \<and> visited G {u} 0 s s'"
    and U: "finite U" and fs: "snd ` set fs \<subseteq> U" "card (U - checked s) < k"
  shows "\<exists>s'. check_fields k G t fs s = Some s' \<and> visited G (snd ` set fs) (lower fs) s s'"
  using fs
proof (induction fs arbitrary: s)
  case Nil
  then show ?case by (simp add: visited_def lower_def)
next
  case (Cons f fs)
  obtain n u where f: "f = (n, u)" by (cases f)
  let ?s = "complain t n s"
  have v0: "visited G {} (lower [(n, u)]) s ?s" by (rule visited_complain)
  obtain s1 where s1: "check_type k G u ?s = Some s1" "visited G {u} 0 ?s s1"
    using types [of u ?s] Cons.prems f card_checked_mono [OF v0 U] by auto
  have v1: "visited G ({} \<union> {u}) (lower [(n, u)] + 0) s s1" by (rule visited_trans [OF v0 s1(2)])
  obtain s2 where s2: "check_fields k G t fs s1 = Some s2" "visited G (snd ` set fs) (lower fs) s1 s2"
    using Cons.IH [of s1] Cons.prems card_checked_mono [OF v1 U] by auto
  have "lower (f # fs) = lower [(n, u)] + 0 + lower fs" "snd ` set (f # fs) = {} \<union> {u} \<union> snd ` set fs"
    using f by (auto simp: lower_def)
  then show ?case using visited_trans [OF v1 s2(2)] f s1(1) s2(1) by simp
qed

lemma check_type_visits:
  assumes U: "finite U" "\<forall>u\<in>U. set (components (kind_of G u)) \<subseteq> U" and t: "t \<in> U" "card (U - checked s) < k"
  shows "\<exists>s'. check_type k G t s = Some s' \<and> visited G {t} 0 s s'"
  using t
proof (induction k arbitrary: t s)
  case (Suc k)
  show ?case
  proof (cases "t \<in> checked s")
    case True
    then show ?thesis by (simp add: visited_refl)
  next
    case False
    let ?s = "s\<lparr>checked := insert t (checked s)\<rparr>"
    have "U - checked ?s = (U - checked s) - {t}" by auto
    then have "card (U - checked ?s) < card (U - checked s)"
      using card_Diff1_less [of "U - checked s" t] U(1) False Suc.prems(1) by simp
    then have "card (U - checked ?s) < k" using Suc.prems(2) by simp
    moreover have "snd ` set (fields (kind_of G t)) \<subseteq> U" using U(2) Suc.prems(1) by (simp add: components_fields [symmetric])
    ultimately obtain s' where "check_fields k G t (fields (kind_of G t)) ?s = Some s'"
        "visited G (snd ` set (fields (kind_of G t))) (lower (fields (kind_of G t))) ?s s'"
      using check_fields_visits [of U k G] Suc.IH U(1) by blast
    then show ?thesis using False visited_mark unfolding check_type_fields by auto
  qed
qed simp

definition types_closed :: "types \<Rightarrow> labgob \<Rightarrow> bool" where
  "types_closed G s \<longleftrightarrow> (\<forall>u\<in>checked s. set (components (kind_of G u)) \<subseteq> checked s)"

definition lower_case_fields :: "types \<Rightarrow> tid \<Rightarrow> (string \<times> tid) list" where
  "lower_case_fields G t = (case kind_of G t of Struct fs \<Rightarrow> filter (\<lambda>(n, u). \<not> is_upper n) fs | _ \<Rightarrow> [])"

lemma lower_fields: "lower (fields (kind_of G u)) = int (length (lower_case_fields G u))"
  by (cases "kind_of G u") (auto simp: lower_def lower_case_fields_def is_upper_def)

lemma made_of_subset:
  assumes "\<forall>u\<in>C. set (components (kind_of G u)) \<subseteq> C" "t \<in> C"
  shows "made_of G t \<subseteq> C"
proof
  fix u assume "u \<in> made_of G t"
  then have "(\<lambda>a b. b \<in> set (components (kind_of G a)))\<^sup>*\<^sup>* t u" by (simp add: made_of_def)
  then show "u \<in> C" by (induction rule: rtranclp_induct) (use assms in auto)
qed

lemma checkType_visits: "\<exists>s'. checkType G t s = Some s' \<and> visited G {t} 0 s s'"
proof -
  let ?U = "set (t # all_types G)"
  have "set (components (kind_of G u)) \<subseteq> ?U" for u
    by (auto simp: kind_of_def all_types_def split: option.splits dest: map_of_SomeD intro: bexI)
  moreover have "card (?U - checked s) < Suc (Suc (length (all_types G)))"
    using card_mono [of ?U "?U - checked s"] card_length [of "t # all_types G"] by (simp add: le_imp_less_Suc)
  ultimately show ?thesis unfolding checkType_def by (intro check_type_visits [of ?U]) auto
qed

lemma checkValue_spec:
  assumes "types_closed G s"
  shows "\<exists>s'. checkValue G (Some (t, v)) s = Some (Inr s') \<and> types_closed G s' \<and> checked s' = checked s \<union> made_of G t \<and>
    errorCount s' = errorCount s + (\<Sum>u\<in>made_of G t - checked s. int (length (lower_case_fields G u))) \<and>
    (errorCount s' = errorCount s \<longleftrightarrow> (\<forall>u\<in>made_of G t - checked s. lower_case_fields G u = []))"
proof -
  obtain s' where s': "checkType G t s = Some s'" "visited G {t} 0 s s'" using checkType_visits by blast
  have closed: "types_closed G s'" using assms s'(2) unfolding types_closed_def visited_def by blast
  then have "made_of G t \<subseteq> checked s'" using made_of_subset [of "checked s'" G t] s'(2) by (auto simp: types_closed_def visited_def)
  then have c: "checked s' = checked s \<union> made_of G t" using s'(2) by (auto simp: visited_def)
  have fin: "finite (made_of G t - checked s)" and e: "errorCount s' = errorCount s + (\<Sum>u\<in>made_of G t - checked s. int (length (lower_case_fields G u)))"
    using s'(2) c by (auto simp: visited_def lower_fields Un_Diff)
  have "(\<Sum>u\<in>made_of G t - checked s. int (length (lower_case_fields G u))) = 0 \<longleftrightarrow>
      (\<forall>u\<in>made_of G t - checked s. lower_case_fields G u = [])"
    using fin by (subst sum_nonneg_eq_0_iff) auto
  then show ?thesis using s'(1) closed c e by (auto simp: checkValue_def)
qed

text \<open>
  C36: labgob complains exactly about the fields that gob would not send. The check of a value always returns, also for
  recursive types; after checks of any values before, it marks exactly the types that the value's type is made of, and
  the error count grows by the number of lower-case fields of those of them that were not checked before, so every
  such field is counted once; it does not grow exactly if there are none.
\<close>

theorem checkValue_exact:
  assumes "types_closed G s"
  shows "\<exists>s'. checkValue G (Some (t, v)) s = Some (Inr s') \<and> types_closed G s' \<and> checked s' = checked s \<union> made_of G t \<and>
    errorCount s' = errorCount s + (\<Sum>u\<in>made_of G t - checked s. int (length (lower_case_fields G u))) \<and>
    (errorCount s' = errorCount s \<longleftrightarrow> (\<forall>u\<in>made_of G t - checked s. lower_case_fields G u = []))"
  using assms by (rule checkValue_spec)

text \<open>A recursive list type with a lower-case field.\<close>

definition ex_types :: types where
  "ex_types = [(''List'', Struct [(''Head'', ''int''), (''tail'', ''*List'')]), (''*List'', Ptr ''List'')]"

lemma ex_lower: "lower_case_fields ex_types u = (if u = ''List'' then [(''tail'', ''*List'')] else [])"
  by (simp add: lower_case_fields_def ex_types_def kind_of_def is_upper_def)

lemma checkValue_exact_witness:
  "\<exists>s'. checkValue ex_types (Some (''*List'', VPtr None)) labgob0 = Some (Inr s') \<and> errorCount s' \<noteq> 0"
proof -
  have "''List'' \<in> made_of ex_types ''*List''"
    by (auto simp: made_of_def ex_types_def kind_of_def intro!: r_into_rtranclp)
  then have "\<not> (\<forall>u\<in>made_of ex_types ''*List'' - checked labgob0. lower_case_fields ex_types u = [])"
    by (auto simp: ex_lower labgob0_def)
  moreover have "types_closed ex_types labgob0" by (simp add: types_closed_def labgob0_def)
  ultimately show ?thesis using checkValue_exact [of ex_types labgob0 "''*List''" "VPtr None"] by (auto simp: labgob0_def)
qed

section \<open>What the check of a value does\<close>

text \<open>
  The scalars that are within three levels of structs and pointers of a value, with the flag that tells whether they
  are read-only: reached through an unexported field that is not embedded, or themselves, or a pointer to them, an embedded unexported field.
\<close>

fun near :: "bool \<Rightarrow> bool \<Rightarrow> nat \<Rightarrow> gval \<Rightarrow> (bool \<times> scalar) list" where
  "near sticky emb_ro d (VScalar _ x) = (if d > 3 then [] else [(sticky \<or> emb_ro, x)])"
| "near sticky emb_ro d (VStruct fs) = (if d > 3 then []
     else concat (map (\<lambda>(n, emb, v). near (field_sticky sticky n emb) (field_embed n emb) (d + 1) v) fs))"
| "near sticky emb_ro d (VPtr (Some v)) = (if d > 3 then [] else near sticky emb_ro (d + 1) v)"
| "near sticky emb_ro d (VPtr None) = []"
| "near sticky emb_ro d VOther = []"

definition nonzero :: "(bool \<times> scalar) list \<Rightarrow> nat" where
  "nonzero xs = length (filter (\<lambda>(ro, x). \<not> is_zero x) xs)"

definition hidden :: "(bool \<times> scalar) list \<Rightarrow> bool" where
  "hidden xs \<longleftrightarrow> (\<exists>(ro, x)\<in>set xs. ro)"

text \<open>The state after \<open>n\<close> nonzero scalars: the first of them is reported, unless there were errors before.\<close>

definition warned :: "nat \<Rightarrow> labgob \<Rightarrow> labgob \<Rightarrow> bool" where
  "warned n s s' \<longleftrightarrow> checked s' = checked s \<and> errorCount s' = errorCount s + int n \<and>
     (if n = 0 \<or> 1 \<le> errorCount s then printed s' = printed s else \<exists>what. printed s' = printed s @ [NonDefault what])"

lemma warned_trans: "warned n s s1 \<Longrightarrow> warned m s1 s2 \<Longrightarrow> 0 \<le> errorCount s \<Longrightarrow> warned (n + m) s s2"
  by (auto simp: warned_def split: if_splits)

lemma near_simps: "nonzero (xs @ ys) = nonzero xs + nonzero ys" "hidden (xs @ ys) \<longleftrightarrow> hidden xs \<or> hidden ys"
  by (auto simp: nonzero_def hidden_def)

definition checks_near :: "(bool \<times> scalar) list \<Rightarrow> labgob \<Rightarrow> labgob go \<Rightarrow> bool" where
  "checks_near xs s r \<longleftrightarrow>
     (0 \<le> errorCount s \<longrightarrow> (if hidden xs then r = Inl ReflectPanic else \<exists>s'. r = Inr s' \<and> warned (nonzero xs) s s'))"

lemma checks_near_Nil [simp]: "checks_near [] s (Inr s)"
  by (simp add: checks_near_def hidden_def nonzero_def warned_def)

lemma checks_near_Cons:
  assumes "checks_near xs s r" "\<And>s'. r = Inr s' \<Longrightarrow> checks_near ys s' (f s')"
  shows "checks_near (xs @ ys) s (case r of Inl p \<Rightarrow> Inl p | Inr s' \<Rightarrow> f s')"
proof (cases "hidden xs")
  case True
  then show ?thesis using assms(1) by (simp add: checks_near_def near_simps)
next
  case False
  show ?thesis unfolding checks_near_def
  proof
    assume pos: "0 \<le> errorCount s"
    obtain s' where s': "r = Inr s'" "warned (nonzero xs) s s'" using assms(1) False pos by (auto simp: checks_near_def)
    have "0 \<le> errorCount s'" using s'(2) pos by (simp add: warned_def)
    then show "if hidden (xs @ ys) then (case r of Inl p \<Rightarrow> Inl p | Inr s' \<Rightarrow> f s') = Inl ReflectPanic
        else \<exists>s'. (case r of Inl p \<Rightarrow> Inl p | Inr s' \<Rightarrow> f s') = Inr s' \<and> warned (nonzero (xs @ ys)) s s'"
      using assms(2) [OF s'(1)] s'(1) False warned_trans [OF s'(2) _ pos, of "nonzero ys"]
      by (auto simp: checks_near_def near_simps)
  qed
qed

lemma checkDefault_near:
  "checks_near (near sticky emb_ro d v) s (checkDefault1 sticky emb_ro v d name s)"
  "checks_near (concat (map (\<lambda>(n, emb, v). near (field_sticky sticky n emb) (field_embed n emb) (d + 1) v) fs)) s
     (checkDefault_fields sticky fs d name s)"
proof (induction sticky emb_ro v d name s and sticky fs d name s rule: checkDefault1_checkDefault_fields.induct)
  case (1 sticky emb_ro v depth name s)
  show ?case
  proof (cases v)
    case (VScalar tname x)
    then show ?thesis by (auto simp: checks_near_def hidden_def nonzero_def warned_def warn_nondefault_def)
  next
    case (VPtr w)
    then show ?thesis using 1 by (cases w) simp_all
  qed (use 1 in simp_all)
next
  case (3 sticky n emb v fs depth name s)
  show ?case using checks_near_Cons [OF "3.IH"] by simp
qed simp

text \<open>
  C37: labgob warns exactly about what decoding may leave stale. Decoding into a value adds to the error count the number of
  nonzero scalars within three levels of structs and pointers, and prints a warning exactly if there is one and nothing was counted
  before. But if one of the scalars it looks at is read-only for \<open>reflect\<close>, it does not warn: reading it panics. A scalar is read-only if
  it is reached through an unexported field that is not embedded, or if it is itself, or is pointed to by, an embedded unexported field; exported fields of an
  embedded unexported struct are read and counted.
\<close>

theorem checkDefault_exact:
  assumes "0 \<le> errorCount s"
  shows "(hidden (near False False 1 v) \<longrightarrow> checkDefault (Some (t, v)) s = Inl ReflectPanic) \<and>
    (\<not> hidden (near False False 1 v) \<longrightarrow>
       (\<exists>s'. checkDefault (Some (t, v)) s = Inr s' \<and> errorCount s' = errorCount s + int (nonzero (near False False 1 v)) \<and>
          (printed s' \<noteq> printed s \<longleftrightarrow> errorCount s = 0 \<and> nonzero (near False False 1 v) \<noteq> 0)))"
  using checkDefault_near(1) [of False False 1 v s "[]"] assms
  by (auto simp: checkDefault_def checks_near_def warned_def simp del: checkDefault1.simps split: if_splits)

lemma checkDefault_exact_witness:
  "checkDefault (Some (''T'', VStruct [(''x'', False, VScalar ''int'' (SInt 0))])) labgob0 = Inl ReflectPanic \<and>
   (\<exists>s'. checkDefault (Some (''T'', VStruct [(''inner'', True, VStruct [(''X'', False, VScalar ''int'' (SInt 7))])])) labgob0 = Inr s' \<and>
      errorCount s' = 1)"
  using checkDefault_exact [of labgob0 "VStruct [(''x'', False, VScalar ''int'' (SInt 0))]" "''T''"]
    checkDefault_exact [of labgob0 "VStruct [(''inner'', True, VStruct [(''X'', False, VScalar ''int'' (SInt 7))])]" "''T''"]
  by (auto simp: labgob0_def hidden_def nonzero_def is_upper_def field_sticky_def field_embed_def)

end
