(* ===== verification/Labrpc.thy ===== *)
theory Labrpc
  imports Go_Lib
begin

text \<open>
  \<open>labrpc/labrpc.go\<close>: the simulated network of the labs. A client end is connected to a server by
  name, may be disabled, and a call through it can lose its request or its reply. Servers are
  pointers (numbers), so that a server that was deleted and replaced under the same name is told
  apart. Ends and servers are named by strings. What \<open>rand\<close> returns and what happens while a
  handler runs are arguments.
\<close>

section \<open>State\<close>

definition SHORTDELAY :: int where "SHORTDELAY = 27"
definition LONGDELAY :: int where "LONGDELAY = 7000"
definition MAXDELAY :: int where "MAXDELAY = LONGDELAY + 100"

type_synonym server_ptr = nat

record reqMsg =
  rq_endname :: string
  rq_svcMeth :: string
  rq_args :: "uint8 list"

record replyMsg =
  rp_ok :: bool
  rp_reply :: "uint8 list"

definition failed_reply :: replyMsg where
  "failed_reply = \<lparr>rp_ok = False, rp_reply = []\<rparr>"

text \<open>A map entry can hold nil (\<open>None\<close>), which reads like a missing entry.\<close>

record Network =
  reliable :: bool
  longDelays :: bool
  longReordering :: bool
  ends :: "string set"
  enabled :: "string \<rightharpoonup> bool"
  servers :: "string \<rightharpoonup> server_ptr option"
  connections :: "string \<rightharpoonup> string option"
  net_done :: bool
  net_count :: uint32
  net_bytes :: uint64

definition MakeNetwork :: Network where
  "MakeNetwork = \<lparr>reliable = True, longDelays = False, longReordering = False, ends = {},
     enabled = Map.empty, servers = Map.empty, connections = Map.empty, net_done = False,
     net_count = 0, net_bytes = 0\<rparr>"

section \<open>Configuration\<close>

definition Cleanup :: "Network \<Rightarrow> Network" where
  "Cleanup rn = rn\<lparr>net_done := True\<rparr>"

definition Reliable :: "bool \<Rightarrow> Network \<Rightarrow> Network" where
  "Reliable yes rn = rn\<lparr>reliable := yes\<rparr>"

definition IsReliable :: "Network \<Rightarrow> bool" where
  "IsReliable rn = reliable rn"

definition LongReordering :: "bool \<Rightarrow> Network \<Rightarrow> Network" where
  "LongReordering yes rn = rn\<lparr>longReordering := yes\<rparr>"

definition LongDelays :: "bool \<Rightarrow> Network \<Rightarrow> Network" where
  "LongDelays yes rn = rn\<lparr>longDelays := yes\<rparr>"

definition IsLongDelays :: "Network \<Rightarrow> bool" where
  "IsLongDelays rn = longDelays rn"

definition MakeEnd :: "string \<Rightarrow> Network \<Rightarrow> Network go" where
  "MakeEnd endname rn =
     (if endname \<in> ends rn then Inl LogFatal
      else Inr (rn\<lparr>ends := insert endname (ends rn), enabled := (enabled rn)(endname \<mapsto> False),
                   connections := (connections rn)(endname \<mapsto> None)\<rparr>))"

definition DeleteEnd :: "string \<Rightarrow> Network \<Rightarrow> Network go" where
  "DeleteEnd endname rn =
     (if endname \<notin> ends rn then Inl LogFatal
      else Inr (rn\<lparr>ends := ends rn - {endname}, enabled := (enabled rn)(endname := None),
                   connections := (connections rn)(endname := None)\<rparr>))"

definition AddServer :: "string \<Rightarrow> server_ptr \<Rightarrow> Network \<Rightarrow> Network" where
  "AddServer servername rs rn = rn\<lparr>servers := (servers rn)(servername \<mapsto> Some rs)\<rparr>"

definition DeleteServer :: "string \<Rightarrow> Network \<Rightarrow> Network" where
  "DeleteServer servername rn = rn\<lparr>servers := (servers rn)(servername \<mapsto> None)\<rparr>"

definition Connect :: "string \<Rightarrow> string \<Rightarrow> Network \<Rightarrow> Network" where
  "Connect endname servername rn = rn\<lparr>connections := (connections rn)(endname \<mapsto> Some servername)\<rparr>"

definition Enable :: "string \<Rightarrow> bool \<Rightarrow> Network \<Rightarrow> Network" where
  "Enable endname yes rn = rn\<lparr>enabled := (enabled rn)(endname \<mapsto> yes)\<rparr>"

definition GetTotalCount :: "Network \<Rightarrow> int" where
  "GetTotalCount rn = sint (net_count rn)"

definition GetTotalBytes :: "Network \<Rightarrow> int" where
  "GetTotalBytes rn = sint (net_bytes rn)"

section \<open>One request\<close>

record end_info =
  i_enabled :: bool
  i_servername :: "string option"
  i_server :: "server_ptr option"
  i_reliable :: bool
  i_longreordering :: bool

definition readEndnameInfo :: "string \<Rightarrow> Network \<Rightarrow> end_info" where
  "readEndnameInfo endname rn =
     (let sn = map_get (connections rn) None endname
      in \<lparr>i_enabled = map_get (enabled rn) False endname, i_servername = sn,
          i_server = (case sn of None \<Rightarrow> None | Some n \<Rightarrow> map_get (servers rn) None n),
          i_reliable = reliable rn, i_longreordering = longReordering rn\<rparr>)"

definition isServerDead :: "string \<Rightarrow> string \<Rightarrow> server_ptr \<Rightarrow> Network \<Rightarrow> bool" where
  "isServerDead endname servername server rn \<longleftrightarrow>
     map_get (enabled rn) False endname = False \<or> map_get (servers rn) None servername \<noteq> Some server"

text \<open>
  The goroutine of \<open>MakeNetwork\<close> counts a request before it starts to process it, modulo the widths
  of its counters.
\<close>

definition receive :: "reqMsg \<Rightarrow> Network \<Rightarrow> Network" where
  "receive req rn = rn\<lparr>net_count := net_count rn + 1,
                      net_bytes := net_bytes rn + word_of_nat (length (rq_args req))\<rparr>"

text \<open>
  While the handler runs, \<open>processReq\<close> sees either its result or, every 100 milliseconds, the state of
  the network. The wait ends with the result (\<open>Some True\<close>), with a dead server (\<open>Some False\<close>), or is not over
  when the observed events are used up.
\<close>

datatype wait_event = HandlerDone | Poll Network

fun wait_loop :: "string \<Rightarrow> string \<Rightarrow> server_ptr \<Rightarrow> wait_event list \<Rightarrow> bool option" where
  "wait_loop en sn sv [] = None"
| "wait_loop en sn sv (HandlerDone # evs) = Some True"
| "wait_loop en sn sv (Poll rn # evs) = (if isServerDead en sn sv rn then Some False else wait_loop en sn sv evs)"

text \<open>The random numbers drawn, each the non-negative result of \<open>rand.Int\<close> or \<open>rand.Intn\<close>.\<close>

record choices =
  c_short :: int
  c_drop :: int
  c_drop_reply :: int
  c_reorder :: int
  c_delay :: int
  c_fail :: int

text \<open>
  The result of a request: the server whose handler was started, if any; the delay before the
  answer; the answer; and whether its bytes are counted. \<open>dispatch\<close> is the answer of the handler,
  \<open>evs\<close> what happens while it runs, \<open>rn'\<close> the network when the wait is over. \<open>c_delay\<close> is the value of
  \<open>rand.Intn(1+rand.Intn(2000))\<close>.
\<close>

record outcome =
  o_executed :: "server_ptr option"
  o_delay :: int
  o_reply :: replyMsg
  o_counted :: bool

definition processReq :: "(server_ptr \<Rightarrow> reqMsg \<Rightarrow> replyMsg) \<Rightarrow> choices \<Rightarrow> reqMsg \<Rightarrow> Network \<Rightarrow>
    wait_event list \<Rightarrow> Network \<Rightarrow> outcome option" where
  "processReq dispatch ch req rn evs rn' =
     (let i = readEndnameInfo (rq_endname req) rn
      in case (i_enabled i, i_servername i, i_server i) of
           (True, Some sn, Some sv) \<Rightarrow>
             (let short = (if \<not> i_reliable i then c_short ch mod SHORTDELAY else 0)
              in if \<not> i_reliable i \<and> c_drop ch mod 1000 < 100
                 then Some \<lparr>o_executed = None, o_delay = short, o_reply = failed_reply, o_counted = False\<rparr>
                 else case wait_loop (rq_endname req) sn sv evs of
                   None \<Rightarrow> None
                 | Some replyOK \<Rightarrow>
                     let reply = dispatch sv req
                     in if \<not> replyOK \<or> isServerDead (rq_endname req) sn sv rn'
                        then Some \<lparr>o_executed = Some sv, o_delay = short, o_reply = failed_reply, o_counted = False\<rparr>
                        else if \<not> i_reliable i \<and> c_drop_reply ch mod 1000 < 100
                        then Some \<lparr>o_executed = Some sv, o_delay = short, o_reply = failed_reply, o_counted = False\<rparr>
                        else if i_longreordering i \<and> c_reorder ch < 600
                        then Some \<lparr>o_executed = Some sv, o_delay = short + 200 + c_delay ch, o_reply = reply, o_counted = True\<rparr>
                        else Some \<lparr>o_executed = Some sv, o_delay = short, o_reply = reply, o_counted = True\<rparr>)
         | _ \<Rightarrow> Some \<lparr>o_executed = None,
                      o_delay = (if IsLongDelays rn then c_fail ch mod LONGDELAY else c_fail ch mod 100),
                      o_reply = failed_reply, o_counted = False\<rparr>)"

text \<open>
  \<open>ClientEnd.Call\<close> after its arguments were encoded: it fails at once on a network that was cleaned
  up, otherwise it waits for the answer and decodes it; a reply that cannot be decoded ends the process.
\<close>

definition Call :: "(uint8 list \<Rightarrow> 'r option) \<Rightarrow> bool \<Rightarrow> replyMsg \<Rightarrow> 'r option go" where
  "Call dec closed rep =
     (if closed then Inr None
      else if rp_ok rep then case dec (rp_reply rep) of None \<Rightarrow> Inl LogFatal | Some r \<Rightarrow> Inr (Some r)
      else Inr None)"

section \<open>Servers and services\<close>

text \<open>
  A rpc_method as reflection shows it, with what calling it does: its effect on the receiver's
  state and the encoded reply, from the encoded arguments.
\<close>

record 'st rpc_method =
  m_name :: string
  m_PkgPath :: string
  m_NumIn :: nat
  m_In2_ptr :: bool
  m_NumOut :: nat
  m_call :: "uint8 list \<Rightarrow> 'st \<Rightarrow> 'st \<times> uint8 list"

record 'st Service =
  svc_name :: string
  svc_methods :: "string \<rightharpoonup> 'st rpc_method"

record 'st Server =
  srv_services :: "string \<rightharpoonup> 'st Service"
  srv_count :: int

definition suitable :: "'st rpc_method \<Rightarrow> bool" where
  "suitable m \<longleftrightarrow> \<not> (m_PkgPath m \<noteq> '''' \<or> m_NumIn m \<noteq> 3 \<or> \<not> m_In2_ptr m \<or> m_NumOut m \<noteq> 0)"

definition MakeService :: "string \<Rightarrow> 'st rpc_method list \<Rightarrow> 'st Service" where
  "MakeService name ms =
     foldl (\<lambda>svc m. if suitable m then svc\<lparr>svc_methods := (svc_methods svc)(m_name m \<mapsto> m)\<rparr> else svc)
       \<lparr>svc_name = name, svc_methods = Map.empty\<rparr> ms"

definition MakeServer :: "'st Server" where
  "MakeServer = \<lparr>srv_services = Map.empty, srv_count = 0\<rparr>"

definition AddService :: "'st Service \<Rightarrow> 'st Server \<Rightarrow> 'st Server" where
  "AddService svc rs = rs\<lparr>srv_services := (srv_services rs)(svc_name svc \<mapsto> svc)\<rparr>"

definition Server_GetCount :: "'st Server \<Rightarrow> int" where
  "Server_GetCount rs = srv_count rs"

definition Service_dispatch :: "string \<Rightarrow> reqMsg \<Rightarrow> 'st Service \<Rightarrow> 'st \<Rightarrow> ('st \<times> replyMsg) go" where
  "Service_dispatch methname req svc st =
     (case svc_methods svc methname of
        None \<Rightarrow> Inl LogFatal
      | Some m \<Rightarrow> (case m_call m (rq_args req) st of
                     (st', bs) \<Rightarrow> Inr (st', \<lparr>rp_ok = True, rp_reply = bs\<rparr>)))"

text \<open>Slicing with \<open>dot = -1\<close> panics.\<close>

definition Server_dispatch :: "reqMsg \<Rightarrow> 'st Server \<Rightarrow> 'st \<Rightarrow> ('st Server \<times> 'st \<times> replyMsg) go" where
  "Server_dispatch req rs st =
     (let rs = rs\<lparr>srv_count := srv_count rs + 1\<rparr>; dot = last_index (rq_svcMeth req) CHR ''.''
      in if dot < 0 then Inl IndexPanic
         else let serviceName = take (nat dot) (rq_svcMeth req);
                  methodName = drop (nat dot + 1) (rq_svcMeth req)
              in case srv_services rs serviceName of
                   None \<Rightarrow> Inl LogFatal
                 | Some service \<Rightarrow> (case Service_dispatch methodName req service st of
                       Inl p \<Rightarrow> Inl p
                     | Inr (st', reply) \<Rightarrow> Inr (rs, st', reply)))"

text \<open>\<open>Network.GetCount\<close> dereferences the server it finds under the name.\<close>

definition GetCount :: "(server_ptr \<Rightarrow> 'st Server) \<Rightarrow> string \<Rightarrow> Network \<Rightarrow> int go" where
  "GetCount heap servername rn = (case map_get (servers rn) None servername of
      None \<Rightarrow> Inl NilPanic
    | Some sv \<Rightarrow> Inr (Server_GetCount (heap sv)))"

section \<open>Facts\<close>

text \<open>An end is live in a network if it is enabled and connected to a server that is present.\<close>

definition live :: "string \<Rightarrow> string \<Rightarrow> server_ptr \<Rightarrow> Network \<Rightarrow> bool" where
  "live en sn sv rn \<longleftrightarrow> enabled rn en = Some True \<and> connections rn en = Some (Some sn) \<and>
     servers rn sn = Some (Some sv)"

lemma live_info:
  "live en sn sv rn \<longleftrightarrow> i_enabled (readEndnameInfo en rn) \<and>
     i_servername (readEndnameInfo en rn) = Some sn \<and> i_server (readEndnameInfo en rn) = Some sv"
  by (auto simp: live_def readEndnameInfo_def map_get_def Let_def split: option.splits)

lemma not_live_cases:
  assumes "\<nexists>sn sv. live en sn sv rn"
  shows "\<not> i_enabled (readEndnameInfo en rn) \<or> i_servername (readEndnameInfo en rn) = None \<or>
         i_server (readEndnameInfo en rn) = None"
  using assms live_info [of en _ _ rn] by fastforce

lemma processReq_dead:
  assumes "\<nexists>sn sv. live (rq_endname req) sn sv rn"
  shows "processReq dispatch ch req rn evs rn' = Some \<lparr>o_executed = None,
     o_delay = (if longDelays rn then c_fail ch mod LONGDELAY else c_fail ch mod 100),
     o_reply = failed_reply, o_counted = False\<rparr>"
  using not_live_cases [OF assms]
  by (auto simp: processReq_def Let_def IsLongDelays_def split: option.splits bool.splits)

lemma processReq_live:
  assumes "live (rq_endname req) sn sv rn"
  shows "processReq dispatch ch req rn evs rn' =
    (let short = (if \<not> reliable rn then c_short ch mod SHORTDELAY else 0)
     in if \<not> reliable rn \<and> c_drop ch mod 1000 < 100
        then Some \<lparr>o_executed = None, o_delay = short, o_reply = failed_reply, o_counted = False\<rparr>
        else case wait_loop (rq_endname req) sn sv evs of
          None \<Rightarrow> None
        | Some replyOK \<Rightarrow>
            if \<not> replyOK \<or> isServerDead (rq_endname req) sn sv rn' \<or> (\<not> reliable rn \<and> c_drop_reply ch mod 1000 < 100)
            then Some \<lparr>o_executed = Some sv, o_delay = short, o_reply = failed_reply, o_counted = False\<rparr>
            else Some \<lparr>o_executed = Some sv,
                   o_delay = short + (if longReordering rn \<and> c_reorder ch < 600 then 200 + c_delay ch else 0),
                   o_reply = dispatch sv req, o_counted = True\<rparr>)"
proof -
  have "i_enabled (readEndnameInfo (rq_endname req) rn)" "i_servername (readEndnameInfo (rq_endname req) rn) = Some sn"
    "i_server (readEndnameInfo (rq_endname req) rn) = Some sv" using assms by (simp_all add: live_info)
  moreover have "i_reliable (readEndnameInfo (rq_endname req) rn) = reliable rn"
    "i_longreordering (readEndnameInfo (rq_endname req) rn) = longReordering rn"
    by (simp_all add: readEndnameInfo_def Let_def)
  ultimately show ?thesis by (auto simp: processReq_def Let_def split: option.split)
qed

lemma wait_loop_done:
  "\<forall>rn. Poll rn \<in> set pre \<longrightarrow> \<not> isServerDead en sn sv rn \<Longrightarrow> wait_loop en sn sv (pre @ HandlerDone # post) = Some True"
proof (induction pre)
  case (Cons e pre)
  then show ?case by (cases e) auto
qed simp

lemma take_drop_dot: "c \<notin> set b \<Longrightarrow> last_index (a @ c # b) c = int (length a) \<and>
    take (length a) (a @ c # b) = a \<and> drop (length a + 1) (a @ c # b) = b"
  by (simp add: last_index_split)

definition add_method :: "'st Service \<Rightarrow> 'st rpc_method \<Rightarrow> 'st Service" where
  "add_method svc m = (if suitable m then svc\<lparr>svc_methods := (svc_methods svc)(m_name m \<mapsto> m)\<rparr> else svc)"

lemma add_methods:
  "distinct (map m_name ms) \<Longrightarrow> svc_methods (foldl add_method svc ms) k =
     (case find (\<lambda>m. m_name m = k) ms of
        None \<Rightarrow> svc_methods svc k
      | Some m \<Rightarrow> if suitable m then Some m else svc_methods svc k)"
proof (induction ms arbitrary: svc)
  case (Cons m ms)
  have "find (\<lambda>m'. m_name m' = m_name m) ms = None"
    using Cons.prems by (auto simp: find_None_iff image_iff)
  moreover have "svc_methods (foldl add_method (add_method svc m) ms) k =
     (case find (\<lambda>m. m_name m = k) ms of
        None \<Rightarrow> svc_methods (add_method svc m) k
      | Some m' \<Rightarrow> if suitable m' then Some m' else svc_methods (add_method svc m) k)"
    using Cons.IH Cons.prems by simp
  moreover have "svc_methods (add_method svc m) k =
      (if suitable m \<and> m_name m = k then Some m else svc_methods svc k)" by (simp add: add_method_def)
  ultimately show ?case by (cases "m_name m = k") (auto split: option.split)
qed simp

lemma MakeService_methods:
  "distinct (map m_name ms) \<Longrightarrow> svc_methods (MakeService name ms) k =
     (case find (\<lambda>m. m_name m = k) ms of None \<Rightarrow> None | Some m \<Rightarrow> if suitable m then Some m else None)"
  using add_methods [of ms "\<lparr>svc_name = name, svc_methods = Map.empty\<rparr>" k]
  by (simp add: MakeService_def add_method_def [abs_def] split: option.splits)

lemma svc_name_MakeService: "svc_name (MakeService name ms) = name"
proof -
  have "svc_name (foldl add_method svc ms) = svc_name svc" for svc :: "'a Service"
    by (induction ms arbitrary: svc) (simp_all add: add_method_def)
  from this [of "\<lparr>svc_name = name, svc_methods = Map.empty\<rparr>"] show ?thesis
    by (simp add: MakeService_def add_method_def [abs_def])
qed

section \<open>Properties\<close>

text \<open>
  C24: what an answer means. A request is answered positively only if it was executed, once, by the
  server its end was connected to, that server is still the one registered under its name and
  the end is still enabled when the handler has finished, and the answer is the handler's. So no
  positive answer comes from a server that was deleted or replaced meanwhile. A request on an end
  that is disabled, not connected or connected to no server is never executed and fails.
\<close>

theorem call_reply_sound:
  assumes "processReq dispatch ch req rn evs rn' = Some out"
  shows "(rp_ok (o_reply out) \<longrightarrow> (\<exists>sn sv. live (rq_endname req) sn sv rn \<and> o_executed out = Some sv \<and>
            o_reply out = dispatch sv req \<and> HandlerDone \<in> set evs \<and>
            enabled rn' (rq_endname req) = Some True \<and> servers rn' sn = Some (Some sv))) \<and>
         ((\<nexists>sn sv. live (rq_endname req) sn sv rn) \<longrightarrow> o_executed out = None \<and> o_reply out = failed_reply)"
proof (cases "\<exists>sn sv. live (rq_endname req) sn sv rn")
  case False
  then show ?thesis using assms processReq_dead [OF False] by (auto simp: failed_reply_def)
next
  case True
  then obtain sn sv where l: "live (rq_endname req) sn sv rn" by blast
  have w: "wait_loop en sn sv evs = Some True \<Longrightarrow> HandlerDone \<in> set evs" for en sn sv
    by (induction en sn sv evs rule: wait_loop.induct) (auto split: if_splits)
  have d: "\<not> isServerDead (rq_endname req) sn sv rn' \<Longrightarrow>
      enabled rn' (rq_endname req) = Some True \<and> servers rn' sn = Some (Some sv)"
    by (auto simp: isServerDead_def map_get_def split: option.splits)
  show ?thesis
    using assms l w d unfolding processReq_live [OF l]
    by (auto simp: Let_def failed_reply_def split: if_splits option.splits)
qed

definition net_a :: Network where
  "net_a = Enable ''e'' True (Connect ''e'' ''s'' (AddServer ''s'' 7
     (MakeNetwork\<lparr>ends := {''e''}\<rparr>)))"

definition choices_a :: choices where
  "choices_a = \<lparr>c_short = 0, c_drop = 0, c_drop_reply = 0, c_reorder = 0, c_delay = 0, c_fail = 0\<rparr>"

lemma live_a: "live ''e'' ''s'' 7 net_a"
  by (simp add: live_def net_a_def Enable_def Connect_def AddServer_def)

theorem call_reply_sound_witness:
  "\<exists>out. processReq (\<lambda>sv req. \<lparr>rp_ok = True, rp_reply = [1]\<rparr>) choices_a
       \<lparr>rq_endname = ''e'', rq_svcMeth = ''A.B'', rq_args = []\<rparr> net_a [HandlerDone] (DeleteServer ''s'' net_a) = Some out \<and>
     \<not> rp_ok (o_reply out)"
proof -
  let ?req = "\<lparr>rq_endname = ''e'', rq_svcMeth = ''A.B'', rq_args = []\<rparr>"
  let ?d = "\<lambda>sv req. \<lparr>rp_ok = True, rp_reply = [1]\<rparr>"
  have l: "live (rq_endname ?req) ''s'' 7 net_a" using live_a by simp
  have r: "reliable net_a"
    by (simp add: net_a_def Enable_def Connect_def AddServer_def MakeNetwork_def)
  have "\<exists>out. processReq ?d choices_a ?req net_a [HandlerDone] (DeleteServer ''s'' net_a) = Some out"
    using r by (simp add: processReq_live [OF l] Let_def split: if_split)
  then obtain out where out: "processReq ?d choices_a ?req net_a [HandlerDone] (DeleteServer ''s'' net_a) = Some out"
    by blast
  have "servers (DeleteServer ''s'' net_a) sn \<noteq> Some (Some sv)" for sn sv
    by (simp add: DeleteServer_def net_a_def Enable_def Connect_def AddServer_def MakeNetwork_def)
  then show ?thesis using call_reply_sound [OF out] out by blast
qed

text \<open>
  C25: a reliable network delivers. On a network set to reliable, a request on a live end whose server
  stays registered and whose end stays enabled until the handler has finished is executed by that
  server and answered with the handler's reply, whatever random numbers are drawn.
\<close>

theorem reliable_network_delivers:
  assumes "live (rq_endname req) sn sv rn" "reliable rn"
    and "\<forall>r. Poll r \<in> set pre \<longrightarrow> \<not> isServerDead (rq_endname req) sn sv r"
    and "\<not> isServerDead (rq_endname req) sn sv rn'"
  shows "\<exists>out. processReq dispatch ch req rn (pre @ HandlerDone # post) rn' = Some out \<and>
           o_executed out = Some sv \<and> o_reply out = dispatch sv req"
  using assms by (simp add: processReq_live [OF assms(1)] wait_loop_done)

theorem reliable_network_delivers_witness:
  "\<exists>out. processReq (\<lambda>sv req. \<lparr>rp_ok = True, rp_reply = [1]\<rparr>) choices_a
       \<lparr>rq_endname = ''e'', rq_svcMeth = ''A.B'', rq_args = []\<rparr> net_a ([Poll net_a] @ HandlerDone # []) net_a = Some out \<and>
     o_executed out = Some 7 \<and> rp_ok (o_reply out)"
proof -
  let ?req = "\<lparr>rq_endname = ''e'', rq_svcMeth = ''A.B'', rq_args = []\<rparr>"
  have "live (rq_endname ?req) ''s'' 7 net_a" using live_a by simp
  moreover have "reliable net_a" "\<not> isServerDead (rq_endname ?req) ''s'' 7 net_a"
    by (simp_all add: net_a_def Enable_def Connect_def AddServer_def MakeNetwork_def isServerDead_def map_get_def)
  ultimately show ?thesis
    using reliable_network_delivers [of ?req "''s''" 7 net_a "[Poll net_a]" net_a
        "\<lambda>sv req. \<lparr>rp_ok = True, rp_reply = [1]\<rparr>" choices_a "[]"] by auto
qed

text \<open>
  Dispatch finds the method. A request for \<open>Service.Method\<close>, where the method name has no dot,
  runs exactly the rpc_method of that name of the service of that name, counts one request on the server,
  and answers positively with the method's reply; only methods of the shape of a handler can be
  called, and every other name ends the process or panics, without effect on the receiver.
\<close>

theorem dispatch_routes:
  assumes "distinct (map m_name ms)" "CHR ''.'' \<notin> set meth"
    "srv_services rs svc = Some (MakeService svc ms)"
  shows "Server_dispatch \<lparr>rq_endname = en, rq_svcMeth = svc @ ''.'' @ meth, rq_args = args\<rparr> rs st =
    (case find (\<lambda>m. m_name m = meth) ms of
       Some m \<Rightarrow> if suitable m
                 then Inr (rs\<lparr>srv_count := srv_count rs + 1\<rparr>, fst (m_call m args st),
                           \<lparr>rp_ok = True, rp_reply = snd (m_call m args st)\<rparr>)
                 else Inl LogFatal
     | None \<Rightarrow> Inl LogFatal)"
  using take_drop_dot [OF assms(2), of svc] assms(3) MakeService_methods [OF assms(1)]
  by (auto simp: Server_dispatch_def Service_dispatch_def Let_def split_beta split: option.splits)

theorem dispatch_routes_witness:
  "let m = \<lparr>m_name = ''Get'', m_PkgPath = '''', m_NumIn = 3, m_In2_ptr = True, m_NumOut = 0,
            m_call = (\<lambda>a st. (st + 1, a))\<rparr>;
       rs = AddService (MakeService ''KV'' [m]) MakeServer
   in Server_dispatch \<lparr>rq_endname = ''e'', rq_svcMeth = ''KV'' @ ''.'' @ ''Get'', rq_args = [5]\<rparr> rs (0 :: nat) =
        Inr (rs\<lparr>srv_count := 1\<rparr>, 1, \<lparr>rp_ok = True, rp_reply = [5]\<rparr>)"
proof -
  define m :: "nat rpc_method" where "m = \<lparr>m_name = ''Get'', m_PkgPath = '''', m_NumIn = 3, m_In2_ptr = True,
    m_NumOut = 0, m_call = (\<lambda>a st. (st + 1, a))\<rparr>"
  define rs where "rs = AddService (MakeService ''KV'' [m]) MakeServer"
  have "srv_services rs ''KV'' = Some (MakeService ''KV'' [m])"
    by (simp add: rs_def AddService_def svc_name_MakeService)
  moreover have "distinct (map m_name [m])" "CHR ''.'' \<notin> set ''Get''" "srv_count rs = 0"
    by (simp_all add: rs_def AddService_def MakeServer_def)
  ultimately have "Server_dispatch \<lparr>rq_endname = ''e'', rq_svcMeth = ''KV'' @ ''.'' @ ''Get'', rq_args = [5]\<rparr> rs (0 :: nat) =
        Inr (rs\<lparr>srv_count := 1\<rparr>, 1, \<lparr>rp_ok = True, rp_reply = [5]\<rparr>)"
    using dispatch_routes [of "[m]" "''Get''" rs "''KV''" "''e''" "[5]" 0] by (simp add: m_def suitable_def)
  then show ?thesis unfolding rs_def m_def by simp
qed

end
