(* ===== verification/Tester_Group.thy ===== *)
theory Tester_Group
  imports Labrpc Persister
begin

text \<open>
  \<open>tester1/srv.go\<close> and \<open>tester1/group.go\<close>: the servers of a test. A group starts, stops and restarts
  its servers, keeps their persisted state across restarts and decides which servers can reach which
  by enabling and disabling the ends between them; it is the client of the simulated network and of the
  persister. The random names of ends are a sequence \<open>rnd\<close>, of which \<open>t_draw\<close> have been drawn.
  Persisters are pointers, numbers into the world of persisters; the services of a server
  are values of any type, and what starting and killing them does to persisters (\<open>mks\<close>, \<open>kill\<close>) is a
  sequence of operations on that world. Locks are not modelled: every operation runs to its end.
\<close>

section \<open>State\<close>

definition ServerName :: "int \<Rightarrow> nat \<Rightarrow> string" where
  "ServerName gid i = ''server-'' @ itoa gid @ ''-'' @ itoa (int i)"

text \<open>
  What all groups and clients of a test share: the network, the random names drawn so far, the
  persisters, the allocated RPC servers with their services, and the services killed so far.
\<close>

record 'svc shared =
  t_net :: Network
  t_draw :: nat
  t_world :: world
  t_labsrvs :: "'svc list list"
  t_killed :: "'svc list"

text \<open>An end is known by its name; \<open>endNames\<close> is never nil, because \<open>makeServer\<close> always allocates it.\<close>

record 'svc Tserver =
  saved :: "nat option"
  svcs :: "'svc list"
  endNames :: "string list"
  clntEnds :: "string list"

record 'svc ServerGrp =
  sg_srvs :: "'svc Tserver list"
  servernames :: "string list"
  sg_gid :: int
  sg_connected :: "bool list"

type_synonym 'svc FstartServer = "string list \<Rightarrow> int \<Rightarrow> nat \<Rightarrow> nat \<Rightarrow> 'svc list \<times> pop list"

section \<open>One server\<close>

definition make_end :: "(nat \<Rightarrow> string) \<Rightarrow> int \<Rightarrow> nat \<Rightarrow> 'svc Tserver \<times> 'svc shared \<Rightarrow>
    ('svc Tserver \<times> 'svc shared) go" where
  "make_end rnd gid j st = (case st of (srv, ts) \<Rightarrow>
     let name = rnd (t_draw ts)
     in case MakeEnd name (t_net ts) of
          Inl p \<Rightarrow> Inl p
        | Inr net \<Rightarrow> Inr (srv\<lparr>endNames := (endNames srv)[j := name], clntEnds := (clntEnds srv)[j := name]\<rparr>,
                         ts\<lparr>t_net := Connect name (ServerName gid j) net, t_draw := Suc (t_draw ts)\<rparr>))"

definition makeServer :: "(nat \<Rightarrow> string) \<Rightarrow> int \<Rightarrow> nat \<Rightarrow> 'svc shared \<Rightarrow> ('svc Tserver \<times> 'svc shared) go" where
  "makeServer rnd gid nsrv ts = go_fold (make_end rnd gid) [0..<nsrv]
     (\<lparr>saved = None, svcs = [], endNames = replicate nsrv '''', clntEnds = replicate nsrv ''''\<rparr>, ts)"

text \<open>A new persister has the next number.\<close>

definition new_persister :: "pop \<Rightarrow> 'svc shared \<Rightarrow> nat \<times> 'svc shared" where
  "new_persister x ts = (length (pers (t_world ts)), ts\<lparr>t_world := world_op x (t_world ts)\<rparr>)"

definition startServer :: "(nat \<Rightarrow> string) \<Rightarrow> int \<Rightarrow> 'svc Tserver \<Rightarrow> 'svc shared \<Rightarrow> ('svc Tserver \<times> 'svc shared) go" where
  "startServer rnd gid s ts = (case makeServer rnd gid (length (endNames s)) ts of
      Inl p \<Rightarrow> Inl p
    | Inr (srv, ts) \<Rightarrow>
        let (q, ts) = new_persister (case saved s of Some p \<Rightarrow> PCopy p | None \<Rightarrow> PMake) ts
        in Inr (srv\<lparr>saved := Some q\<rparr>, ts))"

definition server_connect :: "bool list \<Rightarrow> nat list \<Rightarrow> 'svc Tserver \<Rightarrow> Network \<Rightarrow> Network go" where
  "server_connect conn to s = go_fold (\<lambda>j net. case go_index conn (int j) of
      Inl p \<Rightarrow> Inl p
    | Inr up \<Rightarrow> if up then (case go_index (endNames s) (int j) of
                             Inl p \<Rightarrow> Inl p
                           | Inr endname \<Rightarrow> Inr (Enable endname True net))
                else Inr net) to"

definition server_disconnect :: "nat list \<Rightarrow> 'svc Tserver \<Rightarrow> Network \<Rightarrow> Network go" where
  "server_disconnect from s = go_fold (\<lambda>j net. case go_index (endNames s) (int j) of
      Inl p \<Rightarrow> Inl p
    | Inr endname \<Rightarrow> Inr (Enable endname False net)) from"

text \<open>Killing services: each is told to stop, in order.\<close>

definition kill_services :: "('svc \<Rightarrow> pop list) \<Rightarrow> 'svc list \<Rightarrow> 'svc shared \<Rightarrow> 'svc shared" where
  "kill_services kill ss ts = fold (\<lambda>svc ts. ts\<lparr>t_world := fold world_op (kill svc) (t_world ts),
                                           t_killed := t_killed ts @ [svc]\<rparr>) ss ts"

definition shutdownServer :: "('svc \<Rightarrow> pop list) \<Rightarrow> 'svc Tserver \<Rightarrow> 'svc shared \<Rightarrow> 'svc Tserver \<times> 'svc shared" where
  "shutdownServer kill s ts =
     (let (s, ts) = (case saved s of
            Some p \<Rightarrow> let (q, ts) = new_persister (PCopy p) ts in (s\<lparr>saved := Some q\<rparr>, ts)
          | None \<Rightarrow> (s, ts));
          ts = kill_services kill (svcs s) ts
      in (s\<lparr>svcs := []\<rparr>, ts))"

section \<open>A group of servers\<close>

type_synonym 'svc grp_state = "'svc ServerGrp \<times> 'svc shared"

definition makeSrvGrp :: "(nat \<Rightarrow> string) \<Rightarrow> int \<Rightarrow> nat \<Rightarrow> 'svc shared \<Rightarrow> 'svc grp_state go" where
  "makeSrvGrp rnd gid n ts = (case go_fold (\<lambda>i (ss, ts). case makeServer rnd gid n ts of
        Inl p \<Rightarrow> Inl p | Inr (srv, ts) \<Rightarrow> Inr (ss @ [srv], ts)) [0..<n] ([], ts) of
      Inl p \<Rightarrow> Inl p
    | Inr (ss, ts) \<Rightarrow> Inr (\<lparr>sg_srvs = ss, servernames = map (ServerName gid) [0..<n], sg_gid = gid,
                           sg_connected = replicate n False\<rparr>, ts))"

definition sg_N :: "'svc ServerGrp \<Rightarrow> nat" where
  "sg_N sg = length (sg_srvs sg)"

definition SrvNames :: "'svc ServerGrp \<Rightarrow> string list" where
  "SrvNames sg = servernames sg"

definition SrvName :: "int \<Rightarrow> 'svc ServerGrp \<Rightarrow> string go" where
  "SrvName i sg = go_index (servernames sg) i"

definition Services :: "'svc ServerGrp \<Rightarrow> 'svc list list" where
  "Services sg = map svcs (sg_srvs sg)"

fun SrvNamesTo :: "int list \<Rightarrow> 'svc ServerGrp \<Rightarrow> string list go" where
  "SrvNamesTo [] sg = Inr []"
| "SrvNamesTo (i # to) sg = (case go_index (servernames sg) i of
      Inl p \<Rightarrow> Inl p
    | Inr s \<Rightarrow> (case SrvNamesTo to sg of Inl p \<Rightarrow> Inl p | Inr ns \<Rightarrow> Inr (s # ns)))"

definition sg_all :: "'svc ServerGrp \<Rightarrow> nat list" where
  "sg_all sg = [0..<length (sg_srvs sg)]"

definition IsConnected :: "nat \<Rightarrow> 'svc ServerGrp \<Rightarrow> bool go" where
  "IsConnected i sg = go_index (sg_connected sg) (int i)"

definition GetConnected :: "'svc ServerGrp \<Rightarrow> bool list" where
  "GetConnected sg = sg_connected sg"

text \<open>The incoming ends: the end of server \<open>x\<close> to server \<open>i\<close>, for each \<open>x\<close> of a list.\<close>

definition enable_incoming :: "nat \<Rightarrow> bool \<Rightarrow> 'svc ServerGrp \<Rightarrow> nat \<Rightarrow> Network \<Rightarrow> Network go" where
  "enable_incoming i yes sg x net = (case go_index (sg_srvs sg) (int x) of
      Inl p \<Rightarrow> Inl p
    | Inr s \<Rightarrow> (case go_index (endNames s) (int i) of
        Inl p \<Rightarrow> Inl p
      | Inr endname \<Rightarrow> Inr (Enable endname yes net)))"

definition connect :: "nat \<Rightarrow> nat list \<Rightarrow> 'svc grp_state \<Rightarrow> 'svc grp_state go" where
  "connect i to st = (case st of (sg, ts) \<Rightarrow>
     (case go_update (sg_connected sg) (int i) True of
        Inl p \<Rightarrow> Inl p
      | Inr conn \<Rightarrow> (case go_index (sg_srvs sg) (int i) of
          Inl p \<Rightarrow> Inl p
        | Inr s \<Rightarrow> (case server_connect conn to s (t_net ts) of
            Inl p \<Rightarrow> Inl p
          | Inr net \<Rightarrow> (case go_fold (\<lambda>x net. case go_index conn (int x) of
                  Inl p \<Rightarrow> Inl p
                | Inr up \<Rightarrow> if up then enable_incoming i True sg x net else Inr net) to net of
              Inl p \<Rightarrow> Inl p
            | Inr net \<Rightarrow> Inr (sg\<lparr>sg_connected := conn\<rparr>, ts\<lparr>t_net := net\<rparr>))))))"

definition disconnect :: "nat \<Rightarrow> nat list \<Rightarrow> 'svc grp_state \<Rightarrow> 'svc grp_state go" where
  "disconnect i from st = (case st of (sg, ts) \<Rightarrow>
     (case go_update (sg_connected sg) (int i) False of
        Inl p \<Rightarrow> Inl p
      | Inr conn \<Rightarrow> (case go_index (sg_srvs sg) (int i) of
          Inl p \<Rightarrow> Inl p
        | Inr s \<Rightarrow> (case server_disconnect from s (t_net ts) of
            Inl p \<Rightarrow> Inl p
          | Inr net \<Rightarrow> (case go_fold (enable_incoming i False sg) from net of
              Inl p \<Rightarrow> Inl p
            | Inr net \<Rightarrow> Inr (sg\<lparr>sg_connected := conn\<rparr>, ts\<lparr>t_net := net\<rparr>))))))"

definition ConnectOne :: "nat \<Rightarrow> 'svc grp_state \<Rightarrow> 'svc grp_state go" where
  "ConnectOne i st = connect i (sg_all (fst st)) st"

definition ConnectAll :: "'svc grp_state \<Rightarrow> 'svc grp_state go" where
  "ConnectAll st = go_fold ConnectOne (sg_all (fst st)) st"

definition DisconnectAll :: "nat \<Rightarrow> 'svc grp_state \<Rightarrow> 'svc grp_state go" where
  "DisconnectAll i st = disconnect i (sg_all (fst st)) st"

definition sg_cleanup :: "('svc \<Rightarrow> pop list) \<Rightarrow> 'svc grp_state \<Rightarrow> 'svc shared" where
  "sg_cleanup kill st = fold (\<lambda>s ts. kill_services kill (svcs s) ts) (sg_srvs (fst st)) (snd st)"

text \<open>A server that was never started has no persister, and its size is a nil dereference.\<close>

definition max_size :: "(Persister \<Rightarrow> nat) \<Rightarrow> 'svc grp_state \<Rightarrow> nat go" where
  "max_size sz st = go_fold (\<lambda>s n. case saved s of
      None \<Rightarrow> Inl NilPanic
    | Some p \<Rightarrow> let k = sz (pers (t_world (snd st)) ! p) in Inr (if k > n then k else n)) (sg_srvs (fst st)) 0"

definition LogSize :: "'svc grp_state \<Rightarrow> nat go" where
  "LogSize st = max_size (RaftStateSize (wheap (t_world (snd st)))) st"

definition sg_SnapshotSize :: "'svc grp_state \<Rightarrow> nat go" where
  "sg_SnapshotSize st = max_size (SnapshotSize (wheap (t_world (snd st)))) st"

definition StartServer :: "(nat \<Rightarrow> string) \<Rightarrow> 'svc FstartServer \<Rightarrow> nat \<Rightarrow> 'svc grp_state \<Rightarrow> 'svc grp_state go" where
  "StartServer rnd mks i st = (case st of (sg, ts) \<Rightarrow>
     (case go_index (sg_srvs sg) (int i) of
        Inl p \<Rightarrow> Inl p
      | Inr s \<Rightarrow> (case startServer rnd (sg_gid sg) s ts of
          Inl p \<Rightarrow> Inl p
        | Inr (srv, ts) \<Rightarrow>
            let (ss, ops) = mks (clntEnds srv) (sg_gid sg) i (the (saved srv));
                srv = srv\<lparr>svcs := ss\<rparr>;
                ts = ts\<lparr>t_world := fold world_op ops (t_world ts)\<rparr>;
                ptr = length (t_labsrvs ts)
            in Inr (sg\<lparr>sg_srvs := (sg_srvs sg)[i := srv]\<rparr>,
                    ts\<lparr>t_labsrvs := t_labsrvs ts @ [ss],
                       t_net := AddServer (ServerName (sg_gid sg) i) ptr (t_net ts)\<rparr>))))"

definition sg_start :: "(nat \<Rightarrow> string) \<Rightarrow> 'svc FstartServer \<Rightarrow> 'svc grp_state \<Rightarrow> 'svc grp_state go" where
  "sg_start rnd mks st = go_fold (StartServer rnd mks) (sg_all (fst st)) st"

definition StartServers :: "(nat \<Rightarrow> string) \<Rightarrow> 'svc FstartServer \<Rightarrow> 'svc grp_state \<Rightarrow> 'svc grp_state go" where
  "StartServers rnd mks st = (case sg_start rnd mks st of Inl p \<Rightarrow> Inl p | Inr st \<Rightarrow> ConnectAll st)"

definition ShutdownServer :: "('svc \<Rightarrow> pop list) \<Rightarrow> nat \<Rightarrow> 'svc grp_state \<Rightarrow> 'svc grp_state go" where
  "ShutdownServer kill i st = (case disconnect i (sg_all (fst st)) st of
      Inl p \<Rightarrow> Inl p
    | Inr (sg, ts) \<Rightarrow>
        let ts = ts\<lparr>t_net := DeleteServer (ServerName (sg_gid sg) i) (t_net ts)\<rparr>
        in case go_index (sg_srvs sg) (int i) of
             Inl p \<Rightarrow> Inl p
           | Inr s \<Rightarrow> let (s, ts) = shutdownServer kill s ts
                      in Inr (sg\<lparr>sg_srvs := (sg_srvs sg)[i := s]\<rparr>, ts))"

definition Shutdown :: "('svc \<Rightarrow> pop list) \<Rightarrow> 'svc grp_state \<Rightarrow> 'svc grp_state go" where
  "Shutdown kill st = go_fold (ShutdownServer kill) (sg_all (fst st)) st"

text \<open>
  The loop of \<open>MakePartition\<close> fills two arrays of sizes \<open>n/2+1\<close> and \<open>n/2\<close> with the servers other
  than \<open>l\<close>; then \<open>l\<close> is put at the end of the second.
\<close>

definition part_step :: "nat \<Rightarrow> nat \<Rightarrow> nat list \<times> nat list \<times> nat \<Rightarrow> (nat list \<times> nat list \<times> nat) go" where
  "part_step l i st = (case st of (p1, p2, j) \<Rightarrow>
     if i \<noteq> l
     then if j < length p1
          then (case go_update p1 (int j) i of Inl p \<Rightarrow> Inl p | Inr p1 \<Rightarrow> Inr (p1, p2, j + 1))
          else (case go_update p2 (int j - int (length p1)) i of Inl p \<Rightarrow> Inl p | Inr p2 \<Rightarrow> Inr (p1, p2, j + 1))
     else Inr (p1, p2, j))"

definition MakePartition :: "nat \<Rightarrow> 'svc ServerGrp \<Rightarrow> (nat list \<times> nat list) go" where
  "MakePartition l sg =
     (let n = length (sg_srvs sg)
      in case go_fold (part_step l) [0..<n] (replicate (n div 2 + 1) 0, replicate (n div 2) 0, 0) of
           Inl p \<Rightarrow> Inl p
         | Inr (p1, p2, _) \<Rightarrow> (case go_update p2 (int (length p2) - 1) l of
               Inl p \<Rightarrow> Inl p
             | Inr p2 \<Rightarrow> Inr (p1, p2)))"

definition part_half :: "nat list \<Rightarrow> nat list \<Rightarrow> 'svc grp_state \<Rightarrow> 'svc grp_state go" where
  "part_half p1 p2 = go_fold (\<lambda>i st. case disconnect i p2 st of Inl p \<Rightarrow> Inl p | Inr st \<Rightarrow> connect i p1 st) p1"

definition sg_Partition :: "nat list \<Rightarrow> nat list \<Rightarrow> 'svc grp_state \<Rightarrow> 'svc grp_state go" where
  "sg_Partition p1 p2 st = (case part_half p1 p2 st of Inl p \<Rightarrow> Inl p | Inr st \<Rightarrow> part_half p2 p1 st)"

definition RpcCount :: "(server_ptr \<Rightarrow> 'st Server) \<Rightarrow> nat \<Rightarrow> 'svc grp_state \<Rightarrow> int go" where
  "RpcCount heap i st = GetCount heap (ServerName (sg_gid (fst st)) i) (t_net (snd st))"

section \<open>Shared facts\<close>

text \<open>Enabling or disabling a list of ends.\<close>

definition enable_ends :: "bool \<Rightarrow> string list \<Rightarrow> Network \<Rightarrow> Network" where
  "enable_ends v es = fold (\<lambda>e. Enable e v) es"

lemma enable_ends_eq:
  "enable_ends v es net = net\<lparr>enabled := (\<lambda>e. if e \<in> set es then Some v else enabled net e)\<rparr>"
proof (induction es arbitrary: net)
  case (Cons e es)
  have "enable_ends v (e # es) net = enable_ends v es (Enable e v net)" by (simp add: enable_ends_def)
  then show ?case unfolding Cons.IH by (auto simp: Enable_def fun_eq_iff)
qed (simp add: enable_ends_def)

lemma enable_ends_append: "enable_ends v (xs @ ys) net = enable_ends v ys (enable_ends v xs net)"
  by (simp add: enable_ends_def)

lemma enable_ends_fold:
  "fold (\<lambda>x net. if P x then Enable (f x) v net else net) xs net = enable_ends v (map f (filter P xs)) net"
  by (induction xs arbitrary: net) (auto simp: enable_ends_def)

end
