(* ===== verification/Tester_Links.thy ===== *)
theory Tester_Links
  imports Tester_Group
begin

text \<open>
  What the server groups of the tester achieve on the simulated network and on the persisters: they
  implement an abstract matrix of links between servers, for any sequence of operations; partitions
  separate a leader from a majority; and a restarted server is given the state that its predecessor
  had persisted.
\<close>

section \<open>Who can reach whom\<close>

text \<open>
  The abstract view of a group: which servers are marked connected, between which servers the end is
  enabled, and which servers are registered with the network. The invariant: every server has an end of
  its own to every server, connected to it by name, and all names in use have been drawn.
\<close>

definition end_of :: "'svc ServerGrp \<Rightarrow> nat \<Rightarrow> nat \<Rightarrow> string" where
  "end_of sg i j = endNames (sg_srvs sg ! i) ! j"

record links =
  l_conn :: "nat \<Rightarrow> bool"
  l_link :: "nat \<Rightarrow> nat \<Rightarrow> bool"
  l_up :: "nat \<Rightarrow> bool"

definition grp_links :: "nat \<Rightarrow> 'svc grp_state \<Rightarrow> links" where
  "grp_links n st = \<lparr>l_conn = \<lambda>i. i < n \<and> sg_connected (fst st) ! i,
     l_link = \<lambda>i j. i < n \<and> j < n \<and> map_get (enabled (t_net (snd st))) False (end_of (fst st) i j),
     l_up = \<lambda>i. i < n \<and> map_get (servers (t_net (snd st))) None (ServerName (sg_gid (fst st)) i) \<noteq> None\<rparr>"

definition names_inv :: "(nat \<Rightarrow> string) \<Rightarrow> 'svc shared \<Rightarrow> bool" where
  "names_inv rnd ts \<longleftrightarrow> inj rnd \<and> ends (t_net ts) \<subseteq> rnd ` {..<t_draw ts}"

definition grp_inv :: "(nat \<Rightarrow> string) \<Rightarrow> nat \<Rightarrow> 'svc grp_state \<Rightarrow> bool" where
  "grp_inv rnd n st \<longleftrightarrow> names_inv rnd (snd st) \<and>
     length (sg_srvs (fst st)) = n \<and> length (sg_connected (fst st)) = n \<and>
     (\<forall>i<n. length (endNames (sg_srvs (fst st) ! i)) = n) \<and>
     (\<forall>i<n. \<forall>j<n. \<exists>k<t_draw (snd st). end_of (fst st) i j = rnd k) \<and>
     (\<forall>i<n. \<forall>j<n. \<forall>k<n. \<forall>l<n. end_of (fst st) i j = end_of (fst st) k l \<longrightarrow> i = k \<and> j = l) \<and>
     (\<forall>i<n. \<forall>j<n. connections (t_net (snd st)) (end_of (fst st) i j) = Some (Some (ServerName (sg_gid (fst st)) j)))"

text \<open>
  The operations that change reachability. Starting a server gives it new ends, all disabled, and
  registers it; stopping it disables its ends in both directions and removes it.
\<close>

datatype link_call = LConnect nat "nat list" | LDisconnect nat "nat list" | LStart nat | LStop nat

fun link_op :: "nat \<Rightarrow> link_call \<Rightarrow> links \<Rightarrow> links" where
  "link_op n (LConnect i to) s = s\<lparr>l_conn := (l_conn s)(i := True),
     l_link := \<lambda>a b. l_link s a b \<or> (a = i \<and> b \<in> set to \<and> (b = i \<or> l_conn s b)) \<or>
                     (b = i \<and> a \<in> set to \<and> (a = i \<or> l_conn s a))\<rparr>"
| "link_op n (LDisconnect i from) s = s\<lparr>l_conn := (l_conn s)(i := False),
     l_link := \<lambda>a b. l_link s a b \<and> \<not> (a = i \<and> b \<in> set from) \<and> \<not> (b = i \<and> a \<in> set from)\<rparr>"
| "link_op n (LStart i) s = s\<lparr>l_link := \<lambda>a b. a \<noteq> i \<and> l_link s a b, l_up := (l_up s)(i := True)\<rparr>"
| "link_op n (LStop i) s = s\<lparr>l_conn := (l_conn s)(i := False),
     l_link := \<lambda>a b. l_link s a b \<and> \<not> (a = i \<and> b < n) \<and> \<not> (b = i \<and> a < n), l_up := (l_up s)(i := False)\<rparr>"

fun grp_op :: "(nat \<Rightarrow> string) \<Rightarrow> 'svc FstartServer \<Rightarrow> ('svc \<Rightarrow> pop list) \<Rightarrow> link_call \<Rightarrow> 'svc grp_state \<Rightarrow> 'svc grp_state go" where
  "grp_op rnd mks kill (LConnect i to) st = connect i to st"
| "grp_op rnd mks kill (LDisconnect i from) st = disconnect i from st"
| "grp_op rnd mks kill (LStart i) st = StartServer rnd mks i st"
| "grp_op rnd mks kill (LStop i) st = ShutdownServer kill i st"

fun op_servers :: "link_call \<Rightarrow> nat set" where
  "op_servers (LConnect i to) = insert i (set to)"
| "op_servers (LDisconnect i from) = insert i (set from)"
| "op_servers (LStart i) = {i}"
| "op_servers (LStop i) = {i}"

lemma ServerName_inject: "ServerName gid i = ServerName gid j \<longleftrightarrow> i = j"
  by (simp add: ServerName_def itoa_nat_inject)

lemma server_connect_eq:
  assumes "set to \<subseteq> {..<n}" "length conn = n" "length (endNames s) = n"
  shows "server_connect conn to s net = Inr (enable_ends True (map ((!) (endNames s)) (filter ((!) conn) to)) net)"
  unfolding server_connect_def enable_ends_fold [symmetric]
  by (rule go_fold_total [where I = "\<lambda>_. True", THEN conjunct1]) (use assms in \<open>auto simp: go_index_nth\<close>)

lemma server_disconnect_eq:
  assumes "set from \<subseteq> {..<n}" "length (endNames s) = n"
  shows "server_disconnect from s net = Inr (enable_ends False (map ((!) (endNames s)) from) net)"
  unfolding server_disconnect_def enable_ends_def fold_map comp_def
  by (rule go_fold_total [where I = "\<lambda>_. True", THEN conjunct1]) (use assms in \<open>auto simp: go_index_nth\<close>)

lemma grp_inv_lengths:
  "grp_inv rnd n (sg, ts) \<Longrightarrow> length (sg_srvs sg) = n \<and> length (sg_connected sg) = n \<and>
     (\<forall>i<n. length (endNames (sg_srvs sg ! i)) = n)"
  by (simp add: grp_inv_def)

lemma enable_incoming_eq:
  "grp_inv rnd n (sg, ts) \<Longrightarrow> i < n \<Longrightarrow> x < n \<Longrightarrow> enable_incoming i v sg x net = Inr (Enable (end_of sg x i) v net)"
  using grp_inv_lengths [of rnd n sg ts] by (simp add: enable_incoming_def go_index_nth end_of_def)

lemma connect_eq:
  assumes inv: "grp_inv rnd n (sg, ts)" and i: "i < n" and to: "set to \<subseteq> {..<n}"
  defines "up \<equiv> filter ((!) ((sg_connected sg)[i := True])) to"
  shows "connect i to (sg, ts) = Inr (sg\<lparr>sg_connected := (sg_connected sg)[i := True]\<rparr>,
    ts\<lparr>t_net := enable_ends True (map (end_of sg i) up @ map (\<lambda>x. end_of sg x i) up) (t_net ts)\<rparr>)"
proof -
  let ?conn = "(sg_connected sg)[i := True]"
  note len = grp_inv_lengths [OF inv]
  have out: "server_connect ?conn to (sg_srvs sg ! i) net = Inr (enable_ends True (map (end_of sg i) up) net)" for net
    using server_connect_eq [OF to, of ?conn "sg_srvs sg ! i"] len i unfolding up_def by (simp add: end_of_def [abs_def])
  have inc: "go_fold (\<lambda>x net. case go_index ?conn (int x) of Inl p \<Rightarrow> Inl p
      | Inr c \<Rightarrow> if c then enable_incoming i True sg x net else Inr net) to net =
      Inr (enable_ends True (map (\<lambda>x. end_of sg x i) up) net)" for net
    unfolding up_def enable_ends_fold [symmetric]
    by (rule go_fold_total [where I = "\<lambda>_. True", THEN conjunct1])
      (use to len i in \<open>auto simp: go_index_nth enable_incoming_eq [OF inv]\<close>)
  show ?thesis
    using len i by (simp add: connect_def go_index_nth go_update_nth out inc enable_ends_append)
qed

lemma disconnect_eq:
  assumes inv: "grp_inv rnd n (sg, ts)" and i: "i < n" and fr: "set from \<subseteq> {..<n}"
  shows "disconnect i from (sg, ts) = Inr (sg\<lparr>sg_connected := (sg_connected sg)[i := False]\<rparr>,
    ts\<lparr>t_net := enable_ends False (map (end_of sg i) from @ map (\<lambda>x. end_of sg x i) from) (t_net ts)\<rparr>)"
proof -
  note len = grp_inv_lengths [OF inv]
  have out: "server_disconnect from (sg_srvs sg ! i) net = Inr (enable_ends False (map (end_of sg i) from) net)" for net
    using server_disconnect_eq [OF fr, of "sg_srvs sg ! i"] len i by (simp add: end_of_def [abs_def])
  have inc: "go_fold (enable_incoming i False sg) from net =
      Inr (enable_ends False (map (\<lambda>x. end_of sg x i) from) net)" for net
    unfolding enable_ends_def fold_map comp_def
    by (rule go_fold_total [where I = "\<lambda>_. True", THEN conjunct1])
      (use fr len i in \<open>auto simp: enable_incoming_eq [OF inv]\<close>)
  show ?thesis
    using len i by (simp add: disconnect_def go_index_nth go_update_nth out inc enable_ends_append)
qed

lemma end_of_conn [simp]: "end_of (sg\<lparr>sg_connected := c\<rparr>) = end_of sg"
  by (simp add: end_of_def [abs_def])

lemma grp_inv_enable:
  "grp_inv rnd n (sg, ts) \<Longrightarrow> length c = n \<Longrightarrow>
     grp_inv rnd n (sg\<lparr>sg_connected := c\<rparr>, ts\<lparr>t_net := enable_ends v es (t_net ts)\<rparr>)"
  by (simp add: grp_inv_def names_inv_def enable_ends_eq)

lemma end_of_inject:
  assumes "grp_inv rnd n (sg, ts)" "i < n" "j < n" "k < n" "l < n"
  shows "end_of sg i j = end_of sg k l \<longleftrightarrow> i = k \<and> j = l"
  using assms by (auto simp: grp_inv_def)

lemma end_of_image:
  assumes "grp_inv rnd n (sg, ts)" "a < n" "b < n" "i < n" "A \<subseteq> {..<n}"
  shows "end_of sg a b \<in> end_of sg i ` A \<longleftrightarrow> a = i \<and> b \<in> A"
    and "end_of sg a b \<in> (\<lambda>x. end_of sg x i) ` A \<longleftrightarrow> b = i \<and> a \<in> A"
proof -
  have "x < n" if "x \<in> A" for x using assms(5) that by auto
  then have "(\<exists>x\<in>A. end_of sg a b = end_of sg i x) \<longleftrightarrow> (\<exists>x\<in>A. a = i \<and> b = x)"
    "(\<exists>x\<in>A. end_of sg a b = end_of sg x i) \<longleftrightarrow> (\<exists>x\<in>A. a = x \<and> b = i)"
    using end_of_inject [OF assms(1-3)] assms(4) by metis+
  then show "end_of sg a b \<in> end_of sg i ` A \<longleftrightarrow> a = i \<and> b \<in> A"
    "end_of sg a b \<in> (\<lambda>x. end_of sg x i) ` A \<longleftrightarrow> b = i \<and> a \<in> A"
    by (auto simp: image_iff)
qed

lemma grp_links_enable:
  "length c = n \<Longrightarrow> grp_links n (sg\<lparr>sg_connected := c\<rparr>, ts\<lparr>t_net := enable_ends v es (t_net ts)\<rparr>) =
     (grp_links n (sg, ts))\<lparr>l_conn := \<lambda>i. i < n \<and> c ! i, l_link := \<lambda>a b. a < n \<and> b < n \<and>
        (if end_of sg a b \<in> set es then v else map_get (enabled (t_net ts)) False (end_of sg a b))\<rparr>"
  by (auto simp: grp_links_def enable_ends_eq map_get_def fun_eq_iff)

lemma conn_update: "length c = n \<Longrightarrow> i < n \<Longrightarrow> (\<lambda>k. k < n \<and> c[i := v] ! k) = (\<lambda>k. k < n \<and> c ! k)(i := v)"
  by (auto simp: fun_eq_iff nth_list_update)

lemma connect_ok:
  assumes inv: "grp_inv rnd n (sg, ts)" and i: "i < n" "set to \<subseteq> {..<n}"
  shows "\<exists>st'. connect i to (sg, ts) = Inr st' \<and> grp_inv rnd n st' \<and>
    grp_links n st' = link_op n (LConnect i to) (grp_links n (sg, ts))"
proof -
  note len = grp_inv_lengths [OF inv]
  have upd: "length ((sg_connected sg)[i := v]) = n" for v using len by simp
  define up where "up = filter ((!) ((sg_connected sg)[i := True])) to"
  have up: "set up \<subseteq> {..<n}" using i by (auto simp: up_def)
  have conn: "b < n \<Longrightarrow> b \<in> set up \<longleftrightarrow> b \<in> set to \<and> (b \<noteq> i \<longrightarrow> sg_connected sg ! b)" for b
    using len by (cases "b = i") (auto simp: up_def)
  have mem: "end_of sg a b \<in> set (map (end_of sg i) up @ map (\<lambda>x. end_of sg x i) up) \<longleftrightarrow>
      a = i \<and> b \<in> set up \<or> b = i \<and> a \<in> set up" if "a < n" "b < n" for a b
    using end_of_image [OF inv that i(1) up] by simp
  show ?thesis
    unfolding connect_eq [OF inv i] up_def [symmetric]
    apply (intro exI conjI, rule refl, rule grp_inv_enable [OF inv upd])
    apply (unfold grp_links_enable [OF upd])
    using i len mem conn
    apply (auto simp: conn_update grp_links_def fun_eq_iff simp del: set_append set_map)
    done
qed

lemma disconnect_ok:
  assumes inv: "grp_inv rnd n (sg, ts)" and i: "i < n" "set fr \<subseteq> {..<n}"
  shows "\<exists>st'. disconnect i fr (sg, ts) = Inr st' \<and> grp_inv rnd n st' \<and>
    grp_links n st' = link_op n (LDisconnect i fr) (grp_links n (sg, ts))"
proof -
  note len = grp_inv_lengths [OF inv]
  have upd: "length ((sg_connected sg)[i := v]) = n" for v using len by simp
  have mem: "end_of sg a b \<in> set (map (end_of sg i) fr @ map (\<lambda>x. end_of sg x i) fr) \<longleftrightarrow>
      a = i \<and> b \<in> set fr \<or> b = i \<and> a \<in> set fr" if "a < n" "b < n" for a b
    using end_of_image [OF inv that i] by simp
  show ?thesis
    unfolding disconnect_eq [OF inv i]
    apply (intro exI conjI, rule refl, rule grp_inv_enable [OF inv upd])
    apply (unfold grp_links_enable [OF upd])
    using i len mem
    apply (auto simp: conn_update grp_links_def fun_eq_iff simp del: set_append set_map)
    done
qed

subsection \<open>Starting and stopping\<close>

definition names :: "(nat \<Rightarrow> string) \<Rightarrow> nat \<Rightarrow> nat \<Rightarrow> string list" where
  "names rnd d m = map (\<lambda>j. rnd (d + j)) [0..<m]"

lemma names_Suc: "names rnd d (Suc m) = names rnd d m @ [rnd (d + m)]"
  by (simp add: names_def)

lemma length_names [simp]: "length (names rnd d m) = m"
  by (simp add: names_def)

lemma nth_names [simp]: "j < m \<Longrightarrow> names rnd d m ! j = rnd (d + j)"
  by (simp add: names_def)

lemma set_names: "set (names rnd d m) = rnd ` {d..<d + m}"
proof -
  have "{d..<d + m} = (\<lambda>j. d + j) ` {0..<m}" by (simp add: ac_simps)
  then show ?thesis unfolding names_def by (simp only: set_map set_upt image_image)
qed

text \<open>What adding \<open>m\<close> ends to the servers of a group does to the network.\<close>

definition ends_added :: "(nat \<Rightarrow> string) \<Rightarrow> int \<Rightarrow> nat \<Rightarrow> nat \<Rightarrow> Network \<Rightarrow> Network \<Rightarrow> bool" where
  "ends_added rnd gid d m net net' \<longleftrightarrow> ends net' = ends net \<union> set (names rnd d m) \<and>
     enabled net' = (\<lambda>e. if e \<in> set (names rnd d m) then Some False else enabled net e) \<and>
     (\<forall>j<m. connections net' (rnd (d + j)) = Some (Some (ServerName gid j))) \<and>
     (\<forall>e. e \<notin> set (names rnd d m) \<longrightarrow> connections net' e = connections net e) \<and> servers net' = servers net"

lemma make_ends:
  assumes names: "names_inv rnd ts" and "m \<le> length (endNames srv)" "m \<le> length (clntEnds srv)"
  shows "\<exists>net. go_fold (make_end rnd gid) [0..<m] (srv, ts) =
     Inr (srv\<lparr>endNames := names rnd (t_draw ts) m @ drop m (endNames srv),
             clntEnds := names rnd (t_draw ts) m @ drop m (clntEnds srv)\<rparr>,
          ts\<lparr>t_net := net, t_draw := t_draw ts + m\<rparr>) \<and> ends_added rnd gid (t_draw ts) m (t_net ts) net"
  using assms(2,3)
proof (induction m)
  case 0
  then show ?case by (intro exI [of _ "t_net ts"]) (simp add: names_def ends_added_def)
next
  case (Suc m)
  let ?d = "t_draw ts"
  obtain net where IH: "go_fold (make_end rnd gid) [0..<m] (srv, ts) =
     Inr (srv\<lparr>endNames := names rnd ?d m @ drop m (endNames srv), clntEnds := names rnd ?d m @ drop m (clntEnds srv)\<rparr>,
          ts\<lparr>t_net := net, t_draw := ?d + m\<rparr>)" "ends_added rnd gid ?d m (t_net ts) net"
    using Suc by auto
  have inj: "rnd a = rnd b \<longleftrightarrow> a = b" for a b using names by (auto simp: names_inv_def inj_def)
  have "rnd (?d + m) \<notin> ends net" using IH(2) names by (auto simp: ends_added_def set_names names_inv_def inj)
  moreover have "(names rnd ?d m @ drop m xs)[m := v] = names rnd ?d (Suc m) @ drop (Suc m) xs"
    if "m < length xs" "v = rnd (?d + m)" for xs v
    using that by (simp add: names_Suc list_update_append Cons_nth_drop_Suc [symmetric])
  ultimately have step: "make_end rnd gid m (srv\<lparr>endNames := names rnd ?d m @ drop m (endNames srv),
        clntEnds := names rnd ?d m @ drop m (clntEnds srv)\<rparr>, ts\<lparr>t_net := net, t_draw := ?d + m\<rparr>) =
      Inr (srv\<lparr>endNames := names rnd ?d (Suc m) @ drop (Suc m) (endNames srv),
              clntEnds := names rnd ?d (Suc m) @ drop (Suc m) (clntEnds srv)\<rparr>,
           ts\<lparr>t_net := net\<lparr>ends := insert (rnd (?d + m)) (ends net), enabled := (enabled net)(rnd (?d + m) \<mapsto> False),
                connections := (connections net)(rnd (?d + m) \<mapsto> Some (ServerName gid m))\<rparr>, t_draw := ?d + Suc m\<rparr>)"
    using Suc.prems by (simp add: make_end_def MakeEnd_def Connect_def Let_def)
  have "ends_added rnd gid ?d (Suc m) (t_net ts) (net\<lparr>ends := insert (rnd (?d + m)) (ends net),
      enabled := (enabled net)(rnd (?d + m) \<mapsto> False), connections := (connections net)(rnd (?d + m) \<mapsto> Some (ServerName gid m))\<rparr>)"
    using IH(2) by (auto simp: ends_added_def names_Suc less_Suc_eq inj fun_eq_iff)
  then show ?case unfolding upt_Suc_append [OF le0] go_fold_append IH(1) using step by (simp, blast)
qed

lemma makeServer_ok:
  assumes "names_inv rnd ts"
  shows "\<exists>net. makeServer rnd gid n ts = Inr (\<lparr>saved = None, svcs = [], endNames = names rnd (t_draw ts) n,
       clntEnds = names rnd (t_draw ts) n\<rparr>, ts\<lparr>t_net := net, t_draw := t_draw ts + n\<rparr>) \<and>
     ends_added rnd gid (t_draw ts) n (t_net ts) net"
  using make_ends [OF assms, of n "\<lparr>saved = None, svcs = [], endNames = replicate n '''', clntEnds = replicate n ''''\<rparr>"]
  by (simp add: makeServer_def)

lemma names_inv_added:
  "names_inv rnd ts \<Longrightarrow> ends_added rnd gid (t_draw ts) m (t_net ts) net \<Longrightarrow>
     names_inv rnd (ts\<lparr>t_net := net, t_draw := t_draw ts + m\<rparr>)"
  by (auto simp: names_inv_def ends_added_def set_names)

lemma StartServer_eq:
  assumes inv: "grp_inv rnd n (sg, ts)" and i: "i < n"
  obtains srv w net where "StartServer rnd mks i (sg, ts) = Inr (sg\<lparr>sg_srvs := (sg_srvs sg)[i := srv]\<rparr>,
      ts\<lparr>t_net := AddServer (ServerName (sg_gid sg) i) (length (t_labsrvs ts)) net, t_draw := t_draw ts + n,
         t_world := w, t_labsrvs := t_labsrvs ts @ [svcs srv]\<rparr>)"
    "ends_added rnd (sg_gid sg) (t_draw ts) n (t_net ts) net" "endNames srv = names rnd (t_draw ts) n"
    "saved srv = Some (length (pers (t_world ts)))"
    "w = fold world_op (snd (mks (names rnd (t_draw ts) n) (sg_gid sg) i (length (pers (t_world ts)))))
           (world_op (case saved (sg_srvs sg ! i) of Some p \<Rightarrow> PCopy p | None \<Rightarrow> PMake) (t_world ts))"
proof -
  have len: "length (sg_srvs sg) = n" "length (endNames (sg_srvs sg ! i)) = n" using grp_inv_lengths [OF inv] i by auto
  have "names_inv rnd ts" using inv by (simp add: grp_inv_def)
  from makeServer_ok [OF this, of "sg_gid sg" n] obtain net where
    net: "makeServer rnd (sg_gid sg) n ts = Inr (\<lparr>saved = None, svcs = [], endNames = names rnd (t_draw ts) n,
       clntEnds = names rnd (t_draw ts) n\<rparr>, ts\<lparr>t_net := net, t_draw := t_draw ts + n\<rparr>)"
      "ends_added rnd (sg_gid sg) (t_draw ts) n (t_net ts) net" by blast
  obtain ss ops where mks: "mks (names rnd (t_draw ts) n) (sg_gid sg) i (length (pers (t_world ts))) = (ss, ops)"
    by (cases "mks (names rnd (t_draw ts) n) (sg_gid sg) i (length (pers (t_world ts)))")
  show ?thesis
    by (rule that [of "\<lparr>saved = Some (length (pers (t_world ts))), svcs = ss, endNames = names rnd (t_draw ts) n,
       clntEnds = names rnd (t_draw ts) n\<rparr>" _ net])
      (use i len net mks in \<open>auto simp: StartServer_def go_index_nth startServer_def new_persister_def Let_def\<close>)
qed

lemma StartServer_ok:
  assumes inv: "grp_inv rnd n (sg, ts)" and i: "i < n"
  shows "\<exists>st'. StartServer rnd mks i (sg, ts) = Inr st' \<and> grp_inv rnd n st' \<and>
    grp_links n st' = link_op n (LStart i) (grp_links n (sg, ts))"
proof -
  let ?d = "t_draw ts"
  obtain srv w net where eq: "StartServer rnd mks i (sg, ts) = Inr (sg\<lparr>sg_srvs := (sg_srvs sg)[i := srv]\<rparr>,
      ts\<lparr>t_net := AddServer (ServerName (sg_gid sg) i) (length (t_labsrvs ts)) net, t_draw := ?d + n,
         t_world := w, t_labsrvs := t_labsrvs ts @ [svcs srv]\<rparr>)" (is "_ = Inr (?sg, ?ts)")
    and net: "ends_added rnd (sg_gid sg) ?d n (t_net ts) net" and srv: "endNames srv = names rnd ?d n"
    by (rule StartServer_eq [OF inv i])
  have len: "length (sg_srvs sg) = n" "\<forall>i<n. length (endNames (sg_srvs sg ! i)) = n" using grp_inv_lengths [OF inv] by auto
  have inj: "rnd a = rnd b \<longleftrightarrow> a = b" for a b using inv by (auto simp: grp_inv_def names_inv_def inj_def)
  have ends: "end_of ?sg a b = (if a = i then rnd (?d + b) else end_of sg a b)" if "a < n" "b < n" for a b
    using that i len srv by (simp add: end_of_def)
  have old: "\<exists>k<?d. end_of sg a b = rnd k" if "a < n" "b < n" for a b using that inv by (auto simp: grp_inv_def)
  have fresh: "end_of sg a b \<notin> set (names rnd ?d n)" "end_of sg a b \<noteq> rnd (?d + c)" if "a < n" "b < n" for a b c
    using old [OF that] by (auto simp: set_names inj)
  have uniq: "end_of ?sg a b = end_of ?sg c e \<longrightarrow> a = c \<and> b = e" if "a < n" "b < n" "c < n" "e < n" for a b c e
    using that fresh [of a b] fresh(2) [of c e b] end_of_inject [OF inv that] by (auto simp: ends inj)
  have drawn: "\<exists>k<?d + n. end_of ?sg a b = rnd k" if "a < n" "b < n" for a b
  proof (cases "a = i")
    case False
    then show ?thesis using old [OF that] ends [OF that] by (metis trans_less_add1)
  qed (use that ends [OF that] in \<open>auto simp: inj\<close>)
  have conns: "connections net (end_of ?sg a b) = Some (Some (ServerName (sg_gid sg) b))" if "a < n" "b < n" for a b
    using that fresh [OF that] net inv by (auto simp: ends ends_added_def grp_inv_def)
  have ninv: "names_inv rnd ?ts"
    using names_inv_added [OF _ net] inv by (simp add: grp_inv_def names_inv_def AddServer_def)
  have inv': "grp_inv rnd n (?sg, ?ts)"
    unfolding grp_inv_def fst_conv snd_conv
  proof (intro conjI allI impI)
    show "names_inv rnd ?ts" by (rule ninv)
  qed (use len srv i drawn uniq conns grp_inv_lengths [OF inv] in \<open>auto simp: nth_list_update AddServer_def\<close>)
  have en: "enabled net (end_of ?sg a b) = (if a = i then Some False else enabled (t_net ts) (end_of sg a b))"
    if "a < n" "b < n" for a b using that fresh [OF that] net by (auto simp: ends ends_added_def set_names)
  have srvs: "servers net = servers (t_net ts)" using net by (simp add: ends_added_def)
  have "grp_links n (?sg, ?ts) = link_op n (LStart i) (grp_links n (sg, ts))"
    using i en srvs by (auto simp: grp_links_def fun_eq_iff AddServer_def map_get_def ServerName_inject split: if_splits)
  then show ?thesis using eq inv' by blast
qed

lemma shutdownServer_eq:
  obtains q w k where "shutdownServer kill s ts = (s\<lparr>saved := q, svcs := []\<rparr>, ts\<lparr>t_world := w, t_killed := k\<rparr>)"
    "q = map_option (\<lambda>_. length (pers (t_world ts))) (saved s)"
    "w = fold world_op (concat (map kill (svcs s))) (case saved s of Some p \<Rightarrow> world_op (PCopy p) (t_world ts) | None \<Rightarrow> t_world ts)"
    "k = t_killed ts @ svcs s"
proof -
  have kill: "kill_services kill ss ts = ts\<lparr>t_world := fold world_op (concat (map kill ss)) (t_world ts),
      t_killed := t_killed ts @ ss\<rparr>" for ss and ts :: "'a shared"
  proof (induction ss arbitrary: ts)
    case Nil
    then show ?case by (simp add: kill_services_def)
  next
    case (Cons a ss)
    have "kill_services kill (a # ss) ts = kill_services kill ss
        (ts\<lparr>t_world := fold world_op (kill a) (t_world ts), t_killed := t_killed ts @ [a]\<rparr>)"
      by (simp add: kill_services_def)
    then show ?case unfolding Cons.IH by simp
  qed
  show ?thesis
    by (rule that [OF _ refl refl refl], cases "saved s") (simp_all add: shutdownServer_def new_persister_def kill)
qed

lemma ShutdownServer_ok:
  assumes inv: "grp_inv rnd n (sg, ts)" and i: "i < n"
  shows "\<exists>st'. ShutdownServer kill i (sg, ts) = Inr st' \<and> grp_inv rnd n st' \<and>
    grp_links n st' = link_op n (LStop i) (grp_links n (sg, ts))"
proof -
  have all: "set (sg_all sg) \<subseteq> {..<n}" "set (sg_all sg) = {..<n}" using grp_inv_lengths [OF inv] by (auto simp: sg_all_def)
  obtain sg1 ts1 where d: "disconnect i (sg_all sg) (sg, ts) = Inr (sg1, ts1)" "grp_inv rnd n (sg1, ts1)"
    "grp_links n (sg1, ts1) = link_op n (LDisconnect i (sg_all sg)) (grp_links n (sg, ts))"
    using disconnect_ok [OF inv i all(1)] by auto
  have len: "length (sg_srvs sg1) = n" using grp_inv_lengths [OF d(2)] by simp
  let ?ts1 = "ts1\<lparr>t_net := DeleteServer (ServerName (sg_gid sg1) i) (t_net ts1)\<rparr>"
  obtain q w k where s: "shutdownServer kill (sg_srvs sg1 ! i) ?ts1 =
      ((sg_srvs sg1 ! i)\<lparr>saved := q, svcs := []\<rparr>, ?ts1\<lparr>t_world := w, t_killed := k\<rparr>)"
    by (rule shutdownServer_eq)
  let ?sg = "sg1\<lparr>sg_srvs := (sg_srvs sg1)[i := (sg_srvs sg1 ! i)\<lparr>saved := q, svcs := []\<rparr>]\<rparr>"
  have eq: "ShutdownServer kill i (sg, ts) = Inr (?sg, ?ts1\<lparr>t_world := w, t_killed := k\<rparr>)"
    using d(1) s len i by (simp add: ShutdownServer_def go_index_nth Let_def)
  have same: "endNames (sg_srvs ?sg ! a) = endNames (sg_srvs sg1 ! a)" for a
    using len i by (cases "a = i") simp_all
  then have ends: "end_of ?sg = end_of sg1" by (simp add: end_of_def fun_eq_iff)
  have "grp_inv rnd n (?sg, ?ts1\<lparr>t_world := w, t_killed := k\<rparr>)"
    using d(2) unfolding grp_inv_def fst_conv snd_conv ends same by (simp add: names_inv_def DeleteServer_def)
  moreover have "grp_links n (?sg, ?ts1\<lparr>t_world := w, t_killed := k\<rparr>) = (grp_links n (sg1, ts1))\<lparr>l_up := (l_up (grp_links n (sg1, ts1)))(i := False)\<rparr>"
    unfolding grp_links_def fst_conv snd_conv ends
    by (auto simp: DeleteServer_def map_get_def fun_eq_iff ServerName_inject)
  then have "grp_links n (?sg, ?ts1\<lparr>t_world := w, t_killed := k\<rparr>) = link_op n (LStop i) (grp_links n (sg, ts))"
    unfolding d(3) by (simp add: all(2) fun_eq_iff)
  ultimately show ?thesis using eq by blast
qed

interpretation groups: fallible_refinement "grp_op rnd mks kill" "link_op n" "grp_links n" "grp_inv rnd n"
  "\<lambda>x. op_servers x \<subseteq> {..<n}" for rnd mks kill n
proof
  fix st :: "'a grp_state" and x
  assume "grp_inv rnd n st" "op_servers x \<subseteq> {..<n}"
  then show "\<exists>d. grp_op rnd mks kill x st = Inr d \<and> grp_inv rnd n d \<and> grp_links n d = link_op n x (grp_links n st)"
    using connect_ok disconnect_ok StartServer_ok ShutdownServer_ok by (cases st; cases x) auto
qed

text \<open>A request from server \<open>i\<close> to server \<open>j\<close> is delivered in the simulated network exactly if the end is
  enabled and the server registered.\<close>

lemma live_iff:
  assumes "grp_inv rnd n (sg, ts)" "i < n" "j < n"
  shows "(\<exists>sv. live (end_of sg i j) (ServerName (sg_gid sg) j) sv (t_net ts)) \<longleftrightarrow>
    l_link (grp_links n (sg, ts)) i j \<and> l_up (grp_links n (sg, ts)) j"
  using assms by (auto simp: live_def grp_links_def grp_inv_def map_get_def split: option.splits)

subsection \<open>Partitions\<close>

definition half_ops :: "nat list \<Rightarrow> nat list \<Rightarrow> nat list \<Rightarrow> link_call list" where
  "half_ops q others xs = concat (map (\<lambda>i. [LDisconnect i others, LConnect i q]) xs)"

lemma half_ops_simps [simp]:
  "half_ops q others [] = []"
  "half_ops q others (x # xs) = LDisconnect x others # LConnect x q # half_ops q others xs"
  by (simp_all add: half_ops_def)

lemma part_half_ops: "part_half p1 p2 st = go_fold (grp_op rnd mks kill) (half_ops p1 p2 p1) st"
proof -
  have "go_fold (\<lambda>i st. case disconnect i p2 st of Inl p \<Rightarrow> Inl p | Inr st \<Rightarrow> connect i p1 st) xs st =
      go_fold (grp_op rnd mks kill) (half_ops p1 p2 xs) st" for xs
    by (induction xs arbitrary: st) (auto split: sum.split)
  then show ?thesis by (simp add: part_half_def)
qed

lemma sg_Partition_ops:
  "sg_Partition p1 p2 st = go_fold (grp_op rnd mks kill) (half_ops p1 p2 p1 @ half_ops p2 p1 p2) st"
  unfolding sg_Partition_def go_fold_append part_half_ops [of _ _ _ rnd mks kill] ..

text \<open>Connecting the servers \<open>xs\<close> of a half, when those of \<open>D\<close> have been connected already.\<close>

definition joined :: "nat set \<Rightarrow> nat set \<Rightarrow> links \<Rightarrow> bool" where
  "joined D others s \<longleftrightarrow> (\<forall>a\<in>D. l_conn s a \<and> (\<forall>b\<in>D. l_link s a b) \<and> (\<forall>b\<in>others. \<not> l_link s a b \<and> \<not> l_link s b a))"

lemma half_loop:
  assumes "set q \<inter> set others = {}" "set xs \<subseteq> set q" "D \<subseteq> set q" "joined D (set others) s"
  shows "joined (D \<union> set xs) (set others) (fold (link_op n) (half_ops q others xs) s)"
  using assms
proof (induction xs arbitrary: D s)
  case (Cons x xs)
  let ?s = "link_op n (LConnect x q) (link_op n (LDisconnect x others) s)"
  have "joined (insert x D) (set others) ?s"
    using Cons.prems by (auto simp: joined_def)
  then have "joined (insert x D \<union> set xs) (set others) (fold (link_op n) (half_ops q others xs) ?s)"
    using Cons.prems by (intro Cons.IH) auto
  then show ?case by simp
qed simp

text \<open>What a half does to the servers outside of it.\<close>

definition outside_kept :: "nat set \<Rightarrow> links \<Rightarrow> links \<Rightarrow> bool" where
  "outside_kept A s s' \<longleftrightarrow> (\<forall>a. a \<notin> A \<longrightarrow> l_conn s' a = l_conn s a) \<and>
     (\<forall>a b. a \<notin> A \<longrightarrow> b \<notin> A \<longrightarrow> l_link s' a b = l_link s a b) \<and>
     (\<forall>a b. a \<notin> A \<or> b \<notin> A \<longrightarrow> l_link s' a b \<longrightarrow> l_link s a b) \<and> l_up s' = l_up s"

lemma half_frame: "set xs \<subseteq> set q \<Longrightarrow> outside_kept (set q) s (fold (link_op n) (half_ops q others xs) s)"
proof (induction xs arbitrary: s)
  case (Cons x xs)
  define s1 where "s1 = link_op n (LConnect x q) (link_op n (LDisconnect x others) s)"
  have "x \<in> set q" using Cons.prems by simp
  then have "outside_kept (set q) s s1" by (auto simp: s1_def outside_kept_def)
  moreover have "outside_kept (set q) s1 (fold (link_op n) (half_ops q others xs) s1)" using Cons by simp
  moreover have "fold (link_op n) (half_ops q others (x # xs)) s = fold (link_op n) (half_ops q others xs) s1"
    by (simp add: s1_def)
  ultimately show ?case by (simp only: outside_kept_def) metis
qed (simp add: outside_kept_def)

lemma outside_joined:
  assumes "outside_kept (set q) s s'" "joined D (set q) s" "D \<inter> set q = {}"
  shows "joined D (set q) s'"
proof -
  have "a \<notin> set q" if "a \<in> D" for a using that assms(3) by blast
  moreover have k: "\<And>a. a \<notin> set q \<Longrightarrow> l_conn s' a = l_conn s a"
    "\<And>a b. a \<notin> set q \<Longrightarrow> b \<notin> set q \<Longrightarrow> l_link s' a b = l_link s a b"
    "\<And>a b. a \<notin> set q \<or> b \<notin> set q \<Longrightarrow> \<not> l_link s a b \<Longrightarrow> \<not> l_link s' a b"
    using assms(1) by (auto simp: outside_kept_def)
  ultimately show ?thesis using assms(2) by (auto simp: joined_def)
qed

definition separated :: "nat set \<Rightarrow> nat set \<Rightarrow> links \<Rightarrow> bool" where
  "separated A B s \<longleftrightarrow> (\<forall>a\<in>A \<union> B. l_conn s a \<and> (\<forall>b\<in>A \<union> B. l_link s a b \<longleftrightarrow> (a \<in> A \<longleftrightarrow> b \<in> A)))"

lemma partition_ops:
  assumes "set p1 \<inter> set p2 = {}"
  shows "separated (set p1) (set p2) (fold (link_op n) (half_ops p1 p2 p1 @ half_ops p2 p1 p2) s)"
    and "l_up (fold (link_op n) (half_ops p1 p2 p1 @ half_ops p2 p1 p2) s) = l_up s"
proof -
  let ?s1 = "fold (link_op n) (half_ops p1 p2 p1) s"
  let ?s2 = "fold (link_op n) (half_ops p2 p1 p2) ?s1"
  have j: "joined (set p1) (set p2) ?s1" "joined (set p2) (set p1) ?s2"
    using half_loop [of p1 p2 p1 "{}" s n] half_loop [of p2 p1 p2 "{}" ?s1 n] assms by (auto simp: joined_def)
  have fr: "outside_kept (set p2) ?s1 ?s2" "outside_kept (set p1) s ?s1" by (rule half_frame, simp)+
  have j1: "joined (set p1) (set p2) ?s2" by (rule outside_joined [OF fr(1) j(1) assms])
  have "a \<notin> set p1" if "a \<in> set p2" for a using that assms by blast
  then show "separated (set p1) (set p2) (fold (link_op n) (half_ops p1 p2 p1 @ half_ops p2 p1 p2) s)"
    using j1 j(2) by (auto simp: joined_def separated_def)
  show "l_up (fold (link_op n) (half_ops p1 p2 p1 @ half_ops p2 p1 p2) s) = l_up s"
    using fr by (simp add: outside_kept_def)
qed

lemma half_ops_servers: "set xs \<subseteq> {..<n} \<Longrightarrow> set q \<subseteq> {..<n} \<Longrightarrow> set others \<subseteq> {..<n} \<Longrightarrow>
    \<forall>x\<in>set (half_ops q others xs). op_servers x \<subseteq> {..<n}"
  by (auto simp: half_ops_def)

lemma sg_Partition_ok:
  assumes inv: "grp_inv rnd n st" and p: "set p1 \<subseteq> {..<n}" "set p2 \<subseteq> {..<n}" "set p1 \<inter> set p2 = {}"
  shows "\<exists>st'. sg_Partition p1 p2 st = Inr st' \<and> grp_inv rnd n st' \<and>
    separated (set p1) (set p2) (grp_links n st') \<and> l_up (grp_links n st') = l_up (grp_links n st)"
proof -
  have "\<forall>x\<in>set (half_ops p1 p2 p1 @ half_ops p2 p1 p2). op_servers x \<subseteq> {..<n}"
    using half_ops_servers p(1,2) by (metis Un_iff set_append)
  from groups.run_ok [OF inv this, of undefined undefined] show ?thesis
    using partition_ops [OF p(3), of n "grp_links n st"] by (metis sg_Partition_ops)
qed

lemma part_fold:
  assumes "k \<le> length A" "j + length (filter (\<lambda>i. i \<noteq> l) is) \<le> length A"
  shows "go_fold (part_step l) is (take k A, drop k A, j) =
    (let vs = filter (\<lambda>i. i \<noteq> l) is; B = take j A @ vs @ drop (j + length vs) A
     in Inr (take k B, drop k B, j + length vs))"
  using assms
proof (induction "is" arbitrary: A j)
  case (Cons i rest)
  show ?case
  proof (cases "i = l")
    case False
    let ?A = "A[j := i]"
    have j: "j < length A" using Cons.prems False by simp
    have step: "part_step l i (take k A, drop k A, j) = Inr (take k ?A, drop k ?A, Suc j)"
      using False j Cons.prems(1)
      by (auto simp: part_step_def go_update_def drop_update_swap take_update_swap min_def nat_diff_distrib' list_update_beyond)
    have A: "take j A @ i # drop (Suc j) A = ?A" using j by (simp add: upd_conv_take_nth_drop)
    have "take (Suc j) ?A = take j A @ [i]" using j by (simp add: take_Suc_conv_app_nth)
    moreover have "drop (Suc j + m) ?A = drop (Suc j + m) A" for m by simp
    ultimately show ?thesis
      using Cons.IH [of ?A "Suc j"] Cons.prems False by (simp add: step Let_def del: drop_update_cancel take_append drop_append)
  qed (use Cons in \<open>simp add: part_step_def\<close>)
qed (simp add: Let_def del: take_append drop_append)

lemma MakePartition_eq:
  assumes n: "length (sg_srvs sg) = n" "l < n"
  defines "vs \<equiv> filter (\<lambda>i. i \<noteq> l) [0..<n]"
  defines "B \<equiv> vs @ replicate (2 * (n div 2) + 2 - n) 0"
  shows "MakePartition l sg = (if n < 2 then Inl IndexPanic
     else Inr (take (n div 2 + 1) B, (drop (n div 2 + 1) B)[n div 2 - 1 := l]))"
proof -
  have len: "length vs = n - 1"
  proof -
    have "length vs = card {i. i < n \<and> i \<noteq> l}"
      unfolding vs_def length_filter_conv_card by (intro arg_cong [of _ _ card]) auto
    also have "{i. i < n \<and> i \<noteq> l} = {..<n} - {l}" by auto
    finally show ?thesis using n(2) by simp
  qed
  let ?A = "replicate (n div 2 + 1 + n div 2) (0 :: nat)"
  have A: "take (n div 2 + 1) ?A = replicate (n div 2 + 1) 0" "drop (n div 2 + 1) ?A = replicate (n div 2) 0" by simp_all
  have le: "n div 2 + 1 \<le> length ?A" "0 + length (filter (\<lambda>i. i \<noteq> l) [0..<n]) \<le> length ?A"
    using len n(2) by (auto simp: vs_def)
  have B: "take 0 ?A @ vs @ drop (0 + length vs) ?A = B"
    using len n(2) unfolding B_def drop_replicate by (simp del: replicate_Suc)
  have fold: "go_fold (part_step l) [0..<n] (replicate (n div 2 + 1) 0, replicate (n div 2) 0, 0) =
      Inr (take (n div 2 + 1) B, drop (n div 2 + 1) B, n - 1)"
    using part_fold [OF le] unfolding A Let_def vs_def [symmetric] B by (simp add: len)
  have "length B = n div 2 + 1 + n div 2" using len n(2) by (simp add: B_def)
  then have "length (drop (n div 2 + 1) B) = n div 2" by simp
  then show ?thesis
    unfolding MakePartition_def n Let_def fold by (auto simp: go_update_def nat_diff_distrib')
qed

text \<open>The halves for an odd number of servers.\<close>

lemma MakePartition_odd:
  assumes n: "length (sg_srvs sg) = n" "l < n" "odd n" "3 \<le> n"
  obtains p1 p2 where "MakePartition l sg = Inr (p1, p2)" "set p1 \<inter> set p2 = {}" "set p1 \<union> set p2 = {..<n}"
    "l \<in> set p2" "distinct p1" "distinct p2" "length p1 = n div 2 + 1" "length p2 = n div 2"
proof -
  define vs where "vs = filter (\<lambda>i. i \<noteq> l) [0..<n]"
  obtain m where m: "n = 2 * m + 1" "1 \<le> m" using n(3,4) by (auto elim!: oddE)
  have dv: "distinct vs" "set vs = {..<n} - {l}" by (auto simp: vs_def)
  then have len: "length vs = 2 * m" using n(2) m distinct_card [OF dv(1)] by simp
  have p2: "(drop (m + 1) (vs @ [0]))[m - 1 := l] = drop (m + 1) vs @ [l]"
    using len m by (simp add: list_update_append)
  have eq: "MakePartition l sg = Inr (take (m + 1) vs, drop (m + 1) vs @ [l])"
    using MakePartition_eq [OF n(1,2)] m len p2 unfolding vs_def [symmetric] by simp
  have split: "set (take (m + 1) vs) \<inter> set (drop (m + 1) vs) = {}" "set (take (m + 1) vs) \<union> set (drop (m + 1) vs) = set vs"
    using dv(1) by (simp_all add: set_take_disj_set_drop_if_distinct flip: set_append)
  have l: "l \<notin> set (take (m + 1) vs)" "l \<notin> set (drop (m + 1) vs)"
    using dv(2) by (auto dest: in_set_takeD in_set_dropD)
  show ?thesis
    by (rule that [OF eq]) (use split l dv n(2) m len in auto)
qed

subsection \<open>New groups\<close>

definition new_server :: "(nat \<Rightarrow> string) \<Rightarrow> nat \<Rightarrow> nat \<Rightarrow> 'svc Tserver" where
  "new_server rnd d n = \<lparr>saved = None, svcs = [], endNames = names rnd d n, clntEnds = names rnd d n\<rparr>"

lemma make_servers:
  assumes names: "names_inv rnd ts"
  shows "\<exists>net. go_fold (\<lambda>i (ss, ts). case makeServer rnd gid n ts of
        Inl p \<Rightarrow> Inl p | Inr (srv, ts) \<Rightarrow> Inr (ss @ [srv], ts)) [0..<m] ([], ts) =
      Inr (map (\<lambda>i. new_server rnd (t_draw ts + i * n) n) [0..<m], ts\<lparr>t_net := net, t_draw := t_draw ts + m * n\<rparr>) \<and>
    names_inv rnd (ts\<lparr>t_net := net, t_draw := t_draw ts + m * n\<rparr>) \<and> servers net = servers (t_net ts) \<and>
    (\<forall>i<m. \<forall>j<n. connections net (rnd (t_draw ts + i * n + j)) = Some (Some (ServerName gid j)) \<and>
       enabled net (rnd (t_draw ts + i * n + j)) = Some False)"
proof (induction m)
  case 0
  then show ?case using names by (intro exI [of _ "t_net ts"]) simp
next
  case (Suc m)
  let ?d = "t_draw ts"
  obtain net where IH: "go_fold (\<lambda>i (ss, ts). case makeServer rnd gid n ts of
        Inl p \<Rightarrow> Inl p | Inr (srv, ts) \<Rightarrow> Inr (ss @ [srv], ts)) [0..<m] ([], ts) =
      Inr (map (\<lambda>i. new_server rnd (?d + i * n) n) [0..<m], ts\<lparr>t_net := net, t_draw := ?d + m * n\<rparr>)"
    and inv: "names_inv rnd (ts\<lparr>t_net := net, t_draw := ?d + m * n\<rparr>)" and srv: "servers net = servers (t_net ts)"
    and old: "\<And>i j. i < m \<Longrightarrow> j < n \<Longrightarrow> connections net (rnd (?d + i * n + j)) = Some (Some (ServerName gid j)) \<and>
       enabled net (rnd (?d + i * n + j)) = Some False"
    using Suc by blast
  obtain net' where mk: "makeServer rnd gid n (ts\<lparr>t_net := net, t_draw := ?d + m * n\<rparr>) = Inr (new_server rnd (?d + m * n) n,
       ts\<lparr>t_net := net', t_draw := ?d + m * n + n\<rparr>)" "ends_added rnd gid (?d + m * n) n net net'"
    using makeServer_ok [OF inv, of gid n] by (auto simp: new_server_def)
  have inj: "rnd a = rnd b \<longleftrightarrow> a = b" for a b using names by (auto simp: names_inv_def inj_def)
  have "rnd (?d + i * n + j) \<notin> set (names rnd (?d + m * n) n)" if "i < m" "j < n" for i j
  proof -
    have "i * n + n \<le> m * n" using that mult_le_mono1 [of "Suc i" m n] by simp
    then show ?thesis using that by (auto simp: set_names inj)
  qed
  then have "connections net' (rnd (?d + i * n + j)) = Some (Some (ServerName gid j)) \<and>
      enabled net' (rnd (?d + i * n + j)) = Some False" if "i < Suc m" "j < n" for i j
    using that old mk(2) by (cases "i = m") (auto simp: ends_added_def set_names less_Suc_eq)
  moreover have "names_inv rnd (ts\<lparr>t_net := net', t_draw := ?d + Suc m * n\<rparr>)"
    using names_inv_added [OF inv, of gid n net'] mk(2) by (simp add: ac_simps)
  moreover have "servers net' = servers (t_net ts)" using mk(2) srv by (simp add: ends_added_def)
  moreover have "go_fold (\<lambda>i (ss, ts). case makeServer rnd gid n ts of
        Inl p \<Rightarrow> Inl p | Inr (srv, ts) \<Rightarrow> Inr (ss @ [srv], ts)) [0..<Suc m] ([], ts) =
      Inr (map (\<lambda>i. new_server rnd (?d + i * n) n) [0..<Suc m], ts\<lparr>t_net := net', t_draw := ?d + Suc m * n\<rparr>)"
    unfolding upt_Suc_append [OF le0] go_fold_append IH using mk(1) by (simp add: ac_simps)
  ultimately show ?case by blast
qed

lemma makeSrvGrp_ok:
  assumes names: "names_inv rnd ts"
  shows "\<exists>st. makeSrvGrp rnd gid n ts = Inr st \<and> grp_inv rnd n st \<and> sg_gid (fst st) = gid \<and>
    grp_links n st = \<lparr>l_conn = \<lambda>_. False, l_link = \<lambda>_ _. False,
      l_up = \<lambda>i. i < n \<and> map_get (servers (t_net ts)) None (ServerName gid i) \<noteq> None\<rparr>"
proof -
  let ?d = "t_draw ts"
  obtain net where mk: "makeSrvGrp rnd gid n ts = Inr (\<lparr>sg_srvs = map (\<lambda>i. new_server rnd (?d + i * n) n) [0..<n],
      servernames = map (ServerName gid) [0..<n], sg_gid = gid, sg_connected = replicate n False\<rparr>,
      ts\<lparr>t_net := net, t_draw := ?d + n * n\<rparr>)" (is "_ = Inr (?sg, ?ts)")
    and inv: "names_inv rnd (ts\<lparr>t_net := net, t_draw := ?d + n * n\<rparr>)" "servers net = servers (t_net ts)"
    and ends: "\<And>i j. i < n \<Longrightarrow> j < n \<Longrightarrow> connections net (rnd (?d + i * n + j)) = Some (Some (ServerName gid j)) \<and>
       enabled net (rnd (?d + i * n + j)) = Some False"
    using make_servers [OF names, of gid n n] by (auto simp: makeSrvGrp_def)
  have inj: "rnd a = rnd b \<longleftrightarrow> a = b" for a b using names by (auto simp: names_inv_def inj_def)
  have e: "end_of ?sg i j = rnd (?d + i * n + j)" if "i < n" "j < n" for i j
    using that by (simp add: end_of_def new_server_def)
  have uniq: "i = k \<and> j = l" if "i * n + j = k * n + l" "j < n" "l < n" for i j k l
    using that by (metis add.commute div_mult_self3 div_less add.right_neutral mod_mult_self3 mod_less less_nat_zero_code not_gr_zero)
  have lt: "i * n + j < n * n" if "i < n" "j < n" for i j
    using that mult_le_mono1 [of "Suc i" n n] by simp
  have "grp_inv rnd n (?sg, ?ts)"
    unfolding grp_inv_def fst_conv snd_conv
  proof (intro conjI allI impI)
    fix i j assume "i < n" "j < n"
    then show "\<exists>k<t_draw ?ts. end_of ?sg i j = rnd k"
      using lt [of i j] by (intro exI [of _ "?d + i * n + j"]) (simp add: e)
  next
    fix i j k l assume "i < n" "j < n" "k < n" "l < n" "end_of ?sg i j = end_of ?sg k l"
    then have "i * n + j = k * n + l" by (simp add: e inj)
    then show "i = k" "j = l" using uniq \<open>j < n\<close> \<open>l < n\<close> by blast+
  next
    fix i j assume ij: "i < n" "j < n"
    show "connections (t_net ?ts) (end_of ?sg i j) = Some (Some (ServerName (sg_gid ?sg) j))"
      unfolding e [OF ij] using ends [OF ij] by simp
  qed (use inv in \<open>simp_all add: new_server_def\<close>)
  moreover have "grp_links n (?sg, ?ts) = \<lparr>l_conn = \<lambda>_. False, l_link = \<lambda>_ _. False,
      l_up = \<lambda>i. i < n \<and> map_get (servers (t_net ts)) None (ServerName gid i) \<noteq> None\<rparr>"
    using ends inv(2) by (auto simp: grp_links_def fun_eq_iff e map_get_def)
  ultimately show ?thesis using mk by auto
qed

subsection \<open>Persisted state\<close>

text \<open>Only a save changes the contents of a persister.\<close>

definition saves_to :: "nat \<Rightarrow> pop \<Rightarrow> bool" where
  "saves_to q x \<longleftrightarrow> (\<exists>r s. x = PSave q r s)"

lemma spers_kept:
  assumes "\<forall>x\<in>set ops. \<not> saves_to q x" "q < length (spers s)"
  shows "q < length (spers (fold spec_op ops s)) \<and> spers (fold spec_op ops s) ! q = spers s ! q"
  using assms
proof (induction ops arbitrary: s)
  case (Cons x ops)
  have "q < length (spers (spec_op x s)) \<and> spers (spec_op x s) ! q = spers s ! q"
    using Cons.prems by (cases x) (auto simp: saves_to_def nth_append nth_list_update)
  then show ?case using Cons by auto
qed simp

lemma persister_kept:
  assumes "world_inv w" "\<forall>x\<in>set ops. \<not> saves_to q x" "q < length (pers w)"
  shows "q < length (pers (fold world_op ops w))"
    and "spers (abs_world (fold world_op ops w)) ! q = spers (abs_world w) ! q"
proof -
  have "q < length (spers (abs_world (fold world_op ops w))) \<and>
      spers (abs_world (fold world_op ops w)) ! q = spers (abs_world w) ! q"
    unfolding persisters.run_abs [OF assms(1)] by (rule spers_kept) (use assms in simp_all)
  then show "q < length (pers (fold world_op ops w))"
    "spers (abs_world (fold world_op ops w)) ! q = spers (abs_world w) ! q" by auto
qed

lemma copied_persister:
  assumes "world_inv w" "p < length (pers w)"
  shows "length (pers (world_op (PCopy p) w)) = Suc (length (pers w))"
    and "spers (abs_world (world_op (PCopy p) w)) ! length (pers w) = spers (abs_world w) ! p"
  using assms by (simp_all add: world_op_abs [OF assms(1)] nth_append del: world_op.simps) simp

section \<open>Properties\<close>

definition no_links :: links where
  "no_links = \<lparr>l_conn = \<lambda>_. False, l_link = \<lambda>_ _. False, l_up = \<lambda>_. False\<rparr>"

text \<open>
  C29: groups implement reachability. After any sequence of connects, disconnects, starts and
  shutdowns of the servers of a new group nothing has panicked or ended the process, and a request from
  one server to another is delivered by the simulated network exactly if the abstract description of
  these operations, a matrix of links and a set of running servers, says so. Random names do not repeat.
\<close>

theorem group_delivery:
  assumes "inj rnd" "t_net ts = MakeNetwork" "\<forall>x\<in>set xs. op_servers x \<subseteq> {..<n}"
  shows "\<exists>st0 st. makeSrvGrp rnd gid n ts = Inr st0 \<and> go_fold (grp_op rnd mks kill) xs st0 = Inr st \<and>
    (\<forall>i<n. \<forall>j<n. (\<exists>sv. live (end_of (fst st) i j) (ServerName (sg_gid (fst st)) j) sv (t_net (snd st))) \<longleftrightarrow>
       l_link (fold (link_op n) xs no_links) i j \<and> l_up (fold (link_op n) xs no_links) j)"
proof -
  have "names_inv rnd ts" using assms(1,2) by (simp add: names_inv_def MakeNetwork_def)
  then obtain st0 where st0: "makeSrvGrp rnd gid n ts = Inr st0" "grp_inv rnd n st0" "grp_links n st0 = no_links"
    using makeSrvGrp_ok [of rnd ts gid n] assms(2) by (auto simp: no_links_def MakeNetwork_def map_get_def)
  obtain st where st: "go_fold (grp_op rnd mks kill) xs st0 = Inr st" "grp_inv rnd n st"
    "grp_links n st = fold (link_op n) xs no_links"
    using groups.run_ok [OF st0(2) assms(3)] st0(3) by metis
  have "(\<exists>sv. live (end_of (fst st) i j) (ServerName (sg_gid (fst st)) j) sv (t_net (snd st))) \<longleftrightarrow>
      l_link (fold (link_op n) xs no_links) i j \<and> l_up (fold (link_op n) xs no_links) j" if "i < n" "j < n" for i j
    using live_iff [of rnd n "fst st" "snd st", OF _ that] st by simp
  then show ?thesis using st0(1) st(1) by blast
qed

definition shared0 :: "'svc shared" where
  "shared0 = \<lparr>t_net = MakeNetwork, t_draw = 0, t_world = world0, t_labsrvs = [], t_killed = []\<rparr>"

theorem group_delivery_witness:
  "\<exists>(st0 :: nat grp_state) st. makeSrvGrp (\<lambda>k. replicate k CHR ''a'') 0 2 shared0 = Inr st0 \<and>
     go_fold (grp_op (\<lambda>k. replicate k CHR ''a'') (\<lambda>_ _ _ _. ([], [])) (\<lambda>_. []))
       [LStart 0, LStart 1, LConnect 0 [0, 1], LConnect 1 [0, 1], LStop 0] st0 = Inr st \<and>
     (\<exists>sv. live (end_of (fst st) 1 1) (ServerName (sg_gid (fst st)) 1) sv (t_net (snd st))) \<and>
     \<not> (\<exists>sv. live (end_of (fst st) 1 0) (ServerName (sg_gid (fst st)) 0) sv (t_net (snd st)))"
proof -
  have inj: "inj (\<lambda>k. replicate k CHR ''a'')" by (rule injI) (metis length_replicate)
  have net: "t_net (shared0 :: nat shared) = MakeNetwork" by (simp add: shared0_def)
  have ops: "\<forall>x\<in>set [LStart 0, LStart 1, LConnect 0 [0, 1], LConnect 1 [0, 1], LStop 0]. op_servers x \<subseteq> {..<2}" by simp
  obtain st0 st where s: "makeSrvGrp (\<lambda>k. replicate k CHR ''a'') 0 2 (shared0 :: nat shared) = Inr st0"
     "go_fold (grp_op (\<lambda>k. replicate k CHR ''a'') (\<lambda>_ _ _ _. ([], [])) (\<lambda>_. []))
       [LStart 0, LStart 1, LConnect 0 [0, 1], LConnect 1 [0, 1], LStop 0] st0 = Inr st"
     "\<forall>i<2. \<forall>j<2. (\<exists>sv. live (end_of (fst st) i j) (ServerName (sg_gid (fst st)) j) sv (t_net (snd st))) \<longleftrightarrow>
       l_link (fold (link_op 2) [LStart 0, LStart 1, LConnect 0 [0, 1], LConnect 1 [0, 1], LStop 0] no_links) i j \<and>
       l_up (fold (link_op 2) [LStart 0, LStart 1, LConnect 0 [0, 1], LConnect 1 [0, 1], LStop 0] no_links) j"
    using group_delivery [OF inj net ops] by blast
  have "(\<exists>sv. live (end_of (fst st) 1 1) (ServerName (sg_gid (fst st)) 1) sv (t_net (snd st)))"
    "\<not> (\<exists>sv. live (end_of (fst st) 1 0) (ServerName (sg_gid (fst st)) 0) sv (t_net (snd st)))"
    using s(3) [rule_format, of 1 1] s(3) [rule_format, of 1 0] by simp_all
  then show ?thesis using s(1,2) by blast
qed

text \<open>The servers that server \<open>i\<close> can reach through the simulated network.\<close>

definition reaches :: "nat \<Rightarrow> 'svc grp_state \<Rightarrow> nat \<Rightarrow> nat set" where
  "reaches n st i = {j. j < n \<and> (\<exists>sv. live (end_of (fst st) i j) (ServerName (sg_gid (fst st)) j) sv (t_net (snd st)))}"

lemma reaches_links:
  "grp_inv rnd n st \<Longrightarrow> i < n \<Longrightarrow> reaches n st i = {j. j < n \<and> l_link (grp_links n st) i j \<and> l_up (grp_links n st) j}"
  using live_iff [of rnd n "fst st" "snd st" i] by (auto simp: reaches_def)

text \<open>
  C30: a partition puts the leader in a minority. For an odd number of at least three servers, all of
  them running, \<open>MakePartition\<close> followed by \<open>Partition\<close> does not fail, the servers of the first half, a
  majority, can reach exactly each other, and the leader can reach exactly the fewer than half of the
  servers in its half, itself included.
\<close>

theorem leader_in_minority:
  assumes inv: "grp_inv rnd n st" and n: "odd n" "3 \<le> n" "l < n" and up: "\<forall>i<n. l_up (grp_links n st) i"
  shows "\<exists>p1 p2 st'. MakePartition l (fst st) = Inr (p1, p2) \<and> sg_Partition p1 p2 st = Inr st' \<and>
    (\<forall>i\<in>set p1. reaches n st' i = set p1) \<and> n < 2 * card (set p1) \<and>
    l \<in> reaches n st' l \<and> 2 * card (reaches n st' l) < n"
proof -
  have len: "length (sg_srvs (fst st)) = n" using grp_inv_lengths [of rnd n "fst st" "snd st"] inv by simp
  obtain p1 p2 where p: "MakePartition l (fst st) = Inr (p1, p2)" "set p1 \<inter> set p2 = {}" "set p1 \<union> set p2 = {..<n}"
    "l \<in> set p2" "distinct p1" "distinct p2" "length p1 = n div 2 + 1" "length p2 = n div 2"
    by (rule MakePartition_odd [OF len n(3,1,2)])
  have sub: "set p1 \<subseteq> {..<n}" "set p2 \<subseteq> {..<n}" using p(3) by auto
  obtain st' where st': "sg_Partition p1 p2 st = Inr st'" "grp_inv rnd n st'"
    "separated (set p1) (set p2) (grp_links n st')" "l_up (grp_links n st') = l_up (grp_links n st)"
    using sg_Partition_ok [OF inv sub p(2)] by blast
  have reach: "reaches n st' i = {j. j < n \<and> (i \<in> set p1 \<longleftrightarrow> j \<in> set p1)}" if "i < n" for i
    unfolding reaches_links [OF st'(2) that] using st'(3,4) p(3) up that by (auto simp: separated_def)
  have "reaches n st' i = set p1" if "i \<in> set p1" for i using reach [of i] that sub by auto
  moreover have l: "reaches n st' l = set p2" using reach [OF n(3)] p(2-4) by auto
  moreover have "card (set p1) = n div 2 + 1" "card (set p2) = n div 2" using p by (simp_all add: distinct_card)
  moreover have "2 * (n div 2) < n" using n(1) by presburger
  ultimately have "(\<forall>i\<in>set p1. reaches n st' i = set p1) \<and> n < 2 * card (set p1) \<and>
    l \<in> reaches n st' l \<and> 2 * card (reaches n st' l) < n" using p(4) by simp
  then show ?thesis using p(1) st'(1) by blast
qed

text \<open>A group of \<open>n\<close> servers that run and are all connected, for the witnesses.\<close>

definition letters :: "nat \<Rightarrow> string" where
  "letters k = replicate k CHR ''a''"

lemma letters_inj: "inj letters"
  by (rule injI) (metis letters_def length_replicate)

lemma started_group: "\<exists>st :: nat grp_state. grp_inv letters n st \<and> (\<forall>i<n. l_up (grp_links n st) i)"
proof -
  have names: "names_inv letters (shared0 :: nat shared)"
    using letters_inj by (simp add: names_inv_def shared0_def MakeNetwork_def)
  obtain st0 :: "nat grp_state" where st0: "grp_inv letters n st0" using makeSrvGrp_ok [OF names, of 0 n] by blast
  have ops: "\<forall>x\<in>set (map LStart [0..<n]). op_servers x \<subseteq> {..<n}" by auto
  obtain st :: "nat grp_state" where st: "grp_inv letters n st" "grp_links n st = fold (link_op n) (map LStart [0..<n]) (grp_links n st0)"
    using groups.run_ok [OF st0 ops, of "\<lambda>_ _ _ _. ([], [])" "\<lambda>_. []"] by blast
  have "\<forall>i\<in>set is. l_up (fold (link_op n) (map LStart is) s) i" for "is" s
  proof (induction "is" rule: rev_induct)
    case (snoc i is')
    then show ?case by simp
  qed simp
  then show ?thesis using st by (metis atLeastLessThan_iff le0 set_upt)
qed

theorem leader_in_minority_witness:
  "\<exists>(st :: nat grp_state) p1 p2 st'. MakePartition 1 (fst st) = Inr (p1, p2) \<and> sg_Partition p1 p2 st = Inr st' \<and>
     1 \<in> reaches 5 st' 1 \<and> 2 * card (reaches 5 st' 1) < 5"
proof -
  obtain st :: "nat grp_state" where st: "grp_inv letters 5 st" "\<forall>i<5. l_up (grp_links 5 st) i"
    using started_group by blast
  have "odd (5 :: nat)" "3 \<le> (5 :: nat)" "1 < (5 :: nat)" by simp_all
  from leader_in_minority [OF st(1) this st(2)] show ?thesis by blast
qed

text \<open>
  With an even number of servers the partition is none. For four servers and leader 3 \<open>MakePartition\<close>
  returns halves that both contain server 0, and after \<open>Partition\<close> no server can reach more than two
  servers, so neither side has a majority.
\<close>

theorem even_partition_no_majority:
  assumes inv: "grp_inv rnd 4 st"
  shows "MakePartition 3 (fst st) = Inr ([0, 1, 2], [0, 3]) \<and>
    (\<exists>st'. sg_Partition [0, 1, 2] [0, 3] st = Inr st' \<and> (\<forall>i<4. card {j. j < 4 \<and> l_link (grp_links 4 st') i j} \<le> 2))"
proof
  have len: "length (sg_srvs (fst st)) = 4" using grp_inv_lengths [of rnd 4 "fst st" "snd st"] inv by simp
  show "MakePartition 3 (fst st) = Inr ([0, 1, 2], [0, 3])"
    using MakePartition_eq [OF len, of 3] by (simp add: upt_rec) (simp add: numeral_2_eq_2)
next
  let ?ops = "half_ops [0, 1, 2] [0, 3] [0, 1, 2] @ half_ops [0, 3] [0, 1, 2] [0, 3]"
  have ops: "\<forall>x\<in>set ?ops. op_servers x \<subseteq> {..<4}" by simp
  obtain st' where st': "go_fold (grp_op rnd (\<lambda>_ _ _ _. ([], [])) (\<lambda>_. [])) ?ops st = Inr st'"
    "grp_links 4 st' = fold (link_op 4) ?ops (grp_links 4 st)"
    using groups.run_ok [OF inv ops, of "\<lambda>_ _ _ _. ([], [])" "\<lambda>_. []"] by blast
  have off: "\<not> l_link (fold (link_op 4) ?ops s) 0 1" "\<not> l_link (fold (link_op 4) ?ops s) 0 2"
    "\<not> l_link (fold (link_op 4) ?ops s) 3 1" "\<not> l_link (fold (link_op 4) ?ops s) 3 2"
    "\<not> l_link (fold (link_op 4) ?ops s) 1 0" "\<not> l_link (fold (link_op 4) ?ops s) 1 3"
    "\<not> l_link (fold (link_op 4) ?ops s) 2 0" "\<not> l_link (fold (link_op 4) ?ops s) 2 3" for s by simp_all
  have "{j. j < 4 \<and> l_link (grp_links 4 st') i j} \<subseteq> (if i = 0 \<or> i = 3 then {0, 3} else {1, 2})" if "i < 4" for i
  proof -
    have four: "k = 0 \<or> k = 1 \<or> k = 2 \<or> k = 3" if "k < 4" for k :: nat using that by auto
    have "j \<in> (if i = 0 \<or> i = 3 then {0, 3} else {1, 2})" if j: "j < 4" "l_link (grp_links 4 st') i j" for j
      using four [OF \<open>i < 4\<close>] four [OF j(1)] j(2) off [of "grp_links 4 st"] unfolding st'(2) [symmetric] by auto
    then show ?thesis by blast
  qed
  moreover have "card (if i = 0 \<or> i = 3 then {0, 3} else {1, 2 :: nat}) = 2" for i :: nat by simp
  moreover have "finite (if i = 0 \<or> i = 3 then {0, 3} else {1, 2 :: nat})" for i :: nat by simp
  ultimately have "card {j. j < 4 \<and> l_link (grp_links 4 st') i j} \<le> 2" if "i < 4" for i
    using card_mono [of "if i = 0 \<or> i = 3 then {0, 3} else {1, 2}" "{j. j < 4 \<and> l_link (grp_links 4 st') i j}"] that by presburger
  moreover have "sg_Partition [0, 1, 2] [0, 3] st = Inr st'"
    unfolding sg_Partition_ops [of _ _ _ rnd "\<lambda>_ _ _ _. ([], [])" "\<lambda>_. []"] by (rule st'(1))
  ultimately show "\<exists>st'. sg_Partition [0, 1, 2] [0, 3] st = Inr st' \<and> (\<forall>i<4. card {j. j < 4 \<and> l_link (grp_links 4 st') i j} \<le> 2)"
    by blast
qed

theorem even_partition_no_majority_witness:
  "\<exists>st :: nat grp_state. MakePartition 3 (fst st) = Inr ([0, 1, 2], [0, 3])"
proof -
  obtain st :: "nat grp_state" where "grp_inv letters 4 st" using started_group by blast
  then show ?thesis using even_partition_no_majority by blast
qed

lemma ShutdownServer_world:
  assumes inv: "grp_inv rnd n (sg, ts)" and i: "i < n" and down: "ShutdownServer kill i (sg, ts) = Inr (sg1, ts1)"
  shows "saved (sg_srvs sg1 ! i) = map_option (\<lambda>_. length (pers (t_world ts))) (saved (sg_srvs sg ! i))"
    and "t_world ts1 = fold world_op (concat (map kill (svcs (sg_srvs sg ! i))))
      (case saved (sg_srvs sg ! i) of Some p \<Rightarrow> world_op (PCopy p) (t_world ts) | None \<Rightarrow> t_world ts)"
proof -
  have all: "set (sg_all sg) \<subseteq> {..<n}" and len: "length (sg_srvs sg) = n"
    using grp_inv_lengths [OF inv] by (auto simp: sg_all_def)
  define net where "net = DeleteServer (ServerName (sg_gid sg) i) (enable_ends False
      (map (end_of sg i) (sg_all sg) @ map (\<lambda>x. end_of sg x i) (sg_all sg)) (t_net ts))"
  obtain q w k where s: "shutdownServer kill (sg_srvs sg ! i) (ts\<lparr>t_net := net\<rparr>) =
      ((sg_srvs sg ! i)\<lparr>saved := q, svcs := []\<rparr>, ts\<lparr>t_net := net\<rparr>\<lparr>t_world := w, t_killed := k\<rparr>)"
    and q': "q = map_option (\<lambda>_. length (pers (t_world (ts\<lparr>t_net := net\<rparr>)))) (saved (sg_srvs sg ! i))"
    and w': "w = fold world_op (concat (map kill (svcs (sg_srvs sg ! i))))
      (case saved (sg_srvs sg ! i) of Some p \<Rightarrow> world_op (PCopy p) (t_world (ts\<lparr>t_net := net\<rparr>)) | None \<Rightarrow> t_world (ts\<lparr>t_net := net\<rparr>))"
    by (rule shutdownServer_eq [of kill "sg_srvs sg ! i" "ts\<lparr>t_net := net\<rparr>"])
  have q: "q = map_option (\<lambda>_. length (pers (t_world ts))) (saved (sg_srvs sg ! i))" unfolding q' by simp
  have w: "w = fold world_op (concat (map kill (svcs (sg_srvs sg ! i))))
      (case saved (sg_srvs sg ! i) of Some p \<Rightarrow> world_op (PCopy p) (t_world ts) | None \<Rightarrow> t_world ts)"
    unfolding w' by (simp cong: option.case_cong)
  have "ShutdownServer kill i (sg, ts) = Inr (sg\<lparr>sg_connected := (sg_connected sg)[i := False],
      sg_srvs := (sg_srvs sg)[i := (sg_srvs sg ! i)\<lparr>saved := q, svcs := []\<rparr>]\<rparr>, ts\<lparr>t_net := net, t_world := w, t_killed := k\<rparr>)"
    using len i s unfolding ShutdownServer_def fst_conv disconnect_eq [OF inv i all] by (simp add: go_index_nth Let_def net_def)
  then show "saved (sg_srvs sg1 ! i) = map_option (\<lambda>_. length (pers (t_world ts))) (saved (sg_srvs sg ! i))"
    "t_world ts1 = fold world_op (concat (map kill (svcs (sg_srvs sg ! i))))
      (case saved (sg_srvs sg ! i) of Some p \<Rightarrow> world_op (PCopy p) (t_world ts) | None \<Rightarrow> t_world ts)"
    using down len i q w by auto
qed

text \<open>
  C31: a restarted server gets the state that was persisted when it was shut down. Whatever its services do
  to persisters while and after they are killed, as long as they save to the persister they were given and not to the
  copy that the tester made, the next start hands the new services a fresh persister that holds exactly the
  Raft state and snapshot persisted at the time of the shutdown.
\<close>

theorem restart_gets_persisted_state:
  assumes inv: "grp_inv rnd n (sg, ts)" and i: "i < n" and w: "world_inv (t_world ts)"
    and p: "saved (sg_srvs sg ! i) = Some p" "p < length (pers (t_world ts))"
    and kill: "\<forall>svc\<in>set (svcs (sg_srvs sg ! i)). \<forall>x\<in>set (kill svc). \<not> saves_to (length (pers (t_world ts))) x"
    and late: "\<forall>x\<in>set late. \<not> saves_to (length (pers (t_world ts))) x"
  shows "\<exists>sg1 ts1 sg2 ts2 q w2. ShutdownServer kill i (sg, ts) = Inr (sg1, ts1) \<and>
    StartServer rnd mks i (sg1, ts1\<lparr>t_world := fold world_op late (t_world ts1)\<rparr>) = Inr (sg2, ts2) \<and>
    saved (sg_srvs sg2 ! i) = Some q \<and> q \<noteq> p \<and> q \<noteq> length (pers (t_world ts)) \<and>
    t_world ts2 = fold world_op (snd (mks (endNames (sg_srvs sg2 ! i)) (sg_gid sg1) i q)) w2 \<and>
    spers (abs_world w2) ! q = spers (abs_world (t_world ts)) ! p"
proof -
  let ?c = "length (pers (t_world ts))"
  obtain sg1 ts1 where down: "ShutdownServer kill i (sg, ts) = Inr (sg1, ts1)" "grp_inv rnd n (sg1, ts1)"
    using ShutdownServer_ok [OF inv i, of kill] by (metis surj_pair)
  have saved1: "saved (sg_srvs sg1 ! i) = Some ?c" using ShutdownServer_world(1) [OF inv i down(1)] p(1) by simp
  define ops where "ops = concat (map kill (svcs (sg_srvs sg ! i))) @ late"
  define w1 where "w1 = fold world_op ops (world_op (PCopy p) (t_world ts))"
  have w1: "fold world_op late (t_world ts1) = w1"
    using ShutdownServer_world(2) [OF inv i down(1)] p(1) by (simp add: w1_def ops_def)
  have quiet: "\<forall>x\<in>set ops. \<not> saves_to ?c x" using kill late by (auto simp: ops_def)
  note copy = copied_persister [OF w p(2)]
  have w0: "world_inv (world_op (PCopy p) (t_world ts))" by (rule world_op_inv [OF w])
  have kept: "?c < length (pers w1)" "spers (abs_world w1) ! ?c = spers (abs_world (t_world ts)) ! p"
    using persister_kept [OF w0 quiet] copy by (simp_all add: w1_def)
  have "world_inv w1" unfolding w1_def by (rule persisters.run_inv [OF w0])
  note copy2 = copied_persister [OF this kept(1)]
  let ?ts = "ts1\<lparr>t_world := fold world_op late (t_world ts1)\<rparr>"
  have inv1: "grp_inv rnd n (sg1, ?ts)" using down(2) by (simp add: grp_inv_def names_inv_def)
  obtain srv w3 net where up: "StartServer rnd mks i (sg1, ?ts) = Inr (sg1\<lparr>sg_srvs := (sg_srvs sg1)[i := srv]\<rparr>,
      ?ts\<lparr>t_net := AddServer (ServerName (sg_gid sg1) i) (length (t_labsrvs ?ts)) net, t_draw := t_draw ?ts + n,
         t_world := w3, t_labsrvs := t_labsrvs ?ts @ [svcs srv]\<rparr>)"
    "endNames srv = names rnd (t_draw ?ts) n" "saved srv = Some (length (pers (t_world ?ts)))"
    "w3 = fold world_op (snd (mks (names rnd (t_draw ?ts) n) (sg_gid sg1) i (length (pers (t_world ?ts)))))
           (world_op (case saved (sg_srvs sg1 ! i) of Some p \<Rightarrow> PCopy p | None \<Rightarrow> PMake) (t_world ?ts))"
    by (rule StartServer_eq [OF inv1 i, of mks])
  have len: "length (sg_srvs sg1) = n" using grp_inv_lengths [OF down(2)] by simp
  show ?thesis
    by (intro exI [of _ sg1] exI [of _ ts1] exI [of _ "sg1\<lparr>sg_srvs := (sg_srvs sg1)[i := srv]\<rparr>"] exI [of _ "length (pers w1)"]
        exI [of _ "world_op (PCopy ?c) w1"] exI conjI, rule down(1), rule up(1))
      (use len i up saved1 w1 kept copy2 p(2) in \<open>simp_all del: world_op.simps\<close>)
qed

theorem restart_gets_persisted_state_witness:
  "\<exists>(sg :: nat ServerGrp) ts. sg_N sg = 1 \<and> saved (sg_srvs sg ! 0) \<noteq> None \<and>
     (\<exists>sg1 ts1 sg2 ts2. ShutdownServer (\<lambda>_. []) 0 (sg, ts) = Inr (sg1, ts1) \<and>
        StartServer letters (\<lambda>_ _ _ _. ([7], [])) 0 (sg1, ts1) = Inr (sg2, ts2) \<and> saved (sg_srvs sg2 ! 0) \<noteq> saved (sg_srvs sg1 ! 0))"
proof -
  have names: "names_inv letters (shared0 :: nat shared)"
    using letters_inj by (simp add: names_inv_def shared0_def MakeNetwork_def)
  obtain net where mk: "makeSrvGrp letters 0 1 (shared0 :: nat shared) =
      Inr (\<lparr>sg_srvs = [new_server letters 0 1], servernames = [ServerName 0 0], sg_gid = 0, sg_connected = [False]\<rparr>,
        shared0\<lparr>t_net := net, t_draw := 1\<rparr>)"
    using make_servers [OF names, of 0 1 1] by (auto simp: makeSrvGrp_def shared0_def)
  define sg0 where "sg0 = \<lparr>sg_srvs = [new_server letters 0 1 :: nat Tserver], servernames = [ServerName 0 0], sg_gid = 0, sg_connected = [False]\<rparr>"
  define ts0 where "ts0 = (shared0 :: nat shared)\<lparr>t_net := net, t_draw := 1\<rparr>"
  have inv0: "grp_inv letters 1 (sg0, ts0)"
    using makeSrvGrp_ok [OF names, of 0 1] mk by (auto simp: sg0_def ts0_def)
  obtain sg ts where st: "StartServer letters (\<lambda>_ _ _ _. ([7], [])) 0 (sg0, ts0) = Inr (sg, ts)" "grp_inv letters 1 (sg, ts)"
    using StartServer_ok [OF inv0, of 0 "\<lambda>_ _ _ _. ([7], [])"] by auto
  obtain srv w net' where "StartServer letters (\<lambda>_ _ _ _. ([7], [])) 0 (sg0, ts0) = Inr (sg0\<lparr>sg_srvs := (sg_srvs sg0)[0 := srv]\<rparr>,
      ts0\<lparr>t_net := AddServer (ServerName (sg_gid sg0) 0) (length (t_labsrvs ts0)) net', t_draw := t_draw ts0 + 1,
         t_world := w, t_labsrvs := t_labsrvs ts0 @ [svcs srv]\<rparr>)"
    "saved srv = Some (length (pers (t_world ts0)))"
    "w = fold world_op (snd ([7 :: nat], [])) (world_op (case saved (sg_srvs sg0 ! 0) of Some p \<Rightarrow> PCopy p | None \<Rightarrow> PMake) (t_world ts0))"
    by (rule StartServer_eq [OF inv0, of 0 "\<lambda>_ _ _ _. ([7], [])"]) simp_all
  then have ts: "saved (sg_srvs sg ! 0) = Some 0" "t_world ts = world_op PMake world0"
    using st(1) by (auto simp: sg0_def ts0_def shared0_def world0_def new_server_def)
  have w: "world_inv (t_world ts)" "0 < length (pers (t_world ts))"
    unfolding ts(2) using world_op_inv [OF world0_inv] by (simp_all add: world0_def del: world_op.simps) simp
  obtain sg1 ts1 sg2 ts2 q where "ShutdownServer (\<lambda>_. []) 0 (sg, ts) = Inr (sg1, ts1)"
    "StartServer letters (\<lambda>_ _ _ _. ([7], [])) 0 (sg1, ts1\<lparr>t_world := fold world_op [] (t_world ts1)\<rparr>) = Inr (sg2, ts2)"
    "saved (sg_srvs sg2 ! 0) = Some q" "q \<noteq> length (pers (t_world ts))"
    using restart_gets_persisted_state [OF st(2) _ w(1) ts(1) w(2), of "\<lambda>_. []" "[]" "\<lambda>_ _ _ _. ([7], [])"] by auto
  moreover have "saved (sg_srvs sg1 ! 0) = Some (length (pers (t_world ts)))"
    using ShutdownServer_world(1) [OF st(2) _ calculation(1)] ts(1) by simp
  moreover have "sg_N sg = 1" using grp_inv_lengths [OF st(2)] by (simp add: sg_N_def)
  ultimately show ?thesis using ts(1) by (intro exI [of _ sg] exI [of _ ts] conjI exI) auto
qed

end
