(* ===== verification/Tester_Clnts.thy ===== *)
theory Tester_Clnts
  imports Tester_Group
begin

text \<open>
  \<open>tester1/clnts.go\<close>: the clients of a test. A client makes an end to a server when it first calls it
  and decides by its list of allowed servers whether the end is enabled; the tester changes what a client
  may reach. The map of a client's ends is an association list, whose order stands for the
  traversal order. Client objects are pointers, numbers into the list of all of them.
\<close>

section \<open>One client\<close>

text \<open>\<open>srvs\<close> is nil (\<open>None\<close>) if all servers are allowed.\<close>

record Clnt =
  c_ends :: "(string \<times> string) list"
  c_srvs :: "string list option"

definition makeClntTo :: "string list option \<Rightarrow> Clnt" where
  "makeClntTo srvs = \<lparr>c_ends = [], c_srvs = srvs\<rparr>"

definition allowedL :: "string \<Rightarrow> Clnt \<Rightarrow> bool" where
  "allowedL server clnt = (case c_srvs clnt of None \<Rightarrow> True | Some ns \<Rightarrow> list_ex (\<lambda>n. n = server) ns)"

definition Clnt_makeEnd :: "(nat \<Rightarrow> string) \<Rightarrow> string \<Rightarrow> Clnt \<times> 'svc shared \<Rightarrow> (string \<times> Clnt \<times> 'svc shared) go" where
  "Clnt_makeEnd rnd server st = (case st of (clnt, ts) \<Rightarrow>
     (case map_of (c_ends clnt) server of
        Some e \<Rightarrow> Inr (e, clnt, ts)
      | None \<Rightarrow>
          let name = rnd (t_draw ts)
          in case MakeEnd name (t_net ts) of
               Inl p \<Rightarrow> Inl p
             | Inr net \<Rightarrow>
                 let net = Connect name server net;
                     net = (if allowedL server clnt then Enable name True net else Enable name False net)
                 in Inr (name, clnt\<lparr>c_ends := assoc_put server name (c_ends clnt)\<rparr>,
                         ts\<lparr>t_net := net, t_draw := Suc (t_draw ts)\<rparr>)))"

text \<open>\<open>send\<close> is what the network answers to a request.\<close>

definition Clnt_Call :: "(nat \<Rightarrow> string) \<Rightarrow> (Network \<Rightarrow> reqMsg \<Rightarrow> replyMsg) \<Rightarrow> (uint8 list \<Rightarrow> 'r option) \<Rightarrow> string \<Rightarrow> string \<Rightarrow>
    uint8 list \<Rightarrow> Clnt \<times> 'svc shared \<Rightarrow> ('r option \<times> Clnt \<times> 'svc shared) go" where
  "Clnt_Call rnd send dec server meth args st = (case Clnt_makeEnd rnd server st of
      Inl p \<Rightarrow> Inl p
    | Inr (e, clnt, ts) \<Rightarrow>
        (case Call dec (net_done (t_net ts)) (send (t_net ts) \<lparr>rq_endname = e, rq_svcMeth = meth, rq_args = args\<rparr>) of
           Inl p \<Rightarrow> Inl p
         | Inr r \<Rightarrow> Inr (r, clnt, ts)))"

definition enable_if :: "(string \<Rightarrow> bool) \<Rightarrow> bool \<Rightarrow> Clnt \<Rightarrow> Network \<Rightarrow> Network" where
  "enable_if P v clnt net = fold (\<lambda>(s, e) net. if P s then Enable e v net else net) (c_ends clnt) net"

definition Clnt_ConnectAll :: "Clnt \<times> 'svc shared \<Rightarrow> Clnt \<times> 'svc shared" where
  "Clnt_ConnectAll st = (case st of (clnt, ts) \<Rightarrow>
     (clnt\<lparr>c_srvs := None\<rparr>, ts\<lparr>t_net := enable_if (\<lambda>_. True) True clnt (t_net ts)\<rparr>))"

definition ConnectTo :: "string list option \<Rightarrow> Clnt \<times> 'svc shared \<Rightarrow> Clnt \<times> 'svc shared" where
  "ConnectTo srvs st = (case st of (clnt, ts) \<Rightarrow>
     let clnt = clnt\<lparr>c_srvs := srvs\<rparr>
     in (clnt, ts\<lparr>t_net := enable_if (\<lambda>s. allowedL s clnt) True clnt (t_net ts)\<rparr>))"

definition Clnt_Disconnect :: "string \<Rightarrow> Clnt \<times> 'svc shared \<Rightarrow> Clnt \<times> 'svc shared" where
  "Clnt_Disconnect srv st = (case st of (clnt, ts) \<Rightarrow>
     (clnt, ts\<lparr>t_net := enable_if (\<lambda>s. s = srv) False clnt (t_net ts)\<rparr>))"

definition Clnt_DisconnectAll :: "Clnt \<times> 'svc shared \<Rightarrow> Clnt \<times> 'svc shared" where
  "Clnt_DisconnectAll st = (case st of (clnt, ts) \<Rightarrow>
     (clnt\<lparr>c_srvs := Some []\<rparr>, ts\<lparr>t_net := enable_if (\<lambda>_. True) False clnt (t_net ts)\<rparr>))"

definition Clnt_remove :: "Clnt \<Rightarrow> 'svc shared \<Rightarrow> 'svc shared go" where
  "Clnt_remove clnt ts = (case go_fold (\<lambda>(s, e) net. DeleteEnd e net) (c_ends clnt) (t_net ts) of
      Inl p \<Rightarrow> Inl p | Inr net \<Rightarrow> Inr (ts\<lparr>t_net := net\<rparr>))"

section \<open>All clients\<close>

text \<open>The map of clerks is nil after \<open>cleanup\<close>; adding to a nil map panics.\<close>

record Clnts =
  cl_objs :: "Clnt list"
  clerks :: "nat list option"

definition makeClnts :: Clnts where
  "makeClnts = \<lparr>cl_objs = [], clerks = Some []\<rparr>"

definition Clnts_makeEnd :: "(nat \<Rightarrow> string) \<Rightarrow> string \<Rightarrow> 'svc shared \<Rightarrow> (string \<times> 'svc shared) go" where
  "Clnts_makeEnd rnd servername ts =
     (let name = rnd (t_draw ts)
      in case MakeEnd name (t_net ts) of
           Inl p \<Rightarrow> Inl p
         | Inr net \<Rightarrow> Inr (name, ts\<lparr>t_net := Enable name True (Connect name servername net), t_draw := Suc (t_draw ts)\<rparr>))"

definition MakeClientTo :: "string list option \<Rightarrow> Clnts \<Rightarrow> (nat \<times> Clnts) go" where
  "MakeClientTo srvs clnts = (case clerks clnts of
      None \<Rightarrow> Inl NilPanic
    | Some ps \<Rightarrow> let p = length (cl_objs clnts)
                 in Inr (p, \<lparr>cl_objs = cl_objs clnts @ [makeClntTo srvs], clerks = Some (ps @ [p])\<rparr>))"

definition MakeClient :: "Clnts \<Rightarrow> (nat \<times> Clnts) go" where
  "MakeClient clnts = MakeClientTo None clnts"

definition Clnts_cleanup :: "Clnts \<times> 'svc shared \<Rightarrow> (Clnts \<times> 'svc shared) go" where
  "Clnts_cleanup st = (case st of (clnts, ts) \<Rightarrow>
     (case go_fold (\<lambda>p ts. Clnt_remove (cl_objs clnts ! p) ts) (case clerks clnts of None \<Rightarrow> [] | Some ps \<Rightarrow> ps) ts of
        Inl p \<Rightarrow> Inl p
      | Inr ts \<Rightarrow> Inr (clnts\<lparr>clerks := None\<rparr>, ts)))"

definition DeleteClient :: "nat \<Rightarrow> Clnts \<times> 'svc shared \<Rightarrow> (Clnts \<times> 'svc shared) go" where
  "DeleteClient p st = (case st of (clnts, ts) \<Rightarrow>
     (case clerks clnts of
        None \<Rightarrow> Inr (clnts, ts)
      | Some ps \<Rightarrow>
          if p \<in> set ps
          then (case Clnt_remove (cl_objs clnts ! p) ts of
                  Inl f \<Rightarrow> Inl f
                | Inr ts \<Rightarrow> Inr (clnts\<lparr>clerks := Some (filter (\<lambda>q. q \<noteq> p) ps)\<rparr>, ts))
          else Inr (clnts, ts)))"

section \<open>What a client can reach\<close>

text \<open>
  The abstract view: the servers the client has an end to, those of them whose end is enabled, and whether a
  server that has no end yet would be enabled.
\<close>

record access =
  a_made :: "string set"
  a_on :: "string set"
  a_allowed :: "string \<Rightarrow> bool"

datatype client_call = CMake string | CConnectAll | CConnectTo "string list option" | CDisconnect string | CDisconnectAll

text \<open>
  \<open>access_op\<close> is the contract that the comments of the code state: a client cannot connect to a server that its list of servers leaves out.
  \<open>code_access\<close> is what the code does: \<open>ConnectTo\<close> enables ends and disables none.
\<close>

definition in_list :: "string list option \<Rightarrow> string \<Rightarrow> bool" where
  "in_list ns s \<longleftrightarrow> (case ns of None \<Rightarrow> True | Some l \<Rightarrow> s \<in> set l)"

fun access_op :: "client_call \<Rightarrow> access \<Rightarrow> access" where
  "access_op (CMake s) a = (if s \<in> a_made a then a
     else a\<lparr>a_made := insert s (a_made a), a_on := (if a_allowed a s then insert s (a_on a) else a_on a)\<rparr>)"
| "access_op CConnectAll a = a\<lparr>a_on := a_made a, a_allowed := \<lambda>_. True\<rparr>"
| "access_op (CConnectTo ns) a = a\<lparr>a_on := {s \<in> a_made a. in_list ns s}, a_allowed := in_list ns\<rparr>"
| "access_op (CDisconnect s) a = a\<lparr>a_on := a_on a - {s}\<rparr>"
| "access_op CDisconnectAll a = a\<lparr>a_on := {}, a_allowed := \<lambda>_. False\<rparr>"

fun code_access :: "client_call \<Rightarrow> access \<Rightarrow> access" where
  "code_access (CConnectTo ns) a = a\<lparr>a_on := a_on a \<union> {s \<in> a_made a. in_list ns s}, a_allowed := in_list ns\<rparr>"
| "code_access x a = access_op x a"

text \<open>No \<open>ConnectTo\<close> of the sequence leaves out a server that the client can reach at that time.\<close>

fun drops_none :: "client_call list \<Rightarrow> access \<Rightarrow> bool" where
  "drops_none [] a = True"
| "drops_none (x # xs) a \<longleftrightarrow>
     (case x of CConnectTo ns \<Rightarrow> (\<forall>s\<in>a_on a. in_list ns s) | _ \<Rightarrow> True) \<and> drops_none xs (access_op x a)"

definition new_access :: "string list option \<Rightarrow> access" where
  "new_access srvs = \<lparr>a_made = {}, a_on = {}, a_allowed = in_list srvs\<rparr>"

definition access_ok :: "access \<Rightarrow> bool" where
  "access_ok a \<longleftrightarrow> (\<forall>s\<in>a_on a. s \<in> a_made a \<and> a_allowed a s)"

lemma access_op_ok: "access_ok a \<Longrightarrow> access_ok (access_op x a)"
  by (cases x) (auto simp: access_ok_def)

lemma drops_none_code:
  "access_ok a \<Longrightarrow> drops_none xs a \<Longrightarrow> fold code_access xs a = fold access_op xs a \<and> access_ok (fold access_op xs a)"
proof (induction xs arbitrary: a)
  case (Cons x xs)
  have "code_access x a = access_op x a"
    using Cons.prems by (cases x) (auto simp: access_ok_def intro!: access.equality)
  then show ?case using Cons.IH [OF access_op_ok [OF Cons.prems(1)]] Cons.prems(2) by simp
qed simp

fun client_op :: "(nat \<Rightarrow> string) \<Rightarrow> client_call \<Rightarrow> Clnt \<times> 'svc shared \<Rightarrow> (Clnt \<times> 'svc shared) go" where
  "client_op rnd (CMake s) st = (case Clnt_makeEnd rnd s st of Inl p \<Rightarrow> Inl p | Inr (e, st) \<Rightarrow> Inr st)"
| "client_op rnd CConnectAll st = Inr (Clnt_ConnectAll st)"
| "client_op rnd (CConnectTo ns) st = Inr (ConnectTo ns st)"
| "client_op rnd (CDisconnect s) st = Inr (Clnt_Disconnect s st)"
| "client_op rnd CDisconnectAll st = Inr (Clnt_DisconnectAll st)"

definition client_access :: "Clnt \<times> 'svc shared \<Rightarrow> access" where
  "client_access st = (case st of (clnt, ts) \<Rightarrow>
     \<lparr>a_made = fst ` set (c_ends clnt),
      a_on = {s. \<exists>e. map_of (c_ends clnt) s = Some e \<and> map_get (enabled (t_net ts)) False e},
      a_allowed = \<lambda>s. allowedL s clnt\<rparr>)"

definition client_inv :: "(nat \<Rightarrow> string) \<Rightarrow> Clnt \<times> 'svc shared \<Rightarrow> bool" where
  "client_inv rnd st \<longleftrightarrow> (case st of (clnt, ts) \<Rightarrow>
     inj rnd \<and> ends (t_net ts) \<subseteq> rnd ` {..<t_draw ts} \<and>
     distinct (map fst (c_ends clnt)) \<and> distinct (map snd (c_ends clnt)) \<and>
     (\<forall>(s, e)\<in>set (c_ends clnt). e \<in> ends (t_net ts) \<and> connections (t_net ts) e = Some (Some s)))"

lemma enable_if_eq:
  "enable_if P v clnt net = net\<lparr>enabled := (\<lambda>e. if \<exists>s. (s, e) \<in> set (c_ends clnt) \<and> P s then Some v else enabled net e)\<rparr>"
proof -
  have "enable_if P v clnt net = enable_ends v (map snd (filter (P \<circ> fst) (c_ends clnt))) net"
    unfolding enable_ends_fold [symmetric] enable_if_def by (simp add: case_prod_unfold comp_def)
  then show ?thesis by (auto simp: enable_ends_eq fun_eq_iff image_iff)
qed

lemma enable_if_srvs [simp]: "enable_if P v (clnt\<lparr>c_srvs := x\<rparr>) = enable_if P v clnt"
  by (simp add: enable_if_def [abs_def])

lemma end_on:
  assumes "client_inv rnd (clnt, ts)"
  shows "(\<exists>s'. (s', e) \<in> set (c_ends clnt) \<and> P s') \<and> map_of (c_ends clnt) s = Some e \<longleftrightarrow> map_of (c_ends clnt) s = Some e \<and> P s"
proof -
  have d: "distinct (map fst (c_ends clnt))" "distinct (map snd (c_ends clnt))" using assms by (auto simp: client_inv_def)
  have "s' = s" if "(s', e) \<in> set (c_ends clnt)" "map_of (c_ends clnt) s = Some e" for s'
    using that(1) map_of_SomeD [OF that(2)] d(2) inj_onD [of snd "set (c_ends clnt)" "(s', e)" "(s, e)"]
    by (simp add: distinct_map)
  then show ?thesis using map_of_SomeD by fast
qed

lemma access_enable:
  assumes "client_inv rnd (clnt, ts)" "c_ends clnt' = c_ends clnt"
  shows "client_access (clnt', ts\<lparr>t_net := enable_if P v clnt (t_net ts)\<rparr>) =
    (client_access (clnt, ts))\<lparr>a_on := {s. s \<in> a_made (client_access (clnt, ts)) \<and> (if P s then v else s \<in> a_on (client_access (clnt, ts)))},
      a_allowed := \<lambda>s. allowedL s clnt'\<rparr>"
proof -
  have "(\<exists>e. map_of (c_ends clnt) s = Some e \<and> map_get (enabled (enable_if P v clnt (t_net ts))) False e) \<longleftrightarrow>
      s \<in> fst ` set (c_ends clnt) \<and> (if P s then v else \<exists>e. map_of (c_ends clnt) s = Some e \<and> map_get (enabled (t_net ts)) False e)" for s
  proof (cases "map_of (c_ends clnt) s")
    case (Some e)
    then have "s \<in> fst ` set (c_ends clnt)" by (force dest: map_of_SomeD)
    moreover have "(\<exists>s'. (s', e) \<in> set (c_ends clnt) \<and> P s') \<longleftrightarrow> P s" using end_on [OF assms(1), of e P s] Some by simp
    ultimately show ?thesis using Some by (simp add: enable_if_eq map_get_def)
  next
    case None
    then show ?thesis using map_of_eq_None_iff [of "c_ends clnt" s] by simp
  qed
  then show ?thesis using assms(2) by (auto simp: client_access_def)
qed

lemma client_inv_enable:
  "client_inv rnd (clnt, ts) \<Longrightarrow> c_ends clnt' = c_ends clnt \<Longrightarrow>
     client_inv rnd (clnt', ts\<lparr>t_net := enable_if P v clnt (t_net ts)\<rparr>)"
  by (simp add: client_inv_def enable_if_eq)

lemma assoc_put_new: "k \<notin> fst ` set m \<Longrightarrow> assoc_put k v m = m @ [(k, v)]"
  by (induction k v m rule: assoc_put.induct) auto

lemma makeEnd_ok:
  assumes inv: "client_inv rnd (clnt, ts)"
  shows "\<exists>e st'. Clnt_makeEnd rnd s (clnt, ts) = Inr (e, st') \<and> client_inv rnd st' \<and>
    client_access st' = code_access (CMake s) (client_access (clnt, ts))"
proof (cases "map_of (c_ends clnt) s")
  case (Some e)
  then have "s \<in> fst ` set (c_ends clnt)" by (force dest: map_of_SomeD)
  then show ?thesis using inv Some by (simp add: Clnt_makeEnd_def client_access_def)
next
  case None
  let ?n = "rnd (t_draw ts)"
  have new: "s \<notin> fst ` set (c_ends clnt)" using None by (simp add: map_of_eq_None_iff)
  have fresh: "?n \<notin> ends (t_net ts)"
  proof
    assume "?n \<in> ends (t_net ts)"
    then obtain k where "k < t_draw ts" "?n = rnd k" using inv by (auto simp: client_inv_def)
    then show False using inv by (auto simp: client_inv_def dest: injD)
  qed
  have fresh': "?n \<noteq> e" if "(s', e) \<in> set (c_ends clnt)" for s' e using that fresh inv by (auto simp: client_inv_def)
  let ?net = "(t_net ts)\<lparr>ends := insert ?n (ends (t_net ts)), enabled := (enabled (t_net ts))(?n \<mapsto> allowedL s clnt),
      connections := (connections (t_net ts))(?n \<mapsto> Some s)\<rparr>"
  have eq: "Clnt_makeEnd rnd s (clnt, ts) = Inr (?n, clnt\<lparr>c_ends := c_ends clnt @ [(s, ?n)]\<rparr>,
      ts\<lparr>t_net := ?net, t_draw := Suc (t_draw ts)\<rparr>)"
    using None fresh by (simp add: Clnt_makeEnd_def MakeEnd_def Connect_def Enable_def assoc_put_new [OF new] Let_def)
  have "client_inv rnd (clnt\<lparr>c_ends := c_ends clnt @ [(s, ?n)]\<rparr>, ts\<lparr>t_net := ?net, t_draw := Suc (t_draw ts)\<rparr>)"
    using inv new fresh' [of _ ?n] by (auto simp: client_inv_def lessThan_Suc)
  moreover have "(\<exists>e. map_of (c_ends clnt @ [(s, ?n)]) s' = Some e \<and> map_get (enabled ?net) False e) \<longleftrightarrow>
      (if s' = s then allowedL s clnt else \<exists>e. map_of (c_ends clnt) s' = Some e \<and> map_get (enabled (t_net ts)) False e)" for s'
  proof (cases "s' = s")
    case True
    then show ?thesis using None by (simp add: map_of_append map_add_def map_get_def)
  next
    case False
    then have "map_of (c_ends clnt @ [(s, ?n)]) s' = map_of (c_ends clnt) s'" by (simp add: map_add_def split: option.split)
    moreover have "map_get (enabled ?net) False e \<longleftrightarrow> map_get (enabled (t_net ts)) False e" if "map_of (c_ends clnt) s' = Some e" for e
      using fresh' [OF map_of_SomeD [OF that]] by (simp add: map_get_def)
    ultimately show ?thesis using False by auto
  qed
  then have "client_access (clnt\<lparr>c_ends := c_ends clnt @ [(s, ?n)]\<rparr>, ts\<lparr>t_net := ?net, t_draw := Suc (t_draw ts)\<rparr>) =
      code_access (CMake s) (client_access (clnt, ts))"
    using new None by (auto simp: client_access_def allowedL_def intro!: access.equality split: if_splits)
  ultimately show ?thesis using eq by blast
qed

interpretation clients: fallible_refinement "client_op rnd" code_access client_access "client_inv rnd" "\<lambda>_. True" for rnd
proof
  fix st :: "Clnt \<times> 'a shared" and x
  assume "client_inv rnd st"
  then obtain clnt ts where st: "st = (clnt, ts)" and inv: "client_inv rnd (clnt, ts)" by (cases st) auto
  have made: "a_on (client_access (clnt, ts)) \<subseteq> a_made (client_access (clnt, ts))"
    by (force simp: client_access_def dest: map_of_SomeD)
  show "\<exists>d. client_op rnd x st = Inr d \<and> client_inv rnd d \<and> client_access d = code_access x (client_access st)"
  proof (cases x)
    case (CMake s)
    then show ?thesis using makeEnd_ok [OF inv, of s] st by auto
  next
    case (CConnectTo ns)
    then show ?thesis unfolding st using made
      by (cases ns) (auto simp: ConnectTo_def Let_def client_inv_enable [OF inv] access_enable [OF inv] allowedL_def list_ex_iff in_list_def
          intro!: access.equality)
  next
    case (CDisconnect s)
    have "a_allowed (client_access (clnt, ts)) = (\<lambda>s. allowedL s clnt)" by (simp add: client_access_def)
    then show ?thesis unfolding st CDisconnect using made
      by (auto simp: Clnt_Disconnect_def client_inv_enable [OF inv] access_enable [OF inv] intro!: access.equality)
  qed (use made in \<open>auto simp: st Clnt_ConnectAll_def Clnt_DisconnectAll_def
        client_inv_enable [OF inv] access_enable [OF inv] allowedL_def\<close>)
qed

section \<open>Properties\<close>

lemma client_run:
  assumes "inj rnd" "ends (t_net ts) \<subseteq> rnd ` {..<t_draw ts}"
  obtains clnt' ts' where "go_fold (client_op rnd) xs (makeClntTo srvs, ts) = Inr (clnt', ts')" "client_inv rnd (clnt', ts')"
    "client_access (clnt', ts') = fold code_access xs (new_access srvs)"
proof -
  have inv: "client_inv rnd (makeClntTo srvs, ts)" using assms by (simp add: client_inv_def makeClntTo_def)
  have "client_access (makeClntTo srvs, ts) = new_access srvs"
    by (cases srvs) (auto simp: client_access_def makeClntTo_def allowedL_def list_ex_iff in_list_def new_access_def fun_eq_iff)
  then show thesis using clients.run_ok [OF inv, of xs] that by auto
qed

text \<open>
  C32: what a client can reach, against what the comments of the code promise. Take any sequence of calls, connects and disconnects
  of a new client, where the names of ends do not repeat. Nothing fails, and every end the client holds is connected to the server it was made for. If no
  \<open>ConnectTo\<close> leaves out a server that the client can reach at that time, an end is enabled exactly if the contract says so, and only to
  servers that the client's list of servers allows. The condition is needed: a client that has called a server and is then connected to the empty
  list still has an enabled end to it, against the comment on \<open>srvs\<close>.
\<close>

theorem client_access_exact:
  assumes "inj rnd" "ends (t_net ts) \<subseteq> rnd ` {..<t_draw ts}"
  shows "(\<exists>clnt' ts'. go_fold (client_op rnd) xs (makeClntTo srvs, ts) = Inr (clnt', ts') \<and>
      (\<forall>s e. map_of (c_ends clnt') s = Some e \<longrightarrow> connections (t_net ts') e = Some (Some s) \<and>
         (drops_none xs (new_access srvs) \<longrightarrow>
            (map_get (enabled (t_net ts')) False e \<longleftrightarrow> s \<in> a_on (fold access_op xs (new_access srvs))) \<and>
            (map_get (enabled (t_net ts')) False e \<longrightarrow> allowedL s clnt')))) \<and>
    (\<exists>clnt' ts' e. go_fold (client_op rnd) [CMake s, CConnectTo (Some [])] (makeClntTo None, ts) = Inr (clnt', ts') \<and>
      map_of (c_ends clnt') s = Some e \<and> \<not> allowedL s clnt' \<and>
      map_get (enabled (t_net ts')) False e \<and> connections (t_net ts') e = Some (Some s))"
proof
  obtain clnt' ts' where r: "go_fold (client_op rnd) xs (makeClntTo srvs, ts) = Inr (clnt', ts')" "client_inv rnd (clnt', ts')"
    "client_access (clnt', ts') = fold code_access xs (new_access srvs)"
    using client_run [OF assms(1,2), of xs srvs] by metis
  have conn: "connections (t_net ts') e = Some (Some s)" if "map_of (c_ends clnt') s = Some e" for s e
    using r(2) map_of_SomeD [OF that] by (auto simp: client_inv_def)
  have ok: "access_ok (new_access srvs)" by (simp add: access_ok_def new_access_def)
  have on: "(map_get (enabled (t_net ts')) False e \<longleftrightarrow> s \<in> a_on (fold access_op xs (new_access srvs))) \<and>
      (map_get (enabled (t_net ts')) False e \<longrightarrow> allowedL s clnt')"
    if e: "map_of (c_ends clnt') s = Some e" and d: "drops_none xs (new_access srvs)" for s e
  proof -
    have c: "client_access (clnt', ts') = fold access_op xs (new_access srvs)" "access_ok (client_access (clnt', ts'))"
      using drops_none_code [OF ok d] r(3) by simp_all
    have "map_get (enabled (t_net ts')) False e \<longleftrightarrow> s \<in> a_on (client_access (clnt', ts'))" using e by (simp add: client_access_def)
    moreover have "s \<in> a_on (client_access (clnt', ts')) \<Longrightarrow> allowedL s clnt'" using c(2) by (auto simp: access_ok_def client_access_def)
    ultimately show ?thesis unfolding c(1) by blast
  qed
  show "\<exists>clnt' ts'. go_fold (client_op rnd) xs (makeClntTo srvs, ts) = Inr (clnt', ts') \<and>
      (\<forall>s e. map_of (c_ends clnt') s = Some e \<longrightarrow> connections (t_net ts') e = Some (Some s) \<and>
         (drops_none xs (new_access srvs) \<longrightarrow>
            (map_get (enabled (t_net ts')) False e \<longleftrightarrow> s \<in> a_on (fold access_op xs (new_access srvs))) \<and>
            (map_get (enabled (t_net ts')) False e \<longrightarrow> allowedL s clnt')))"
    using r(1) conn on by blast
next
  obtain clnt' ts' where r: "go_fold (client_op rnd) [CMake s, CConnectTo (Some [])] (makeClntTo None, ts) = Inr (clnt', ts')"
    "client_inv rnd (clnt', ts')"
    "client_access (clnt', ts') = fold code_access [CMake s, CConnectTo (Some [])] (new_access None)"
    using client_run [OF assms(1,2)] by metis
  have "s \<in> a_on (client_access (clnt', ts'))" "\<not> a_allowed (client_access (clnt', ts')) s"
    unfolding r(3) by (simp_all add: new_access_def in_list_def)
  then obtain e where e: "map_of (c_ends clnt') s = Some e" "map_get (enabled (t_net ts')) False e" "\<not> allowedL s clnt'"
    by (auto simp: client_access_def)
  then have "connections (t_net ts') e = Some (Some s)"
    using r(2) map_of_SomeD [OF e(1)] by (auto simp: client_inv_def)
  then show "\<exists>clnt' ts' e. go_fold (client_op rnd) [CMake s, CConnectTo (Some [])] (makeClntTo None, ts) = Inr (clnt', ts') \<and>
      map_of (c_ends clnt') s = Some e \<and> \<not> allowedL s clnt' \<and>
      map_get (enabled (t_net ts')) False e \<and> connections (t_net ts') e = Some (Some s)"
    using r(1) e by blast
qed

theorem client_access_exact_witness:
  "\<exists>clnt' (ts' :: nat shared). go_fold (client_op (\<lambda>k. replicate k CHR ''x'')) [CMake ''a'', CDisconnectAll, CMake ''b'', CConnectTo (Some [''b''])]
       (makeClntTo None, \<lparr>t_net = MakeNetwork, t_draw = 0, t_world = world0, t_labsrvs = [], t_killed = []\<rparr>) = Inr (clnt', ts') \<and>
     (\<forall>e. map_of (c_ends clnt') ''b'' = Some e \<longrightarrow> map_get (enabled (t_net ts')) False e) \<and>
     (\<forall>e. map_of (c_ends clnt') ''a'' = Some e \<longrightarrow> \<not> map_get (enabled (t_net ts')) False e)"
proof -
  let ?ts = "\<lparr>t_net = MakeNetwork, t_draw = 0, t_world = world0, t_labsrvs = [], t_killed = []\<rparr> :: nat shared"
  have "inj (\<lambda>k. replicate k CHR ''x'')" by (rule injI) (metis length_replicate)
  moreover have "ends (t_net ?ts) \<subseteq> (\<lambda>k. replicate k CHR ''x'') ` {..<t_draw ?ts}" by (simp add: MakeNetwork_def)
  ultimately show ?thesis
    using client_access_exact [of "\<lambda>k. replicate k CHR ''x''" ?ts
      "[CMake ''a'', CDisconnectAll, CMake ''b'', CConnectTo (Some [''b''])]" None] by (simp add: new_access_def in_list_def) blast
qed

end
