(* ===== verification/Annotation.thy ===== *)
theory Annotation
  imports Go_Lib
begin

text \<open>
  \<open>tester1/annotation.go\<close>: the annotations that the tester shows beside a history, points in time,
  intervals and, per tag, one continuous annotation that lasts until it is replaced or ended; and the
  record of which servers are disconnected or crashed, shown as the continuous annotation with tag
  \<open>TAG_PARTITION\<close>. The package variables are one state; the time is an argument of each operation. The
  map of continuous annotations is an association list whose order stands for the traversal order.
\<close>

section \<open>State\<close>

text \<open>\<open>porcupine.Annotation\<close>; fields left out of a literal are zero.\<close>

record Annot =
  a_Tag :: string
  a_Start :: int
  a_End :: int
  a_Description :: string
  a_Details :: string
  a_BackgroundColor :: string

record Continuous =
  c_start :: int
  c_desp :: string
  c_details :: string
  c_bgcolor :: string

definition Continuous0 :: Continuous where
  "Continuous0 = \<lparr>c_start = 0, c_desp = '''', c_details = '''', c_bgcolor = ''''\<rparr>"

record Annotation =
  annotations :: "Annot list"
  continuous :: "(string \<times> Continuous) list"
  finalized :: bool

record CheckerBegin =
  ck_ts :: int
  ck_details :: string

record FrameworkInfo =
  nservers :: nat
  connected :: "bool list"
  crashed :: "bool list"
  ckbegin :: CheckerBegin

text \<open>The package variables; \<open>finfo\<close> is nil until the first test begins.\<close>

record globals =
  annotation :: Annotation
  finfo :: "FrameworkInfo option"

definition COLOR_INFO :: string where "COLOR_INFO = ''#FAFAFA''"
definition COLOR_NEUTRAL :: string where "COLOR_NEUTRAL = ''#FFECB3''"
definition COLOR_SUCCESS :: string where "COLOR_SUCCESS = ''#C8E6C9''"
definition COLOR_FAILURE :: string where "COLOR_FAILURE = ''#FFCDD2''"
definition COLOR_FAULT :: string where "COLOR_FAULT = ''#B3E5FC''"
definition COLOR_USER :: string where "COLOR_USER = ''#FFF176''"
definition TAG_CHECKER :: string where "TAG_CHECKER = ''$ Checker''"
definition TAG_PARTITION :: string where "TAG_PARTITION = ''$ Failure''"
definition TAG_INFO :: string where "TAG_INFO = ''$ Test Info''"


definition mkFrameworkInfo :: "nat \<Rightarrow> FrameworkInfo" where
  "mkFrameworkInfo n = \<lparr>nservers = n, connected = replicate n True, crashed = replicate n False,
                        ckbegin = \<lparr>ck_ts = 0, ck_details = ''''\<rparr>\<rparr>"


section \<open>Operations on the annotations\<close>

definition cont_annot :: "string \<Rightarrow> int \<Rightarrow> Continuous \<Rightarrow> Annot" where
  "cont_annot tag t cont = \<lparr>a_Tag = tag, a_Start = c_start cont, a_End = t, a_Description = c_desp cont,
                            a_Details = c_details cont, a_BackgroundColor = c_bgcolor cont\<rparr>"

definition finalize :: "int \<Rightarrow> Annotation \<Rightarrow> Annotation \<times> Annot list" where
  "finalize t an = (an\<lparr>finalized := True\<rparr>,
     annotations an @ map (\<lambda>(tag, cont). cont_annot tag t cont) (continuous an))"

definition clear :: "Annotation \<Rightarrow> Annotation" where
  "clear an = an\<lparr>annotations := [], continuous := [], finalized := False\<rparr>"

definition annotatePointColor :: "int \<Rightarrow> string \<Rightarrow> string \<Rightarrow> string \<Rightarrow> string \<Rightarrow> Annotation \<Rightarrow> Annotation" where
  "annotatePointColor t tag desp details bgcolor an =
     an\<lparr>annotations := annotations an @ [\<lparr>a_Tag = tag, a_Start = t, a_End = 0, a_Description = desp,
                                         a_Details = details, a_BackgroundColor = bgcolor\<rparr>]\<rparr>"

definition annotateIntervalColor :: "int \<Rightarrow> string \<Rightarrow> int \<Rightarrow> string \<Rightarrow> string \<Rightarrow> string \<Rightarrow> Annotation \<Rightarrow> Annotation" where
  "annotateIntervalColor t tag start desp details bgcolor an =
     an\<lparr>annotations := annotations an @ [\<lparr>a_Tag = tag, a_Start = start, a_End = t, a_Description = desp,
                                         a_Details = details, a_BackgroundColor = bgcolor\<rparr>]\<rparr>"

definition annotateContinuousColor :: "int \<Rightarrow> string \<Rightarrow> string \<Rightarrow> string \<Rightarrow> string \<Rightarrow> Annotation \<Rightarrow> Annotation" where
  "annotateContinuousColor t tag desp details bgcolor an =
     (let new = \<lparr>c_start = t, c_desp = desp, c_details = details, c_bgcolor = bgcolor\<rparr>
      in case map_of (continuous an) tag of
           None \<Rightarrow> an\<lparr>continuous := assoc_put tag new (continuous an)\<rparr>
         | Some cont \<Rightarrow> an\<lparr>annotations := annotations an @ [cont_annot tag t cont],
                          continuous := assoc_put tag new (continuous an)\<rparr>)"

text \<open>
  The branch of the code for a tag without continuous annotation is empty, so the zero value that
  reading the map returned is recorded as if it had been one.
\<close>

definition annotateContinuousEnd :: "int \<Rightarrow> string \<Rightarrow> Annotation \<Rightarrow> Annotation" where
  "annotateContinuousEnd t tag an =
     (let cont = (case map_of (continuous an) tag of None \<Rightarrow> Continuous0 | Some c \<Rightarrow> c)
      in an\<lparr>annotations := annotations an @ [cont_annot tag t cont],
            continuous := assoc_del tag (continuous an)\<rparr>)"

definition isFinalized :: "Annotation \<Rightarrow> bool" where
  "isFinalized an = finalized an"

text \<open>
  The state after \<open>cleanup\<close> and the annotations it writes to the visualization file, if any; \<open>vis\<close> is the
  value of \<open>VIS_ENABLE\<close> and \<open>opens\<close> tells whether the file can be opened.
\<close>

definition cleanup :: "int \<Rightarrow> string \<Rightarrow> bool \<Rightarrow> bool \<Rightarrow> string \<Rightarrow> Annotation \<Rightarrow> Annotation \<times> Annot list option" where
  "cleanup t vis opens failed end' an =
     (if vis = ''never'' \<or> (\<not> failed \<and> vis \<noteq> ''always'') \<or> isFinalized an then (clear an, None)
      else let (an, as) = finalize t an
           in if as = [] then (an, None)
              else let as = as @ [\<lparr>a_Tag = TAG_INFO, a_Start = t, a_End = 0, a_Description = end',
                                  a_Details = end', a_BackgroundColor = COLOR_INFO\<rparr>]
                   in if \<not> opens then (an, None) else (an, Some as))"

section \<open>The public interface\<close>

definition on_annotation :: "(Annotation \<Rightarrow> Annotation) \<Rightarrow> globals \<Rightarrow> globals" where
  "on_annotation f g = g\<lparr>annotation := f (annotation g)\<rparr>"

definition FinalizeAnnotations :: "int \<Rightarrow> string \<Rightarrow> globals \<Rightarrow> globals \<times> Annot list" where
  "FinalizeAnnotations t end' g =
     (let (an, as) = finalize t (annotation g)
      in (g\<lparr>annotation := an\<rparr>, as @ [\<lparr>a_Tag = TAG_INFO, a_Start = t, a_End = 0, a_Description = end',
                                     a_Details = end', a_BackgroundColor = COLOR_INFO\<rparr>]))"

definition AnnotatePointColor :: "int \<Rightarrow> string \<Rightarrow> string \<Rightarrow> string \<Rightarrow> string \<Rightarrow> globals \<Rightarrow> globals" where
  "AnnotatePointColor t tag desp details bgcolor = on_annotation (annotatePointColor t tag desp details bgcolor)"

definition AnnotateIntervalColor :: "int \<Rightarrow> string \<Rightarrow> int \<Rightarrow> string \<Rightarrow> string \<Rightarrow> string \<Rightarrow> globals \<Rightarrow> globals" where
  "AnnotateIntervalColor t tag start desp details bgcolor =
     on_annotation (annotateIntervalColor t tag start desp details bgcolor)"

definition AnnotateContinuousColor :: "int \<Rightarrow> string \<Rightarrow> string \<Rightarrow> string \<Rightarrow> string \<Rightarrow> globals \<Rightarrow> globals" where
  "AnnotateContinuousColor t tag desp details bgcolor = on_annotation (annotateContinuousColor t tag desp details bgcolor)"

definition AnnotateContinuousEnd :: "int \<Rightarrow> string \<Rightarrow> globals \<Rightarrow> globals" where
  "AnnotateContinuousEnd t tag = on_annotation (annotateContinuousEnd t tag)"

definition Annotate :: "int \<Rightarrow> string \<Rightarrow> string \<Rightarrow> string \<Rightarrow> globals \<Rightarrow> globals" where
  "Annotate t tag desp details = on_annotation (annotatePointColor t tag desp details COLOR_USER)"

definition AnnotateInterval :: "int \<Rightarrow> string \<Rightarrow> int \<Rightarrow> string \<Rightarrow> string \<Rightarrow> globals \<Rightarrow> globals" where
  "AnnotateInterval t tag start desp details = on_annotation (annotateIntervalColor t tag start desp details COLOR_USER)"

definition AnnotateContinuous :: "int \<Rightarrow> string \<Rightarrow> string \<Rightarrow> string \<Rightarrow> globals \<Rightarrow> globals" where
  "AnnotateContinuous t tag desp details = on_annotation (annotateContinuousColor t tag desp details COLOR_USER)"

definition AnnotateInfo :: "int \<Rightarrow> string \<Rightarrow> string \<Rightarrow> globals \<Rightarrow> globals" where
  "AnnotateInfo t desp details = AnnotatePointColor t TAG_INFO desp details COLOR_INFO"

definition AnnotateInfoInterval :: "int \<Rightarrow> int \<Rightarrow> string \<Rightarrow> string \<Rightarrow> globals \<Rightarrow> globals" where
  "AnnotateInfoInterval t start desp details = AnnotateIntervalColor t TAG_INFO start desp details COLOR_INFO"

definition AnnotateTest :: "int \<Rightarrow> string \<Rightarrow> nat \<Rightarrow> globals \<Rightarrow> globals" where
  "AnnotateTest t desp n g =
     (let details = desp @ '' ('' @ itoa (int n) @ '' servers)'';
          g = g\<lparr>finfo := Some (mkFrameworkInfo n), annotation := clear (annotation g)\<rparr>
      in AnnotateInfo t details details g)"

text \<open>Operations on \<open>finfo\<close> panic while it is nil.\<close>

definition AnnotateCheckerBegin :: "int \<Rightarrow> string \<Rightarrow> globals \<Rightarrow> globals go" where
  "AnnotateCheckerBegin t details g = (case finfo g of
      None \<Rightarrow> Inl NilPanic
    | Some fi \<Rightarrow> Inr (g\<lparr>finfo := Some (fi\<lparr>ckbegin := \<lparr>ck_ts = t, ck_details = details\<rparr>\<rparr>)\<rparr>))"

text \<open>The code resets the time stamp of a copy of \<open>ckbegin\<close>, which has no effect.\<close>

definition AnnotateCheckerEnd :: "int \<Rightarrow> string \<Rightarrow> string \<Rightarrow> string \<Rightarrow> globals \<Rightarrow> globals go" where
  "AnnotateCheckerEnd t desp details color g = (case finfo g of
      None \<Rightarrow> Inl NilPanic
    | Some fi \<Rightarrow>
        let ck = ckbegin fi
        in if ck_ts ck = 0 then Inr (AnnotatePointColor t TAG_CHECKER desp details color g)
           else let d = ck_details ck @ '': '' @ details
                in Inr (AnnotateIntervalColor t TAG_CHECKER (ck_ts ck) desp d color g))"

definition AnnotateCheckerSuccess :: "int \<Rightarrow> string \<Rightarrow> string \<Rightarrow> globals \<Rightarrow> globals go" where
  "AnnotateCheckerSuccess t desp details = AnnotateCheckerEnd t desp details COLOR_SUCCESS"

definition AnnotateCheckerFailure :: "int \<Rightarrow> string \<Rightarrow> string \<Rightarrow> globals \<Rightarrow> globals go" where
  "AnnotateCheckerFailure t desp details = AnnotateCheckerEnd t desp details COLOR_FAILURE"

definition AnnotateCheckerNeutral :: "int \<Rightarrow> string \<Rightarrow> string \<Rightarrow> globals \<Rightarrow> globals go" where
  "AnnotateCheckerNeutral t desp details = AnnotateCheckerEnd t desp details COLOR_NEUTRAL"

definition SetAnnotationFinalized :: "globals \<Rightarrow> globals" where
  "SetAnnotationFinalized = on_annotation (\<lambda>an. an\<lparr>finalized := True\<rparr>)"

definition GetAnnotationFinalized :: "globals \<Rightarrow> bool" where
  "GetAnnotationFinalized g = isFinalized (annotation g)"

definition AnnotateCheckerFailureBeforeExit ::
  "int \<Rightarrow> string \<Rightarrow> bool \<Rightarrow> string \<Rightarrow> string \<Rightarrow> globals \<Rightarrow> (globals \<times> Annot list option) go" where
  "AnnotateCheckerFailureBeforeExit t vis opens desp details g =
     (case AnnotateCheckerFailure t desp details g of
        Inl p \<Rightarrow> Inl p
      | Inr g \<Rightarrow> let (an, out) = cleanup t vis opens True ''test failed'' (annotation g)
                 in Inr (g\<lparr>annotation := an\<rparr>, out))"

text \<open>What an interrupt does before the process exits: the annotations are written as for a failed test.\<close>

definition on_interrupt :: "int \<Rightarrow> string \<Rightarrow> bool \<Rightarrow> globals \<Rightarrow> globals \<times> Annot list option" where
  "on_interrupt t vis opens g =
     (let (an, out) = cleanup t vis opens True ''interrupted'' (annotation g) in (g\<lparr>annotation := an\<rparr>, out))"

section \<open>Faults\<close>

text \<open>\<open>%v\<close> of a slice of ints.\<close>

definition fmt_ints :: "nat list \<Rightarrow> string" where
  "fmt_ints is = ''['' @ strings_join '' '' (map (\<lambda>i. itoa (int i)) is) @ '']''"





definition AnnotateTwoPartitions :: "int \<Rightarrow> nat list \<Rightarrow> nat list \<Rightarrow> globals \<Rightarrow> globals" where
  "AnnotateTwoPartitions t p1 p2 =
     (let text = ''partition = '' @ fmt_ints p1 @ '' '' @ fmt_ints p2
      in AnnotateContinuousColor t TAG_PARTITION text text COLOR_FAULT)"

definition AnnotateClearFailure :: "int \<Rightarrow> globals \<Rightarrow> globals go" where
  "AnnotateClearFailure t g = (case finfo g of
      None \<Rightarrow> Inl NilPanic
    | Some fi \<Rightarrow> Inr (AnnotateContinuousEnd t TAG_PARTITION
        (g\<lparr>finfo := Some (fi\<lparr>crashed := map (\<lambda>_. False) (crashed fi), connected := map (\<lambda>_. True) (connected fi)\<rparr>)\<rparr>)))"







section \<open>Tracking faults\<close>



















section \<open>Properties\<close>



text \<open>
  Ending what has not begun shows something that did not happen. Clearing the failures of a
  test without failures appends an annotation with no text that starts at time zero, although the
  code says there is nothing to end.
\<close>

theorem clear_without_failure_annotates:
  "\<exists>g. AnnotateClearFailure t (AnnotateTest t0 desp n g0) = Inr g \<and>
     last (annotations (annotation g)) = \<lparr>a_Tag = TAG_PARTITION, a_Start = 0, a_End = t, a_Description = '''',
                                         a_Details = '''', a_BackgroundColor = ''''\<rparr>"
  by (simp add: AnnotateClearFailure_def AnnotateTest_def AnnotateInfo_def AnnotatePointColor_def
      on_annotation_def annotatePointColor_def clear_def AnnotateContinuousEnd_def annotateContinuousEnd_def
      Let_def cont_annot_def Continuous0_def mkFrameworkInfo_def)

text \<open>A checker's begin is never forgotten: every later end is shown as an interval from the same begin.\<close>

lemma checker_begin_kept:
  "AnnotateCheckerEnd t desp details color g = Inr g' \<Longrightarrow> finfo g' = finfo g"
  by (auto simp: AnnotateCheckerEnd_def AnnotatePointColor_def AnnotateIntervalColor_def on_annotation_def
      Let_def split: option.splits if_splits)

end
