(* ===== verification/Tester_Config.thy ===== *)
theory Tester_Config
  imports Tester_Links Tester_Clnts Annotation
begin

text \<open>
  \<open>tester1/config.go\<close> and the map of groups of \<open>tester1/group.go\<close>: the environment of a test, which owns
  the network, the groups of servers and the clients, and the random names that ends are given. The time,
  the random bytes and the state of Go's test object (whether it has failed) are arguments or fields.
  What \<open>End\<close> prints is its result.
\<close>

section \<open>Random names\<close>

text \<open>\<open>base64.URLEncoding\<close>, with padding, and the name it is used for: a prefix of the encoding of random bytes.\<close>

definition b64_alphabet :: string where
  "b64_alphabet = ''ABCDEFGHIJKLMNOPQRSTUVWXYZabcdefghijklmnopqrstuvwxyz0123456789-_''"

definition b64_char :: "nat \<Rightarrow> char" where
  "b64_char d = b64_alphabet ! d"

fun base64url :: "uint8 list \<Rightarrow> string" where
  "base64url [] = []"
| "base64url [a] = [b64_char (unat a div 4), b64_char (unat a mod 4 * 16), CHR ''='', CHR ''='']"
| "base64url [a, b] = [b64_char (unat a div 4), b64_char (unat a mod 4 * 16 + unat b div 16),
     b64_char (unat b mod 16 * 4), CHR ''='']"
| "base64url (a # b # c # bs) = [b64_char (unat a div 4), b64_char (unat a mod 4 * 16 + unat b div 16),
     b64_char (unat b mod 16 * 4 + unat c div 64), b64_char (unat c mod 64)] @ base64url bs"

definition Randstring :: "nat \<Rightarrow> uint8 list \<Rightarrow> string" where
  "Randstring n bs = take n (base64url bs)"

text \<open>\<open>crand.Int\<close> returns a number below its bound; \<open>x\<close> is that number.\<close>

definition makeSeed :: "nat \<Rightarrow> int" where
  "makeSeed x = int (x mod 2 ^ 62)"

text \<open>The shuffle: \<open>rs\<close> are the results of \<open>rand.Intn\<close>, the \<open>i\<close>-th one at most \<open>i\<close>.\<close>

definition random_handles :: "(nat \<Rightarrow> nat) \<Rightarrow> 'e list \<Rightarrow> 'e list" where
  "random_handles rs kvh = fold (\<lambda>i sa. let j = rs i in sa[i := sa ! j, j := sa ! i]) [0..<length kvh] kvh"

section \<open>Groups\<close>

text \<open>The map of groups, in traversal order.\<close>

type_synonym 'svc groups = "(int \<times> 'svc ServerGrp) list"

definition newGroups :: "'svc groups" where
  "newGroups = []"

definition MakeGroup :: "(nat \<Rightarrow> string) \<Rightarrow> int \<Rightarrow> nat \<Rightarrow> 'svc groups \<times> 'svc shared \<Rightarrow> ('svc groups \<times> 'svc shared) go" where
  "MakeGroup rnd gid nsrv st = (case st of (gs, ts) \<Rightarrow>
     (case makeSrvGrp rnd gid nsrv ts of Inl p \<Rightarrow> Inl p | Inr (sg, ts) \<Rightarrow> Inr (assoc_put gid sg gs, ts)))"

definition lookupGroup :: "int \<Rightarrow> 'svc groups \<Rightarrow> 'svc ServerGrp option" where
  "lookupGroup gid gs = map_of gs gid"

definition Groups_delete :: "int \<Rightarrow> 'svc groups \<Rightarrow> 'svc groups" where
  "Groups_delete gid gs = assoc_del gid gs"

definition Groups_cleanup :: "('svc \<Rightarrow> pop list) \<Rightarrow> 'svc groups \<times> 'svc shared \<Rightarrow> 'svc shared" where
  "Groups_cleanup kill st = fold (\<lambda>(gid, sg) ts. sg_cleanup kill (sg, ts)) (fst st) (snd st)"

section \<open>The configuration\<close>

definition GRP0 :: int where
  "GRP0 = 0"

record 'svc Config =
  cfg_clnts :: Clnts
  cfg_groups :: "'svc groups"
  cfg_shared :: "'svc shared"
  cfg_failed :: bool
  cfg_start :: int
  cfg_t0 :: int
  cfg_rpcs0 :: int
  cfg_ops :: int32

definition on_net :: "(Network \<Rightarrow> Network) \<Rightarrow> 'svc Config \<Rightarrow> 'svc Config" where
  "on_net f cfg = cfg\<lparr>cfg_shared := (cfg_shared cfg)\<lparr>t_net := f (t_net (cfg_shared cfg))\<rparr>\<rparr>"

definition Group :: "int \<Rightarrow> 'svc Config \<Rightarrow> 'svc ServerGrp option" where
  "Group gid cfg = lookupGroup gid (cfg_groups cfg)"

text \<open>Runs an operation of a group; a missing group is a nil pointer.\<close>

definition with_group :: "int \<Rightarrow> ('svc grp_state \<Rightarrow> 'svc grp_state go) \<Rightarrow> 'svc Config \<Rightarrow> 'svc Config go" where
  "with_group gid f cfg = (case Group gid cfg of
      None \<Rightarrow> Inl NilPanic
    | Some sg \<Rightarrow> (case f (sg, cfg_shared cfg) of
        Inl p \<Rightarrow> Inl p
      | Inr (sg, ts) \<Rightarrow> Inr (cfg\<lparr>cfg_groups := assoc_put gid sg (cfg_groups cfg), cfg_shared := ts\<rparr>)))"

definition MakeGroupStart :: "(nat \<Rightarrow> string) \<Rightarrow> 'svc FstartServer \<Rightarrow> int \<Rightarrow> nat \<Rightarrow> 'svc Config \<Rightarrow> 'svc Config go" where
  "MakeGroupStart rnd mks gid nsrv cfg = (case MakeGroup rnd gid nsrv (cfg_groups cfg, cfg_shared cfg) of
      Inl p \<Rightarrow> Inl p
    | Inr (gs, ts) \<Rightarrow> with_group gid (StartServers rnd mks) (cfg\<lparr>cfg_groups := gs, cfg_shared := ts\<rparr>))"

definition ExitGroup :: "('svc \<Rightarrow> pop list) \<Rightarrow> int \<Rightarrow> 'svc Config \<Rightarrow> 'svc Config go" where
  "ExitGroup kill gid cfg = (case with_group gid (Shutdown kill) cfg of
      Inl p \<Rightarrow> Inl p
    | Inr cfg \<Rightarrow> Inr (cfg\<lparr>cfg_groups := Groups_delete gid (cfg_groups cfg)\<rparr>))"

definition SetReliable :: "bool \<Rightarrow> 'svc Config \<Rightarrow> 'svc Config" where
  "SetReliable yes = on_net (Reliable yes)"

definition cfg_IsReliable :: "'svc Config \<Rightarrow> bool" where
  "cfg_IsReliable cfg = IsReliable (t_net (cfg_shared cfg))"

definition SetLongReordering :: "bool \<Rightarrow> 'svc Config \<Rightarrow> 'svc Config" where
  "SetLongReordering yes = on_net (LongReordering yes)"

definition SetLongDelays :: "bool \<Rightarrow> 'svc Config \<Rightarrow> 'svc Config" where
  "SetLongDelays yes = on_net (LongDelays yes)"

text \<open>The zero value of the struct with a new network and no clients yet; \<open>makeClnts\<close> replaces the nil clients.\<close>

definition MakeConfig :: "(nat \<Rightarrow> string) \<Rightarrow> 'svc FstartServer \<Rightarrow> nat \<Rightarrow> bool \<Rightarrow> int \<Rightarrow> 'svc Config go" where
  "MakeConfig rnd mks n rel now =
     (let cfg = \<lparr>cfg_clnts = \<lparr>cl_objs = [], clerks = None\<rparr>, cfg_groups = newGroups,
                cfg_shared = \<lparr>t_net = MakeNetwork, t_draw = 0, t_world = world0, t_labsrvs = [], t_killed = []\<rparr>,
                cfg_failed = False, cfg_start = 0, cfg_t0 = 0, cfg_rpcs0 = 0, cfg_ops = 0\<rparr>
      in case MakeGroupStart rnd mks GRP0 n cfg of
           Inl p \<Rightarrow> Inl p
         | Inr cfg \<Rightarrow> Inr (SetReliable rel (cfg\<lparr>cfg_clnts := makeClnts, cfg_start := now\<rparr>)))"

text \<open>The limit of two minutes; times in milliseconds. \<open>t.Fatal\<close> ends the test.\<close>

definition cfg_CheckTimeout :: "int \<Rightarrow> 'svc Config \<Rightarrow> unit go" where
  "cfg_CheckTimeout now cfg = (if \<not> cfg_failed cfg \<and> now - cfg_start cfg > 120000 then Inl TestFatal else Inr ())"

text \<open>Cleaning up also writes the annotations; the time \<open>t\<close>, \<open>vis\<close> and \<open>opens\<close> are as in \<open>cleanup\<close>.\<close>

definition cfg_Cleanup :: "('svc \<Rightarrow> pop list) \<Rightarrow> int \<Rightarrow> int \<Rightarrow> string \<Rightarrow> bool \<Rightarrow> 'svc Config \<times> Annotation \<Rightarrow>
    ('svc Config \<times> Annotation \<times> Annot list option) go" where
  "cfg_Cleanup kill now t vis opens st = (case st of (cfg, an) \<Rightarrow>
     (case Clnts_cleanup (cfg_clnts cfg, cfg_shared cfg) of
        Inl p \<Rightarrow> Inl p
      | Inr (clnts, ts) \<Rightarrow>
          let ts = Groups_cleanup kill (cfg_groups cfg, ts);
              cfg = on_net Cleanup (cfg\<lparr>cfg_clnts := clnts, cfg_shared := ts\<rparr>);
              (an, out) = cleanup t vis opens (cfg_failed cfg) (if cfg_failed cfg then ''test failed'' else ''test passed'') an
          in case cfg_CheckTimeout now cfg of Inl p \<Rightarrow> Inl p | Inr _ \<Rightarrow> Inr (cfg, an, out)))"

definition RpcTotal :: "'svc Config \<Rightarrow> int" where
  "RpcTotal cfg = GetTotalCount (t_net (cfg_shared cfg))"

definition BytesTotal :: "'svc Config \<Rightarrow> int" where
  "BytesTotal cfg = GetTotalBytes (t_net (cfg_shared cfg))"

definition Begin :: "int \<Rightarrow> 'svc Config \<Rightarrow> 'svc Config" where
  "Begin now cfg = cfg\<lparr>cfg_t0 := now, cfg_rpcs0 := RpcTotal cfg, cfg_ops := 0\<rparr>"

definition Op :: "'svc Config \<Rightarrow> 'svc Config" where
  "Op cfg = cfg\<lparr>cfg_ops := cfg_ops cfg + 1\<rparr>"

text \<open>The printed time, number of peers, RPCs and operations, unless the test has failed.\<close>

definition End :: "int \<Rightarrow> 'svc Config \<Rightarrow> (int \<times> nat \<times> int \<times> int) option go" where
  "End now cfg = (case cfg_CheckTimeout now cfg of
      Inl p \<Rightarrow> Inl p
    | Inr _ \<Rightarrow>
        if cfg_failed cfg then Inr None
        else (case Group GRP0 cfg of
                None \<Rightarrow> Inl NilPanic
              | Some sg \<Rightarrow> Inr (Some (now - cfg_t0 cfg, sg_N sg, RpcTotal cfg - cfg_rpcs0 cfg, sint (cfg_ops cfg)))))"

section \<open>Facts\<close>

lemma b64_length: "length b64_alphabet = 64"
  by (simp add: b64_alphabet_def)

lemma b64_distinct: "distinct b64_alphabet"
  by (simp add: b64_alphabet_def)

lemma b64_char_inject: "d < 64 \<Longrightarrow> d' < 64 \<Longrightarrow> b64_char d = b64_char d' \<longleftrightarrow> d = d'"
  using nth_eq_iff_index_eq [OF b64_distinct] by (simp add: b64_char_def b64_length)

lemma b64_char_mem: "d < 64 \<Longrightarrow> b64_char d \<in> set b64_alphabet"
  using nth_mem [of d b64_alphabet] by (simp add: b64_char_def b64_length)

text \<open>The four characters of a block determine its three bytes.\<close>

lemma sextets:
  fixes a b c :: nat
  assumes "a < 256" "b < 256" "c < 256"
  shows "a div 4 < 64" "a mod 4 * 16 + b div 16 < 64" "b mod 16 * 4 + c div 64 < 64" "c mod 64 < 64"
proof -
  have "a div 4 < 64" "b div 16 < 16" "c div 64 < 4" "a mod 4 < 4" "b mod 16 < 16" "c mod 64 < 64"
    using assms by (simp_all add: less_mult_imp_div_less)
  then show "a div 4 < 64" "a mod 4 * 16 + b div 16 < 64" "b mod 16 * 4 + c div 64 < 64" "c mod 64 < 64" by linarith+
qed

lemma sextets_inject:
  fixes a b c a' b' c' :: nat
  assumes "b < 256" "c < 256" "b' < 256" "c' < 256"
    and "a div 4 = a' div 4" "a mod 4 * 16 + b div 16 = a' mod 4 * 16 + b' div 16"
    "b mod 16 * 4 + c div 64 = b' mod 16 * 4 + c' div 64" "c mod 64 = c' mod 64"
  shows "a = a' \<and> b = b' \<and> c = c'"
proof -
  have split: "x = x' \<and> y = y'" if "x * k + y = x' * k + y'" "y < k" "y' < k" for x y x' y' k :: nat
    using that by (metis add.commute mod_mult_self1 mod_less mult.commute add_right_cancel mult_cancel1 less_nat_zero_code)
  have "b div 16 < 16" "b' div 16 < 16" "c div 64 < 4" "c' div 64 < 4"
    using assms(1-4) by (simp_all add: less_mult_imp_div_less)
  note lt = this
  have "a mod 4 = a' mod 4" "b div 16 = b' div 16"
    using lt split [of "a mod 4" 16 "b div 16" "a' mod 4" "b' div 16"] assms by auto
  moreover have "b mod 16 = b' mod 16" "c div 64 = c' div 64"
    using lt split [of "b mod 16" 4 "c div 64" "b' mod 16" "c' div 64"] assms by auto
  ultimately show ?thesis using assms(5,8) by (metis div_mult_mod_eq)
qed

lemma unat_byte: "unat (a :: uint8) < 256"
  using unsigned_less [of a] by simp

lemma base64url_blocks:
  assumes "length bs = 3 * k"
  shows "length (base64url bs) = 4 * k" "set (base64url bs) \<subseteq> set b64_alphabet"
    "length cs = 3 * k \<Longrightarrow> base64url bs = base64url cs \<longleftrightarrow> bs = cs"
  using assms
proof (induction k arbitrary: bs cs)
  case (Suc k)
  {
    case 1
    then obtain a b c bs' where bs: "bs = a # b # c # bs'" "length bs' = 3 * k" by (auto simp: length_Suc_conv numeral_3_eq_3)
    then show ?case using Suc.IH(1) [of bs'] by simp
  next
    case 2
    then obtain a b c bs' where bs: "bs = a # b # c # bs'" "length bs' = 3 * k" by (auto simp: length_Suc_conv numeral_3_eq_3)
    then show ?case using Suc.IH(2) [of bs'] sextets [OF unat_byte [of a] unat_byte [of b] unat_byte [of c]] by (simp add: b64_char_mem)
  next
    case 3
    then obtain a b c bs' where bs: "bs = a # b # c # bs'" "length bs' = 3 * k" by (auto simp: length_Suc_conv numeral_3_eq_3)
    from 3 obtain a' b' c' cs' where cs: "cs = a' # b' # c' # cs'" "length cs' = 3 * k" by (auto simp: length_Suc_conv numeral_3_eq_3)
    have "a = a' \<and> b = b' \<and> c = c'" if "base64url bs = base64url cs"
      using that sextets [OF unat_byte [of a] unat_byte [of b] unat_byte [of c]] sextets [OF unat_byte [of a'] unat_byte [of b'] unat_byte [of c']]
        sextets_inject [OF unat_byte [of b] unat_byte [of c] unat_byte [of b'] unat_byte [of c'], of "unat a" "unat a'"]
      unfolding bs cs by (simp add: b64_char_inject) (simp add: word_unat_eq_iff)
    then show ?case using Suc.IH(3) [of cs' bs'] bs cs by auto
  }
qed simp_all

lemma base64url_take: "3 * k \<le> length bs \<Longrightarrow> take (4 * k) (base64url bs) = base64url (take (3 * k) bs)"
proof (induction k arbitrary: bs)
  case (Suc k)
  then obtain a b c bs' where bs: "bs = a # b # c # bs'" "3 * k \<le> length bs'"
    by (auto simp: numeral_3_eq_3 Suc_le_length_iff)
  have e: "4 * Suc k = Suc (Suc (Suc (Suc (4 * k))))" "3 * Suc k = Suc (Suc (Suc (3 * k)))" by simp_all
  show ?case unfolding bs(1) e using Suc.IH [OF bs(2)] by simp
qed simp

section \<open>Properties\<close>

text \<open>
  Random names. The 20-character names of ends, made from 40 random bytes, have exactly 20 characters of the
  URL alphabet, and two of them are equal exactly if the first 15 of the random bytes are: names repeat only
  when 120 random bits do.
\<close>

theorem Randstring_names:
  assumes "length bs = 40" "length cs = 40"
  shows "length (Randstring 20 bs) = 20 \<and> set (Randstring 20 bs) \<subseteq> set b64_alphabet \<and>
    (Randstring 20 bs = Randstring 20 cs \<longleftrightarrow> take 15 bs = take 15 cs)"
proof -
  have "Randstring 20 xs = base64url (take 15 xs)" if "length xs = 40" for xs
    using base64url_take [of 5 xs] that by (simp add: Randstring_def)
  moreover have "length (take 15 bs) = 3 * 5" "length (take 15 cs) = 3 * 5" using assms by simp_all
  note base64url_blocks [OF this(1)] this
  ultimately show ?thesis using assms by simp
qed

theorem Randstring_names_witness:
  "length (Randstring 20 (replicate 40 255)) = 20 \<and> Randstring 20 (replicate 40 255) \<noteq> Randstring 20 (replicate 40 0)"
proof -
  have "length (replicate 40 (255 :: uint8)) = 40" "length (replicate 40 (0 :: uint8)) = 40" by simp_all
  moreover have "take 15 (replicate 40 (255 :: uint8)) \<noteq> take 15 (replicate 40 0)" by simp
  ultimately show ?thesis using Randstring_names by blast
qed

lemma start_ops: "sg_start rnd mks st = go_fold (grp_op rnd mks kill) (map LStart (sg_all (fst st))) st"
proof -
  have "go_fold (StartServer rnd mks) is st = go_fold (grp_op rnd mks kill) (map LStart is) st" for "is"
    by (induction "is" arbitrary: st) (auto split: sum.split)
  then show ?thesis by (simp add: sg_start_def)
qed

lemma connect_all_ops:
  assumes "grp_inv rnd n st"
  shows "ConnectAll st = go_fold (grp_op rnd mks kill) (map (\<lambda>i. LConnect i [0..<n]) [0..<n]) st"
proof -
  have "go_fold ConnectOne is st = go_fold (grp_op rnd mks kill) (map (\<lambda>i. LConnect i [0..<n]) is) st"
    if "set is \<subseteq> {..<n}" "grp_inv rnd n st" for "is" and st :: "'a grp_state"
    using that
  proof (induction "is" arbitrary: st)
    case (Cons i rest)
    have all: "sg_all (fst st) = [0..<n]" using grp_inv_lengths [of rnd n "fst st" "snd st"] Cons.prems(2) by (simp add: sg_all_def)
    obtain st' where st': "connect i [0..<n] st = Inr st'" "grp_inv rnd n st'"
      using connect_ok [of rnd n "fst st" "snd st" i "[0..<n]"] Cons.prems by (auto simp: lessThan_atLeast0)
    then show ?case using Cons.IH [OF _ st'(2)] Cons.prems(1) by (simp add: ConnectOne_def all)
  qed simp
  from this [OF _ assms, of "[0..<n]"] grp_inv_lengths [of rnd n "fst st" "snd st"] assms show ?thesis
    by (simp add: ConnectAll_def sg_all_def lessThan_atLeast0)
qed

lemma all_started: "\<forall>i\<in>set is. l_up (fold (link_op n) (map LStart is) s) i"
  by (induction "is" rule: rev_induct) auto

lemma all_joined:
  shows "\<forall>i<n. \<forall>j<n. l_link (fold (link_op n) (map (\<lambda>i. LConnect i [0..<n]) [0..<n]) s) i j"
    and "l_up (fold (link_op n) (map (\<lambda>i. LConnect i [0..<n]) [0..<n]) s) = l_up s"
proof -
  have eq: "fold (link_op n) (map (\<lambda>i. LConnect i q) xs) s = fold (link_op n) (half_ops q [] xs) s" for xs q
  proof (induction xs arbitrary: s)
    case (Cons x xs)
    have "link_op n (LConnect x q) s = link_op n (LConnect x q) (link_op n (LDisconnect x []) s)"
      by (auto simp: fun_eq_iff intro!: links.equality)
    then show ?case using Cons by simp
  qed simp
  have "joined {..<n} {} (fold (link_op n) (half_ops [0..<n] [] [0..<n]) s)"
    using half_loop [of "[0..<n]" "[]" "[0..<n]" "{}" s n] by (simp add: joined_def lessThan_atLeast0)
  then show "\<forall>i<n. \<forall>j<n. l_link (fold (link_op n) (map (\<lambda>i. LConnect i [0..<n]) [0..<n]) s) i j"
    unfolding eq by (simp add: joined_def)
  show "l_up (fold (link_op n) (map (\<lambda>i. LConnect i [0..<n]) [0..<n]) s) = l_up s"
    unfolding eq using half_frame [of "[0..<n]" "[0..<n]" s n "[]"] by (simp add: outside_kept_def)
qed

lemma StartServers_ok:
  assumes inv: "grp_inv rnd n st"
  shows "\<exists>st'. StartServers rnd mks st = Inr st' \<and> grp_inv rnd n st' \<and> (\<forall>i<n. reaches n st' i = {..<n})"
proof -
  let ?kill = "\<lambda>_. []"
  have all: "sg_all (fst st) = [0..<n]" using grp_inv_lengths [of rnd n "fst st" "snd st"] inv by (simp add: sg_all_def)
  have ops: "\<forall>x\<in>set (map LStart [0..<n]). op_servers x \<subseteq> {..<n}"
    "\<forall>x\<in>set (map (\<lambda>i. LConnect i [0..<n]) [0..<n]). op_servers x \<subseteq> {..<n}" by auto
  obtain st1 where st1: "sg_start rnd mks st = Inr st1" "grp_inv rnd n st1"
    "grp_links n st1 = fold (link_op n) (map LStart [0..<n]) (grp_links n st)"
    using groups.run_ok [OF inv ops(1), of mks ?kill] unfolding start_ops [of rnd mks st ?kill] all by blast
  obtain st2 where st2: "ConnectAll st1 = Inr st2" "grp_inv rnd n st2"
    "grp_links n st2 = fold (link_op n) (map (\<lambda>i. LConnect i [0..<n]) [0..<n]) (grp_links n st1)"
    using groups.run_ok [OF st1(2) ops(2), of mks ?kill] unfolding connect_all_ops [OF st1(2), of mks ?kill] by blast
  have "reaches n st2 i = {..<n}" if "i < n" for i
    unfolding reaches_links [OF st2(2) that] st2(3) using all_joined [of n "grp_links n st1"] st1(3) all_started [of "[0..<n]"] that
    by auto
  then show ?thesis using st1(1) st2(1,2) by (simp add: StartServers_def)
qed

lemma StartServers_gid:
  assumes "StartServers rnd mks st = Inr st'"
  shows "sg_gid (fst st') = sg_gid (fst st)"
proof -
  obtain st1 where st1: "go_fold (StartServer rnd mks) (sg_all (fst st)) st = Inr st1" "go_fold ConnectOne (sg_all (fst st1)) st1 = Inr st'"
    using assms by (auto simp: StartServers_def sg_start_def ConnectAll_def split: sum.splits)
  have "sg_gid (fst u) = sg_gid (fst t)" if "StartServer rnd mks i t = Inr u" for i t u
    using that by (auto simp: StartServer_def Let_def split: sum.splits prod.splits)
  moreover have "sg_gid (fst u) = sg_gid (fst t)" if "ConnectOne i t = Inr u" for i and t u :: "'a grp_state"
    using that by (auto simp: ConnectOne_def connect_def split: sum.splits prod.splits)
  ultimately show ?thesis
    using go_fold_keeps [OF st1(1), of "\<lambda>st. sg_gid (fst st)"] go_fold_keeps [OF st1(2), of "\<lambda>st. sg_gid (fst st)"] by metis
qed

lemma MakeConfig_ok:
  fixes mks :: "'a FstartServer"
  assumes "inj rnd"
  shows "\<exists>cfg sg. MakeConfig rnd mks n rel now = Inr cfg \<and> Group GRP0 cfg = Some sg \<and> sg_N sg = n \<and> sg_gid sg = GRP0 \<and>
    cfg_IsReliable cfg = rel \<and> (\<forall>i<n. reaches n (sg, cfg_shared cfg) i = {..<n}) \<and>
    (\<forall>j<n. \<exists>e clnt ts sv. Clnt_makeEnd rnd (ServerName (sg_gid sg) j) (makeClntTo None, cfg_shared cfg) = Inr (e, clnt, ts) \<and>
       live e (ServerName (sg_gid sg) j) sv (t_net ts))"
proof -
  let ?ts = "\<lparr>t_net = MakeNetwork, t_draw = 0, t_world = world0, t_labsrvs = [], t_killed = []\<rparr> :: 'a shared"
  have names: "names_inv rnd ?ts" using assms by (simp add: names_inv_def MakeNetwork_def)
  obtain st0 where st0: "makeSrvGrp rnd GRP0 n ?ts = Inr st0" "grp_inv rnd n st0" "sg_gid (fst st0) = GRP0"
    using makeSrvGrp_ok [OF names, of GRP0 n] by blast
  obtain sg ts where st: "StartServers rnd mks st0 = Inr (sg, ts)" "grp_inv rnd n (sg, ts)"
    "\<forall>i<n. reaches n (sg, ts) i = {..<n}"
    using StartServers_ok [OF st0(2), of mks] by (metis surj_pair)
  let ?ts' = "ts\<lparr>t_net := Reliable rel (t_net ts)\<rparr>"
  obtain cfg where cfg: "MakeConfig rnd mks n rel now = Inr cfg" "Group GRP0 cfg = Some sg" "cfg_shared cfg = ?ts'"
    using st0(1) st(1) by (cases st0) (simp add: MakeConfig_def MakeGroupStart_def MakeGroup_def newGroups_def with_group_def
        Group_def lookupGroup_def SetReliable_def on_net_def)
  have live: "live e sn sv (Reliable rel net) \<longleftrightarrow> live e sn sv net" for e sn sv net by (simp add: live_def Reliable_def)
  have reach: "reaches n (sg, ?ts') i = {..<n}" if "i < n" for i using st(3) that by (simp add: reaches_def live)
  have up: "\<exists>sv. servers (t_net ?ts') (ServerName (sg_gid sg) j) = Some (Some sv)" if "j < n" for j
    using reach [OF that] that by (auto simp: reaches_def live_def set_eq_iff)
  have inv: "client_inv rnd (makeClntTo None, ?ts')"
    using st(2) by (simp add: client_inv_def makeClntTo_def grp_inv_def names_inv_def Reliable_def)
  have "\<exists>e clnt ts sv. Clnt_makeEnd rnd (ServerName (sg_gid sg) j) (makeClntTo None, ?ts') = Inr (e, clnt, ts) \<and>
       live e (ServerName (sg_gid sg) j) sv (t_net ts)" if j: "j < n" for j
  proof -
    let ?e = "rnd (t_draw ts)"
    have "?e \<notin> ends (t_net ?ts')" using inv by (auto simp: client_inv_def dest: injD)
    then show ?thesis using up [OF j]
      by (auto simp: Clnt_makeEnd_def makeClntTo_def MakeEnd_def Connect_def Enable_def allowedL_def Let_def live_def Reliable_def)
  qed
  moreover have "sg_N sg = n" using grp_inv_lengths [OF st(2)] by (simp add: sg_N_def)
  moreover have "sg_gid sg = GRP0" using StartServers_gid [OF st(1)] st0(3) by simp
  moreover have "cfg_IsReliable cfg = rel" using cfg(3) by (simp add: cfg_IsReliable_def IsReliable_def Reliable_def)
  ultimately show ?thesis
    using cfg(1,2) reach by (intro exI [of _ cfg] exI [of _ sg] conjI allI impI) (simp_all only: cfg(3))
qed

text \<open>
  C33: the initial state of a test. A configuration of any number of servers is made without failure,
  whatever services are started; every server can then reach every server, itself included; and the end
  that a new client makes for its first call of any of the servers is live, so that its call is
  delivered. Random names do not repeat.
\<close>

theorem MakeConfig_all_connected:
  fixes mks :: "'a FstartServer"
  assumes "inj rnd"
  shows "\<exists>cfg sg. MakeConfig rnd mks n rel now = Inr cfg \<and> Group GRP0 cfg = Some sg \<and> sg_N sg = n \<and>
    cfg_IsReliable cfg = rel \<and> (\<forall>i<n. reaches n (sg, cfg_shared cfg) i = {..<n}) \<and>
    (\<forall>j<n. \<exists>e clnt ts sv. Clnt_makeEnd rnd (ServerName (sg_gid sg) j) (makeClntTo None, cfg_shared cfg) = Inr (e, clnt, ts) \<and>
       live e (ServerName (sg_gid sg) j) sv (t_net ts))"
  using MakeConfig_ok [OF assms, of mks n rel now] by blast

theorem MakeConfig_all_connected_witness:
  "\<exists>(cfg :: nat Config) sg. MakeConfig letters (\<lambda>_ _ i _. ([i], [])) 3 True 0 = Inr cfg \<and> Group GRP0 cfg = Some sg \<and>
     reaches 3 (sg, cfg_shared cfg) 1 = {..<3}"
  using MakeConfig_all_connected [OF letters_inj, of "\<lambda>_ _ i _. ([i], [])" 3 True 0] by force

end
