(* ===== verification/Rsm.thy ===== *)
theory Rsm
  imports Raft_Tester Labgob Tester_Config Kv_Rpc
begin

text \<open>
  \<open>kvraft1/rsm\<close>: the replicated state machine that the services of the later labs are built on (\<open>rsm.go\<close>, of which only
  the construction is written), the counter that its tests replicate (\<open>server.go\<close>), and the helpers of those
  tests (\<open>test.go\<close>). The encoder and decoder of \<open>encoding/gob\<close> are parameters: \<open>enc\<close> gives the bytes it writes for
  a value, \<open>dec\<close> the integer that a variable with a given old value has after bytes were decoded into it, or \<open>None\<close> if they cannot be. A loop over time has the number of its rounds as argument.
\<close>

section \<open>The replicated state machine\<close>

text \<open>Requests and replies of the counter; other values of type \<open>any\<close> are opaque.\<close>

datatype request = Inc | Null | Dec | OtherReq any
datatype reply = IncRep int | NullRep

record RSM =
  rsm_me :: nat
  rsm_rf :: "Raft option"
  rsm_maxraftstate :: int

text \<open>\<open>useRaftStateMachine\<close> is a package variable; the time and the random number are those of \<open>raft.Make\<close>.\<close>

definition MakeRSM :: "bool \<Rightarrow> ClientEnd list \<Rightarrow> nat \<Rightarrow> Persister \<Rightarrow> heap \<Rightarrow> int \<Rightarrow> int \<Rightarrow> int \<Rightarrow> RSM" where
  "MakeRSM useRaftStateMachine cends i ps h now rnd maxraftstate =
     \<lparr>rsm_me = i, rsm_rf = (if \<not> useRaftStateMachine then Some (Raft_Make cends (int i) ps h now rnd) else None),
      rsm_maxraftstate = maxraftstate\<rparr>"

definition RSM_Raft :: "RSM \<Rightarrow> Raft option" where
  "RSM_Raft rsm = rsm_rf rsm"

definition Submit :: "RSM \<Rightarrow> request \<Rightarrow> Err \<times> reply option" where
  "Submit rsm req = (ErrWrongLeader, None)"

section \<open>The counter\<close>

record rsmSrv =
  rsv_me :: nat
  rsv_rsm :: "RSM option"
  counter :: int

text \<open>The types that the servers register and encode, as labgob sees them.\<close>

definition rsm_types :: types where
  "rsm_types = [(''Op'', Struct []), (''Inc'', Struct []), (''IncRep'', Struct [(''N'', ''int'')]), (''Null'', Struct []),
     (''NullRep'', Struct []), (''Dec'', Struct []), (''*int'', Ptr ''int'')]"

definition rsm_values :: "iface list" where
  "rsm_values = [Some (''Op'', VStruct []), Some (''Inc'', VStruct []), Some (''IncRep'', VStruct [(''N'', False, VScalar ''int'' (SInt 0))]),
     Some (''Null'', VStruct []), Some (''NullRep'', VStruct []), Some (''Dec'', VStruct [])]"

text \<open>Registering several values one after the other; \<open>greg\<close> is gob's registry.\<close>

fun register_all :: "types \<Rightarrow> (iface \<Rightarrow> 'g \<Rightarrow> 'g) \<Rightarrow> iface list \<Rightarrow> labgob \<times> 'g \<Rightarrow> (labgob \<times> 'g) go option" where
  "register_all G greg [] st = Some (Inr st)"
| "register_all G greg (v # vs) st = (case Register G greg v st of
      None \<Rightarrow> None
    | Some (Inl p) \<Rightarrow> Some (Inl p)
    | Some (Inr st) \<Rightarrow> register_all G greg vs st)"

definition makeRsmSrv :: "(iface \<Rightarrow> 'g \<Rightarrow> 'g) \<Rightarrow> bool \<Rightarrow> nat \<Rightarrow> ClientEnd list \<Rightarrow> Persister \<Rightarrow> heap \<Rightarrow> int \<Rightarrow> int \<Rightarrow> int \<Rightarrow>
    labgob \<times> 'g \<Rightarrow> ((labgob \<times> 'g) \<times> rsmSrv) go option" where
  "makeRsmSrv greg useRaftStateMachine srv cends ps h now rnd maxraftstate st =
     (case register_all rsm_types greg rsm_values st of
        None \<Rightarrow> None
      | Some (Inl p) \<Rightarrow> Some (Inl p)
      | Some (Inr st) \<Rightarrow>
          let s = \<lparr>rsv_me = srv, rsv_rsm = None, counter = 0\<rparr>
          in Some (Inr (st, s\<lparr>rsv_rsm := Some (MakeRSM useRaftStateMachine cends srv ps h now rnd maxraftstate)\<rparr>)))"

fun DoOp :: "request \<Rightarrow> rsmSrv \<Rightarrow> (rsmSrv \<times> reply) go" where
  "DoOp Inc rs = (let rs = rs\<lparr>counter := counter rs + 1\<rparr> in Inr (rs, IncRep (counter rs)))"
| "DoOp Null rs = Inr (rs, NullRep)"
| "DoOp _ rs = Inl LogFatal"

text \<open>The counter is encoded into an empty buffer, and decoded into the counter.\<close>

definition srv_Snapshot :: "(iface \<Rightarrow> bytes) \<Rightarrow> rsmSrv \<Rightarrow> labgob \<Rightarrow> (labgob \<times> bytes) go option" where
  "srv_Snapshot enc rs lg =
     (case Encode rsm_types (\<lambda>w e. (w @ enc e, ())) (Some (''int'', VScalar ''int'' (SInt (counter rs)))) (lg, []) of
        None \<Rightarrow> None
      | Some (Inl p) \<Rightarrow> Some (Inl p)
      | Some (Inr ((lg, w), _)) \<Rightarrow> Some (Inr (lg, w)))"

definition srv_Restore :: "(bytes \<Rightarrow> int \<Rightarrow> int option) \<Rightarrow> bytes \<Rightarrow> rsmSrv \<Rightarrow> labgob \<Rightarrow> (rsmSrv \<times> labgob) go option" where
  "srv_Restore dec data rs lg =
     (case Decode rsm_types (\<lambda>r e. (r, dec r (counter rs))) (Some (''*int'', VPtr (Some (VScalar ''int'' (SInt (counter rs)))))) (lg, data) of
        None \<Rightarrow> None
      | Some (Inl p) \<Rightarrow> Some (Inl p)
      | Some (Inr ((lg, _), None)) \<Rightarrow> Some (Inl LogFatal)
      | Some (Inr ((lg, _), Some n)) \<Rightarrow> Some (Inr (rs\<lparr>counter := n\<rparr>, lg)))"

definition srv_Kill :: "rsmSrv \<Rightarrow> rsmSrv" where
  "srv_Kill rs = rs\<lparr>rsv_rsm := None\<rparr>"

definition srv_Raft :: "rsmSrv \<Rightarrow> Raft option go" where
  "srv_Raft rs = (case rsv_rsm rs of None \<Rightarrow> Inl NilPanic | Some rsm \<Rightarrow> Inr (RSM_Raft rsm))"

section \<open>The tests\<close>

definition NSRV :: nat where "NSRV = 3"
definition NSEC :: int where "NSEC = 10"

record rsmTest =
  rt_srvs :: "rsmSrv list"
  rt_leader :: nat
  rt_connected :: "bool list"

definition inPartition :: "nat \<Rightarrow> nat list option \<Rightarrow> bool" where
  "inPartition s p = (case p of None \<Rightarrow> True | Some is \<Rightarrow> s \<in> set is)"

text \<open>One round over the servers, from \<open>index\<close> on; the reply and its server if a request was committed.\<close>

fun try_servers :: "nat list option \<Rightarrow> request \<Rightarrow> nat \<Rightarrow> nat \<Rightarrow> rsmTest \<Rightarrow> (reply option \<times> nat) option go" where
  "try_servers p req 0 index ts = Inr None"
| "try_servers p req (Suc k) index ts = (case go_index (rt_connected ts) (int index) of
      Inl f \<Rightarrow> Inl f
    | Inr conn \<Rightarrow>
        let next = try_servers p req k ((index + 1) mod length (rt_srvs ts)) ts
        in if \<not> conn then next
           else (case go_index (rt_srvs ts) (int index) of
             Inl f \<Rightarrow> Inl f
           | Inr s \<Rightarrow> (case rsv_rsm s of
               None \<Rightarrow> next
             | Some rsm \<Rightarrow>
                 if \<not> inPartition index p then next
                 else (case Submit rsm req of (err, rep) \<Rightarrow> if err = OK then Inr (Some (rep, index)) else next))))"

fun onePartition :: "nat list option \<Rightarrow> request \<Rightarrow> nat \<Rightarrow> rsmTest \<Rightarrow> (reply option \<times> rsmTest) go" where
  "onePartition p req 0 ts = Inr (None, ts)"
| "onePartition p req (Suc rounds) ts = (case try_servers p req (length (rt_srvs ts)) (rt_leader ts) ts of
      Inl f \<Rightarrow> Inl f
    | Inr (Some (rep, index)) \<Rightarrow> Inr (rep, ts\<lparr>rt_leader := index\<rparr>)
    | Inr None \<Rightarrow> onePartition p req rounds ts)"

text \<open>The replies are converted to the expected type.\<close>

definition oneInc :: "nat \<Rightarrow> rsmTest \<Rightarrow> (int option \<times> rsmTest) go" where
  "oneInc rounds ts = (case onePartition None Inc rounds ts of
      Inl f \<Rightarrow> Inl f
    | Inr (None, ts) \<Rightarrow> Inr (None, ts)
    | Inr (Some (IncRep n), ts) \<Rightarrow> Inr (Some n, ts)
    | Inr (Some NullRep, ts) \<Rightarrow> Inl TypePanic)"

definition oneNull :: "nat \<Rightarrow> rsmTest \<Rightarrow> (bool \<times> rsmTest) go" where
  "oneNull rounds ts = (case onePartition None Null rounds ts of
      Inl f \<Rightarrow> Inl f
    | Inr (None, ts) \<Rightarrow> Inr (False, ts)
    | Inr (Some NullRep, ts) \<Rightarrow> Inr (True, ts)
    | Inr (Some (IncRep n), ts) \<Rightarrow> Inl TypePanic)"

definition countValue :: "int \<Rightarrow> rsmSrv list \<Rightarrow> nat" where
  "countValue v srvs = length (filter (\<lambda>s. counter s = v) srvs)"

text \<open>The check looks at the servers up to thirty times; \<open>obs\<close> are the servers as it sees them.\<close>

fun check_rounds :: "int \<Rightarrow> nat \<Rightarrow> nat \<Rightarrow> rsmSrv list list \<Rightarrow> bool" where
  "check_rounds v nsrv 0 obs = False"
| "check_rounds v nsrv (Suc k) [] = False"
| "check_rounds v nsrv (Suc k) (srvs # obs) = (countValue v srvs \<ge> nsrv \<or> check_rounds v nsrv k obs)"

definition checkCounter :: "int \<Rightarrow> int \<Rightarrow> nat \<Rightarrow> rsmSrv list list \<Rightarrow> globals \<Rightarrow> globals go" where
  "checkCounter t v nsrv obs g =
     (if check_rounds v nsrv 30 obs
      then let txt = ''all '' @ itoa (int nsrv) @ '' servers have counter value '' @ itoa v in AnnotateCheckerSuccess t txt txt g
      else let n = (if obs = [] then 0 else countValue v (last (take 30 obs)));
               txt = ''checkCounter: only '' @ itoa (int n) @ '' srvs have '' @ itoa v @ '' instead of '' @ itoa (int nsrv)
           in case AnnotateCheckerFailure t txt txt g of Inl p \<Rightarrow> Inl p | Inr _ \<Rightarrow> Inl TestFatal)"

text \<open>The first server of a group one of whose services is a Raft peer that believes it leads.\<close>

definition rsm_Leader :: "('svc \<Rightarrow> Raft option) \<Rightarrow> 'svc list list \<Rightarrow> bool \<times> nat" where
  "rsm_Leader as_raft services =
     (case find (\<lambda>(i, ss). \<exists>s\<in>set ss. case as_raft s of None \<Rightarrow> False | Some r \<Rightarrow> snd (Raft_GetState r)) (enumerate 0 services) of
        None \<Rightarrow> (False, 0)
      | Some (i, _) \<Rightarrow> (True, i))"

section \<open>Snapshots\<close>

text \<open>The committed requests, applied in order, with their replies.\<close>

fun do_ops :: "request list \<Rightarrow> rsmSrv \<Rightarrow> (rsmSrv \<times> reply list) go" where
  "do_ops [] rs = Inr (rs, [])"
| "do_ops (r # ops) rs = (case DoOp r rs of
      Inl p \<Rightarrow> Inl p
    | Inr (rs, rep) \<Rightarrow> (case do_ops ops rs of Inl p \<Rightarrow> Inl p | Inr (rs, reps) \<Rightarrow> Inr (rs, rep # reps)))"

text \<open>The replies to a sequence of requests, as a function of the counter alone.\<close>

fun replies :: "request list \<Rightarrow> int \<Rightarrow> reply list" where
  "replies [] n = []"
| "replies (r # ops) n = (if r = Inc then IncRep (n + 1) # replies ops (n + 1) else NullRep # replies ops n)"

lemma do_ops_replies:
  "do_ops ops rs = (if set ops \<subseteq> {Inc, Null}
     then Inr (rs\<lparr>counter := counter rs + int (count_list ops Inc)\<rparr>, replies ops (counter rs)) else Inl LogFatal)"
proof (induction ops arbitrary: rs)
  case (Cons r ops)
  then show ?case by (cases r) (auto simp: Let_def)
qed simp

text \<open>Registering values of known types always succeeds.\<close>

lemma Register_ok:
  assumes "types_closed G s"
  shows "\<exists>s'. Register G greg (Some (t, v)) (s, g) = Some (Inr (s', greg (Some (t, v)) g)) \<and> types_closed G s' \<and>
    errorCount s' = errorCount s + (\<Sum>u\<in>made_of G t - checked s. int (length (lower_case_fields G u)))"
proof -
  obtain s' where "checkValue G (Some (t, v)) s = Some (Inr s')" "types_closed G s'"
    "errorCount s' = errorCount s + (\<Sum>u\<in>made_of G t - checked s. int (length (lower_case_fields G u)))"
    using checkValue_spec [OF assms, of t v] by blast
  then show ?thesis by (simp add: Register_def)
qed

lemma register_all_ok:
  assumes "types_closed G s" "\<forall>u. lower_case_fields G u = []" "None \<notin> set vs"
  shows "\<exists>s' g'. register_all G greg vs (s, g) = Some (Inr (s', g')) \<and> types_closed G s' \<and> errorCount s' = errorCount s"
  using assms(1,3)
proof (induction vs arbitrary: s g)
  case (Cons v vs)
  obtain t x where v: "v = Some (t, x)" using Cons.prems(2) by (cases v) auto
  obtain s' where s': "Register G greg v (s, g) = Some (Inr (s', greg v g))" "types_closed G s'" "errorCount s' = errorCount s"
    using Register_ok [OF Cons.prems(1), of greg t x g] assms(2) v by auto
  then show ?case using Cons.IH [OF s'(2), of "greg v g"] Cons.prems(2) by simp
qed simp

lemma no_lower_case_fields:
  assumes "\<forall>(t, k)\<in>set G. case k of Struct fs \<Rightarrow> list_all (\<lambda>(n, u). is_upper n) fs | _ \<Rightarrow> True"
  shows "lower_case_fields G u = []"
proof (cases "map_of G u")
  case (Some k)
  then have "(u, k) \<in> set G" by (rule map_of_SomeD)
  then show ?thesis using assms Some
    by (cases k) (fastforce simp: lower_case_fields_def kind_of_def filter_empty_conv list_all_iff)+
qed (simp add: lower_case_fields_def kind_of_def)

lemma rsm_types_lower: "lower_case_fields rsm_types u = []"
  by (rule no_lower_case_fields) (simp add: rsm_types_def is_upper_def)

lemma rsm_checkValue:
  assumes "types_closed rsm_types s"
  obtains s' where "checkValue rsm_types (Some (t, v)) s = Some (Inr s')" "types_closed rsm_types s'" "errorCount s' = errorCount s"
  using checkValue_spec [OF assms, of t v] rsm_types_lower that by auto

text \<open>A new server counts from zero.\<close>

lemma makeRsmSrv_ok:
  assumes "types_closed rsm_types lg"
  shows "\<exists>lg' g' rs'. makeRsmSrv greg b i cends ps h now rnd m (lg, g) = Some (Inr ((lg', g'), rs')) \<and>
    types_closed rsm_types lg' \<and> errorCount lg' = errorCount lg \<and> counter rs' = 0"
proof -
  have "None \<notin> set rsm_values" by (simp add: rsm_values_def)
  then show ?thesis using register_all_ok [OF assms, of rsm_values greg g] rsm_types_lower
    by (fastforce simp: makeRsmSrv_def Let_def)
qed

lemma srv_Snapshot_eq:
  assumes "types_closed rsm_types lg"
  shows "\<exists>lg'. srv_Snapshot enc rs lg = Some (Inr (lg', enc (Some (''int'', VScalar ''int'' (SInt (counter rs)))))) \<and>
    types_closed rsm_types lg' \<and> errorCount lg' = errorCount lg"
  by (rule rsm_checkValue [OF assms, of "''int''" "VScalar ''int'' (SInt (counter rs))"]) (auto simp: srv_Snapshot_def Encode_def)

text \<open>Restoring counts an error of labgob exactly if the counter had a value.\<close>

lemma srv_Restore_eq:
  assumes "types_closed rsm_types lg"
  shows "\<exists>lg'. srv_Restore dec data rs lg =
      Some (case dec data (counter rs) of None \<Rightarrow> Inl LogFatal | Some n \<Rightarrow> Inr (rs\<lparr>counter := n\<rparr>, lg')) \<and>
    errorCount lg' = errorCount lg + (if counter rs = 0 then 0 else 1)"
proof -
  obtain s' where s': "checkValue rsm_types (Some (''*int'', VPtr (Some (VScalar ''int'' (SInt (counter rs)))))) lg = Some (Inr s')"
    "errorCount s' = errorCount lg"
    by (rule rsm_checkValue [OF assms])
  then show ?thesis
    by (intro exI [of _ "if counter rs = 0 then s' else warn_nondefault ''int'' s'"])
      (auto simp: srv_Restore_def Decode_def checkDefault_def warn_nondefault_def split: option.splits)
qed

text \<open>
  C38: a replica that starts from a snapshot is as good as one that applied everything. Assume that gob reads back the integers it
  writes into a variable that is zero. A server takes a snapshot after any sequence of requests, and a new server is made and restores it,
  neither of them failing and labgob counting no error; whatever requests follow, both give the same replies, fail on the same requests and
  end with the same counter, which is the number of increments since the start. Restoring into a server whose counter is not zero is outside that
  promise, as labgob warns: whatever gob does then, labgob counts an error, or the process ends.
\<close>

theorem snapshot_replay:
  assumes gob: "\<And>n. dec (enc (Some (''int'', VScalar ''int'' (SInt n)))) 0 = Some n"
    and ops: "do_ops ops rs = Inr (rs1, reps)" and lg: "types_closed rsm_types lg"
  shows "\<exists>lg0 g0 rs' lg1 data rs2 lg2.
    makeRsmSrv greg b i cends ps h now rnd m (lg, g) = Some (Inr ((lg0, g0), rs')) \<and>
    srv_Snapshot enc rs1 lg0 = Some (Inr (lg1, data)) \<and> srv_Restore dec data rs' lg1 = Some (Inr (rs2, lg2)) \<and>
    errorCount lg2 = errorCount lg \<and> counter rs2 = counter rs + int (count_list ops Inc) \<and>
    (case (do_ops ops2 rs1, do_ops ops2 rs2) of
       (Inr (rs1, reps1), Inr (rs2, reps2)) \<Rightarrow> reps1 = reps2 \<and> counter rs1 = counter rs2
     | (Inl p, Inl q) \<Rightarrow> p = q
     | _ \<Rightarrow> False) \<and>
    (\<forall>used. counter used \<noteq> 0 \<longrightarrow> srv_Restore dec data used lg1 = Some (Inl LogFatal) \<or>
       (\<exists>rs3 lg3. srv_Restore dec data used lg1 = Some (Inr (rs3, lg3)) \<and> errorCount lg3 = errorCount lg + 1))"
proof -
  have rs1: "counter rs1 = counter rs + int (count_list ops Inc)" using ops by (auto simp: do_ops_replies split: if_splits)
  obtain lg0 g0 rs' where new: "makeRsmSrv greg b i cends ps h now rnd m (lg, g) = Some (Inr ((lg0, g0), rs'))"
    "types_closed rsm_types lg0" "errorCount lg0 = errorCount lg" "counter rs' = 0"
    using makeRsmSrv_ok [OF lg, of greg b i cends ps h now rnd m g] by blast
  let ?data = "enc (Some (''int'', VScalar ''int'' (SInt (counter rs1))))"
  obtain lg1 where s: "srv_Snapshot enc rs1 lg0 = Some (Inr (lg1, ?data))" "types_closed rsm_types lg1" "errorCount lg1 = errorCount lg"
    using srv_Snapshot_eq [OF new(2), of enc rs1] new(3) by auto
  obtain lg2 where r: "srv_Restore dec ?data rs' lg1 = Some (Inr (rs'\<lparr>counter := counter rs1\<rparr>, lg2))" "errorCount lg2 = errorCount lg"
    using srv_Restore_eq [OF s(2), of dec ?data rs'] gob [of "counter rs1"] new(4) s(3) by auto
  have used: "srv_Restore dec ?data used lg1 = Some (Inl LogFatal) \<or>
      (\<exists>rs3 lg3. srv_Restore dec ?data used lg1 = Some (Inr (rs3, lg3)) \<and> errorCount lg3 = errorCount lg + 1)"
    if "counter used \<noteq> 0" for used
    using srv_Restore_eq [OF s(2), of dec ?data used] s(3) that by (cases "dec ?data (counter used)") auto
  show ?thesis
    by (rule exI [of _ lg0], rule exI [of _ g0], rule exI [of _ rs'], rule exI [of _ lg1], rule exI [of _ ?data],
        rule exI [of _ "rs'\<lparr>counter := counter rs1\<rparr>"], rule exI [of _ lg2])
      (use new(1) s(1) r rs1 used in \<open>auto simp: do_ops_replies\<close>)
qed

text \<open>An encoding of integers in unary, with a byte for the sign.\<close>

definition ex_enc :: "iface \<Rightarrow> bytes" where
  "ex_enc v = (case v of Some (_, VScalar _ (SInt n)) \<Rightarrow> (if n < 0 then 1 else 0) # replicate (nat \<bar>n\<bar>) 7 | _ \<Rightarrow> [])"

definition ex_dec :: "bytes \<Rightarrow> int \<Rightarrow> int option" where
  "ex_dec bs old = (case bs of [] \<Rightarrow> None | b # bs \<Rightarrow> Some (if b = 1 then - int (length bs) else if bs = [] then old else int (length bs)))"

lemma snapshot_replay_witness:
  "\<exists>rs1 reps lg0 g0 rs' lg1 data rs2 lg2. do_ops [Inc, Null, Inc] \<lparr>rsv_me = 0, rsv_rsm = None, counter = 0\<rparr> = Inr (rs1, reps) \<and>
     makeRsmSrv (\<lambda>_ g. g) False 1 [] MakePersister [] 0 0 (-1) (labgob0, ()) = Some (Inr ((lg0, g0), rs')) \<and>
     srv_Snapshot ex_enc rs1 lg0 = Some (Inr (lg1, data)) \<and>
     srv_Restore ex_dec data rs' lg1 = Some (Inr (rs2, lg2)) \<and> counter rs2 = 2"
proof -
  let ?rs = "\<lparr>rsv_me = 0, rsv_rsm = None, counter = 0\<rparr>"
  have gob: "ex_dec (ex_enc (Some (''int'', VScalar ''int'' (SInt n)))) 0 = Some n" for n by (simp add: ex_dec_def ex_enc_def)
  obtain rs1 reps where ops: "do_ops [Inc, Null, Inc] ?rs = Inr (rs1, reps)" by (simp add: do_ops_replies)
  have "types_closed rsm_types labgob0" by (simp add: types_closed_def labgob0_def)
  from snapshot_replay [where dec = ex_dec and enc = ex_enc, OF gob ops this, of "\<lambda>_ g. g" False 1 "[]" MakePersister "[]" 0 0 "-1" "()" "[]"]
  show ?thesis using ops by (simp add: numeral_2_eq_2) blast
qed

section \<open>Requests are never committed\<close>

lemma try_servers_None:
  assumes "length (rt_connected ts) = length (rt_srvs ts)" "index < length (rt_srvs ts)"
  shows "try_servers p req k index ts = Inr None"
  using assms(2)
proof (induction k arbitrary: index)
  case (Suc k)
  have "try_servers p req k ((index + 1) mod length (rt_srvs ts)) ts = Inr None"
    using Suc by (intro Suc.IH) (auto intro: mod_less_divisor)
  then show ?case
    using assms(1) Suc.prems by (auto simp: go_index_nth Let_def Submit_def split: option.splits)
qed simp

text \<open>
  No request is ever committed: \<open>Submit\<close> answers every one with \<open>ErrWrongLeader\<close>, so that \<open>onePartition\<close> gives up after
  any number of rounds, whatever servers are up and connected.
\<close>

lemma onePartition_gives_up:
  assumes "length (rt_connected ts) = length (rt_srvs ts)" "rt_leader ts < length (rt_srvs ts)"
  shows "onePartition p req rounds ts = Inr (None, ts)"
  using assms by (induction rounds) (auto simp: try_servers_None)

end
