(* ===== verification/Kv_Test.thy ===== *)
theory Kv_Test
  imports Kv_Clerk_Api Go_Json Tester_Config
begin

text \<open>
  \<open>kvtest1/kvtest.go\<close> and \<open>kvtest1/porcupine.go\<close>: the clients and checks that the tests of the key/value
  services share, and the log of clerk operations that is handed to the linearizability checker. The loops
  are functions of the results of their clerk calls, each with its start and end time; a loop that is
  still retrying when the given results are used up has no result. A failed check ends the test. Operations that
  annotate also change the variables of the annotations, at the given times. The checker is a third-party
  package and a parameter.
\<close>

section \<open>The log of operations\<close>

definition linearizabilityCheckTimeout :: int where "linearizabilityCheckTimeout = 1000"
definition ElectionTimeout :: int where "ElectionTimeout = 1000"

record Operation =
  op_Input :: KvInput
  op_Output :: KvOutput
  op_Call :: int
  op_Return :: int
  op_ClientId :: int

definition OpLog_Len :: "Operation list \<Rightarrow> int" where
  "OpLog_Len log = int (length log)"

definition OpLog_Append :: "Operation \<Rightarrow> Operation list \<Rightarrow> Operation list" where
  "OpLog_Append x log = log @ [x]"

definition OpLog_Read :: "Operation list \<Rightarrow> Operation list" where
  "OpLog_Read log = log"

text \<open>The configuration counts the operation; a nil log (\<open>None\<close>) records nothing.\<close>

definition log_Get :: "string \<Rightarrow> int \<Rightarrow> int \<times> int \<times> get_result \<Rightarrow> 'svc Config \<times> Operation list option \<Rightarrow>
    'svc Config \<times> Operation list option" where
  "log_Get key cli call st = (case (call, st) of ((start, stop, val, ver, err), (cfg, log)) \<Rightarrow>
     (Op cfg, map_option (OpLog_Append \<lparr>op_Input = get_input key, op_Output = get_output val ver err,
        op_Call = start, op_Return = stop, op_ClientId = cli\<rparr>) log))"

definition log_Put :: "PutArgs \<Rightarrow> int \<Rightarrow> int \<times> int \<times> Err \<Rightarrow> 'svc Config \<times> Operation list option \<Rightarrow>
    'svc Config \<times> Operation list option" where
  "log_Put args cli call st = (case (call, st) of ((start, stop, err), (cfg, log)) \<Rightarrow>
     (Op cfg, map_option (OpLog_Append \<lparr>op_Input = put_input args, op_Output = put_output err,
        op_Call = start, op_Return = stop, op_ClientId = cli\<rparr>) log))"

text \<open>How \<open>models1/kv.go\<close> shows an operation of the log.\<close>

definition DescribeOperation :: "KvInput \<Rightarrow> KvOutput \<Rightarrow> string" where
  "DescribeOperation inp out =
     (let quot = \<lambda>s. [CHR 0x27] @ s @ [CHR 0x27]
      in if in_Op inp = 0
         then ''get('' @ quot (in_Key inp) @ '') -> ('' @ quot (out_Value out) @ '', '' @ quot (itoa (uint (out_Version out))) @ '', '' @
              quot (out_Err out) @ '')''
         else if in_Op inp = 1
         then ''put('' @ quot (in_Key inp) @ '', '' @ quot (in_Value inp) @ '', '' @ quot (itoa (uint (in_Version inp))) @ '') -> ('' @
              quot (out_Err out) @ '')''
         else ''<invalid>'')"

section \<open>A test\<close>

record 'svc KvTest =
  kt_cfg :: "'svc Config"
  kt_oplog :: "Operation list option"
  kt_randomkeys :: bool

definition MakeTest :: "'svc Config \<Rightarrow> bool \<Rightarrow> 'svc KvTest" where
  "MakeTest cfg randomkeys = \<lparr>kt_cfg = cfg, kt_oplog = Some [], kt_randomkeys = randomkeys\<rparr>"

definition Test_Get :: "string \<Rightarrow> int \<Rightarrow> int \<times> int \<times> get_result \<Rightarrow> 'svc KvTest \<Rightarrow> 'svc KvTest" where
  "Test_Get key cli call ts =
     (let (cfg, log) = log_Get key cli call (kt_cfg ts, kt_oplog ts) in ts\<lparr>kt_cfg := cfg, kt_oplog := log\<rparr>)"

definition Test_Put :: "PutArgs \<Rightarrow> int \<Rightarrow> int \<times> int \<times> Err \<Rightarrow> 'svc KvTest \<Rightarrow> 'svc KvTest" where
  "Test_Put args cli call ts =
     (let (cfg, log) = log_Put args cli call (kt_cfg ts, kt_oplog ts) in ts\<lparr>kt_cfg := cfg, kt_oplog := log\<rparr>)"

definition Test_Cleanup :: "('svc \<Rightarrow> pop list) \<Rightarrow> int \<Rightarrow> int \<Rightarrow> string \<Rightarrow> bool \<Rightarrow> 'svc KvTest \<times> Annotation \<Rightarrow>
    ('svc KvTest \<times> Annotation) go" where
  "Test_Cleanup kill now t vis opens st = (case st of (ts, an) \<Rightarrow>
     (case End now (kt_cfg ts) of
        Inl p \<Rightarrow> Inl p
      | Inr _ \<Rightarrow> (case cfg_Cleanup kill now t vis opens (kt_cfg ts, an) of
          Inl p \<Rightarrow> Inl p
        | Inr (cfg, an, _) \<Rightarrow> Inr (ts\<lparr>kt_cfg := cfg\<rparr>, an))))"

fun ConnectClnts :: "Clnt list \<Rightarrow> 'svc shared \<Rightarrow> Clnt list \<times> 'svc shared" where
  "ConnectClnts [] sh = ([], sh)"
| "ConnectClnts (c # cs) sh =
     (let (c, sh) = Clnt_ConnectAll (c, sh); (cs, sh) = ConnectClnts cs sh in (c # cs, sh))"

section \<open>Puts and gets\<close>

text \<open>What one put of \<open>PutAtLeastOnce\<close> leads to: a return, another round, or the end of the test.\<close>

datatype palo = PaloDone Tversion | PaloAgain Tversion | PaloFatal

definition palo_next :: "Tversion \<Rightarrow> Err \<Rightarrow> palo" where
  "palo_next ver err =
     (if err = OK then PaloDone (ver + 1)
      else if err = ErrMaybe \<or> err = ErrVersion then PaloAgain (ver + 1)
      else if ver \<noteq> 0 then PaloFatal else PaloAgain ver)"

fun palo_loop :: "string \<Rightarrow> string \<Rightarrow> int \<Rightarrow> Tversion \<Rightarrow> (int \<times> int \<times> Err) list \<Rightarrow> 'svc KvTest \<Rightarrow>
    (Tversion \<times> 'svc KvTest) go option" where
  "palo_loop key val me ver [] ts = None"
| "palo_loop key val me ver (call # calls) ts =
     (let ts = Test_Put \<lparr>put_Key = key, put_Value = val, put_Version = ver\<rparr> me call ts
      in case palo_next ver (snd (snd call)) of
           PaloDone v \<Rightarrow> Some (Inr (v, ts))
         | PaloAgain v \<Rightarrow> palo_loop key val me v calls ts
         | PaloFatal \<Rightarrow> Some (Inl TestFatal))"

definition PutAtLeastOnce :: "string \<Rightarrow> string \<Rightarrow> Tversion \<Rightarrow> int \<Rightarrow> (int \<times> int \<times> Err) list \<Rightarrow> int \<Rightarrow> 'svc KvTest \<times> globals \<Rightarrow>
    (Tversion \<times> 'svc KvTest \<times> globals) go option" where
  "PutAtLeastOnce key val ver me calls t st = (case palo_loop key val me ver calls (fst st) of
      None \<Rightarrow> None
    | Some (Inl p) \<Rightarrow> Some (Inl p)
    | Some (Inr (ver', ts)) \<Rightarrow>
        let desp = ''Put('' @ key @ '', '' @ val @ '') completes'';
            details = ''version: '' @ itoa (uint ver) @ '' -> '' @ itoa (uint ver')
        in Some (Inr (ver', ts, AnnotateInfo t desp details (snd st))))"

text \<open>A check that failed annotates the failure and ends the test.\<close>

definition check_failed :: "int \<Rightarrow> string \<Rightarrow> globals \<Rightarrow> 'a go" where
  "check_failed t txt g = (case AnnotateCheckerFailure t txt txt g of Inl p \<Rightarrow> Inl p | Inr _ \<Rightarrow> Inl TestFatal)"

definition get_text :: "string \<Rightarrow> Tversion \<Rightarrow> string" where
  "get_text val ver = ''('' @ val @ '', '' @ itoa (uint ver) @ '')''"

definition CheckGet :: "string \<Rightarrow> string \<Rightarrow> Tversion \<Rightarrow> int \<Rightarrow> int \<times> int \<times> get_result \<Rightarrow> int \<Rightarrow> 'svc KvTest \<times> globals \<Rightarrow>
    ('svc KvTest \<times> globals) go" where
  "CheckGet key val version t call t' st =
     (case AnnotateCheckerBegin t (''checking Get('' @ key @ '') = '' @ get_text val version) (snd st) of
        Inl p \<Rightarrow> Inl p
      | Inr g \<Rightarrow>
          let ts = Test_Get key 0 call (fst st)
          in case snd (snd call) of (v, ver, err) \<Rightarrow>
               if err \<noteq> OK then check_failed t' (''Get('' @ key @ '') returns error = '' @ err_string err) g
               else if v \<noteq> val \<or> ver \<noteq> version
               then check_failed t' (''Get('' @ key @ '') returns '' @ get_text v ver @ '' != '' @ get_text val version) g
               else (case AnnotateCheckerSuccess t' (''Get('' @ key @ '') returns '' @ get_text v ver @ '' as expected'') ''OK'' g of
                       Inl p \<Rightarrow> Inl p
                     | Inr g \<Rightarrow> Inr (ts, g)))"

definition GetJson :: "(string \<Rightarrow> 'v option) \<Rightarrow> string \<Rightarrow> int \<Rightarrow> int \<times> int \<times> get_result \<Rightarrow> 'svc KvTest \<Rightarrow>
    (Tversion \<times> 'v \<times> 'svc KvTest) go" where
  "GetJson unmarshal key me call ts =
     (let ts = Test_Get key me call ts
      in case snd (snd call) of (val, ver, err) \<Rightarrow>
           if err = OK
           then (case unmarshal val of None \<Rightarrow> Inl TestFatal | Some v \<Rightarrow> Inr (ver, v, ts))
           else Inl TestFatal)"

definition PutJson :: "('v \<Rightarrow> string) \<Rightarrow> string \<Rightarrow> 'v \<Rightarrow> Tversion \<Rightarrow> int \<Rightarrow> int \<times> int \<times> Err \<Rightarrow> 'svc KvTest \<Rightarrow> Err \<times> 'svc KvTest" where
  "PutJson marshal key v ver me call ts =
     (snd (snd call), Test_Put \<lparr>put_Key = key, put_Value = marshal v, put_Version = ver\<rparr> me call ts)"

fun PutAtLeastOnceJson :: "('v \<Rightarrow> string) \<Rightarrow> string \<Rightarrow> 'v \<Rightarrow> int \<Rightarrow> Tversion \<Rightarrow> (int \<times> int \<times> Err) list \<Rightarrow> 'svc KvTest \<Rightarrow>
    (Tversion \<times> 'svc KvTest) option" where
  "PutAtLeastOnceJson marshal key v me ver [] ts = None"
| "PutAtLeastOnceJson marshal key v me ver (call # calls) ts =
     (case PutJson marshal key v 0 me call ts of
        (err, ts) \<Rightarrow> if err \<noteq> ErrMaybe then Some (ver, ts)
                     else PutAtLeastOnceJson marshal key v me (ver + 1) calls ts)"

text \<open>
  One round of \<open>OnePut\<close> after its put returned \<open>err\<close> and its get \<open>(ver0, e)\<close>: the new version, and whether
  the loop ends and with which flag.
\<close>

definition one_put_err :: "Err \<Rightarrow> bool" where
  "one_put_err err \<longleftrightarrow> err = OK \<or> err = ErrVersion \<or> err = ErrMaybe"

definition one_put_got :: "int \<Rightarrow> Tversion \<Rightarrow> Err \<Rightarrow> Tversion \<times> EntryV \<Rightarrow> (Tversion \<times> bool option) go" where
  "one_put_got me ver err r = (case r of (ver0, e) \<Rightarrow>
     if err = OK \<and> ver0 = ver + 1 \<and> ev_Id e \<noteq> me \<and> ev_V e \<noteq> ver then Inl TestFatal
     else Inr (ver0, if err = OK \<or> err = ErrMaybe then Some (err = OK) else None))"

fun OnePut :: "int \<Rightarrow> string \<Rightarrow> Tversion \<Rightarrow> ((int \<times> int \<times> Err) \<times> (int \<times> int \<times> get_result)) list \<Rightarrow> 'svc KvTest \<Rightarrow>
    ((Tversion \<times> bool) \<times> 'svc KvTest) go option" where
  "OnePut me key ver [] ts = None"
| "OnePut me key ver ((pcall, gcall) # calls) ts =
     (case PutJson marshal_EntryV key \<lparr>ev_Id = me, ev_V = ver\<rparr> ver me pcall ts of (err, ts) \<Rightarrow>
        if \<not> one_put_err err then Some (Inl TestFatal)
        else case GetJson unmarshal_EntryV key me gcall ts of
          Inl p \<Rightarrow> Some (Inl p)
        | Inr (ver0, e, ts) \<Rightarrow> (case one_put_got me ver err (ver0, e) of
            Inl p \<Rightarrow> Some (Inl p)
          | Inr (ver, Some ok) \<Rightarrow> Some (Inr ((ver, ok), ts))
          | Inr (ver, None) \<Rightarrow> OnePut me key ver calls ts))"

section \<open>Many clients\<close>

record ClntRes =
  Nok :: int
  Nmaybe :: int

text \<open>The final read and the comparison of the counted puts with the version at the server.\<close>

definition CheckPutConcurrent :: "string \<Rightarrow> ClntRes list \<Rightarrow> ClntRes \<Rightarrow> bool \<Rightarrow> int \<times> int \<times> get_result \<Rightarrow> 'svc KvTest \<Rightarrow>
    (ClntRes \<times> 'svc KvTest) go" where
  "CheckPutConcurrent key rs res rel call ts = (case GetJson unmarshal_EntryV key (-1) call ts of
      Inl p \<Rightarrow> Inl p
    | Inr (ver0, e, ts) \<Rightarrow>
        let res = foldl (\<lambda>res r. res\<lparr>Nok := Nok res + Nok r, Nmaybe := Nmaybe res + Nmaybe r\<rparr>) res rs
        in if rel
           then if ver0 \<noteq> word_of_int (Nok res) then Inl TestFatal else Inr (res, ts)
           else if ver0 > word_of_int (Nok res + Nmaybe res) then Inl TestFatal else Inr (res, ts))"

text \<open>What a client does with its clerk: it gets one, runs its function, and gives the clerk back.\<close>

definition runClient :: "(nat \<Rightarrow> 'ck) \<Rightarrow> (nat \<Rightarrow> 'ck \<Rightarrow> ClntRes) \<Rightarrow> nat \<Rightarrow> ClntRes" where
  "runClient mkc fn me = fn me (mkc me)"

definition SpawnClientsAndWait :: "nat \<Rightarrow> (nat \<Rightarrow> 'ck) \<Rightarrow> (nat \<Rightarrow> 'ck \<Rightarrow> ClntRes) \<Rightarrow> ClntRes list" where
  "SpawnClientsAndWait nclnt mkc fn = map (runClient mkc fn) [0..<nclnt]"

text \<open>
  \<open>OneClientPut\<close> until the done signal, which comes after the given rounds; a round has a random number and the results
  of its \<open>OnePut\<close>.
\<close>

definition pick_key :: "string list \<Rightarrow> bool \<Rightarrow> nat \<Rightarrow> string go" where
  "pick_key ka randomkeys rnd = (case go_index ka 0 of
      Inl p \<Rightarrow> Inl p
    | Inr k \<Rightarrow> if randomkeys then go_index ka (int (rnd mod length ka)) else Inr k)"

fun OneClientPut :: "nat \<Rightarrow> string list \<Rightarrow> (string \<Rightarrow> Tversion) \<Rightarrow> ClntRes \<Rightarrow>
    (nat \<times> ((int \<times> int \<times> Err) \<times> (int \<times> int \<times> get_result)) list) list \<Rightarrow> 'svc KvTest \<Rightarrow> (ClntRes \<times> 'svc KvTest) go option" where
  "OneClientPut cli ka verm res [] ts = Some (Inr (res, ts))"
| "OneClientPut cli ka verm res ((rnd, calls) # rounds) ts =
     (case pick_key ka (kt_randomkeys ts) rnd of
        Inl p \<Rightarrow> Some (Inl p)
      | Inr k \<Rightarrow> (case OnePut (int cli) k (verm k) calls ts of
          None \<Rightarrow> None
        | Some (Inl p) \<Rightarrow> Some (Inl p)
        | Some (Inr ((ver, ok), ts)) \<Rightarrow>
            OneClientPut cli ka (verm(k := ver))
              (if ok then res\<lparr>Nok := Nok res + 1\<rparr> else res\<lparr>Nmaybe := Nmaybe res + 1\<rparr>) rounds ts))"

definition MakeKeys :: "nat \<Rightarrow> string list" where
  "MakeKeys n = map (\<lambda>i. ''k'' @ itoa (int i)) [0..<n]"

text \<open>
  The values are random strings; the puts are not logged and their errors are ignored. Each check has its times and the
  result of its get.
\<close>

definition SpreadPutsSize :: "nat \<Rightarrow> nat \<Rightarrow> (nat \<Rightarrow> uint8 list) \<Rightarrow> (nat \<Rightarrow> int \<times> (int \<times> int \<times> get_result) \<times> int) \<Rightarrow>
    'svc KvTest \<times> globals \<Rightarrow> (string list \<times> string list \<times> 'svc KvTest \<times> globals) go" where
  "SpreadPutsSize n valsz rnd gets st =
     (let ka = MakeKeys n; va = map (\<lambda>i. Randstring valsz (rnd i)) [0..<n]
      in case go_fold (\<lambda>i st. case gets i of (t, call, t') \<Rightarrow> CheckGet (ka ! i) (va ! i) 1 t call t' st) [0..<n] st of
           Inl p \<Rightarrow> Inl p
         | Inr st \<Rightarrow> Inr (ka, va, st))"

definition SpreadPuts :: "nat \<Rightarrow> (nat \<Rightarrow> uint8 list) \<Rightarrow> (nat \<Rightarrow> int \<times> (int \<times> int \<times> get_result) \<times> int) \<Rightarrow>
    'svc KvTest \<times> globals \<Rightarrow> (string list \<times> string list \<times> 'svc KvTest \<times> globals) go" where
  "SpreadPuts n rnd gets st = SpreadPutsSize n 20 rnd gets st"

text \<open>
  One append of a client: the inner loop of \<open>OneClientAppend\<close>, with the results of its gets and puts. The flag tells whether the
  put was answered \<open>OK\<close>.
\<close>

fun append_once :: "int \<Rightarrow> int \<Rightarrow> ((int \<times> int \<times> get_result) \<times> (int \<times> int \<times> Err)) list \<Rightarrow> 'svc KvTest \<Rightarrow>
    (bool \<times> 'svc KvTest) go option" where
  "append_once me i [] ts = None"
| "append_once me i ((gcall, pcall) # calls) ts = (case GetJson unmarshal_entries ''k'' me gcall ts of
      Inl p \<Rightarrow> Some (Inl p)
    | Inr (ver, es, ts) \<Rightarrow>
        (case PutJson marshal_entries ''k'' (es @ [\<lparr>en_Id = me, en_N = i\<rparr>]) ver me pcall ts of (err, ts) \<Rightarrow>
           if err = OK then Some (Inr (True, ts))
           else if err = ErrMaybe then Some (Inr (False, ts))
           else append_once me i calls ts))"

text \<open>The done signal comes after the given rounds.\<close>

fun OneClientAppend :: "int \<Rightarrow> int \<Rightarrow> ClntRes \<Rightarrow> ((int \<times> int \<times> get_result) \<times> (int \<times> int \<times> Err)) list list \<Rightarrow> 'svc KvTest \<Rightarrow>
    (ClntRes \<times> 'svc KvTest) go option" where
  "OneClientAppend me i res [] ts = Some (Inr (res, ts))"
| "OneClientAppend me i res (calls # rounds) ts = (case append_once me i calls ts of
      None \<Rightarrow> None
    | Some (Inl p) \<Rightarrow> Some (Inl p)
    | Some (Inr (ok, ts)) \<Rightarrow>
        OneClientAppend me (i + 1) (if ok then res\<lparr>Nok := Nok res + 1\<rparr> else res\<lparr>Nmaybe := Nmaybe res + 1\<rparr>) rounds ts)"

text \<open>
  The check of the appended entries. The map \<open>expect\<close> is an association list, whose order stands for the traversal order;
  \<open>skipped\<close> is only looked up.
\<close>

definition expect_get :: "(int \<times> int) list \<Rightarrow> int \<Rightarrow> int" where
  "expect_get ex c = (case map_of ex c of None \<Rightarrow> 0 | Some n \<Rightarrow> n)"

definition check_entry :: "EntryN \<Rightarrow> (int \<times> int) list \<times> (int \<Rightarrow> int) \<Rightarrow> ((int \<times> int) list \<times> (int \<Rightarrow> int)) go" where
  "check_entry e st = (case st of (ex, sk) \<Rightarrow>
     let n = expect_get ex (en_Id e)
     in if n > en_N e then Inl TestFatal
        else if n = en_N e then Inr (assoc_put (en_Id e) (n + 1) ex, sk)
        else Inr (assoc_put (en_Id e) (en_N e + 1) ex, sk(en_Id e := sk (en_Id e) + (en_N e - n))))"

definition check_client :: "ClntRes list \<Rightarrow> (int \<Rightarrow> int) \<Rightarrow> int \<times> int \<Rightarrow> unit \<Rightarrow> unit go" where
  "check_client rs sk cn _ = (case cn of (c, n) \<Rightarrow> (case go_index rs c of
      Inl p \<Rightarrow> Inl p
    | Inr r \<Rightarrow> if sk c > Nmaybe r then Inl TestFatal
              else if n > Nok r + Nmaybe r then Inl TestFatal
              else Inr ()))"

definition CheckAppends :: "EntryN list \<Rightarrow> nat \<Rightarrow> ClntRes list \<Rightarrow> Tversion \<Rightarrow> unit go" where
  "CheckAppends es nclnt rs ver = (case go_fold check_entry es (map (\<lambda>i. (int i, 0)) [0..<nclnt], \<lambda>_. 0) of
      Inl p \<Rightarrow> Inl p
    | Inr (ex, sk) \<Rightarrow> if int (length es) + 1 \<noteq> sint ver then Inl TestFatal else go_fold (check_client rs sk) ex ())"

section \<open>Partitions\<close>

text \<open>The numbers of the servers whose random bit is \<open>i\<close>.\<close>

definition partition_half :: "nat list \<Rightarrow> nat \<Rightarrow> nat list" where
  "partition_half a i = filter (\<lambda>j. a ! j = i) [0..<length a]"

text \<open>One round has its random numbers and the time; the stop signal comes after the given rounds.\<close>

definition partition_round :: "int \<Rightarrow> (nat \<Rightarrow> nat) \<times> int \<Rightarrow> 'svc KvTest \<times> globals \<Rightarrow> ('svc KvTest \<times> globals) go" where
  "partition_round gid round st = (case (round, st) of ((rs, t), (ts, g)) \<Rightarrow> (case Group gid (kt_cfg ts) of
      None \<Rightarrow> Inl NilPanic
    | Some sg \<Rightarrow>
        let a = map (\<lambda>i. rs i mod 2) [0..<sg_N sg]
        in case with_group gid (sg_Partition (partition_half a 0) (partition_half a 1)) (kt_cfg ts) of
             Inl p \<Rightarrow> Inl p
           | Inr cfg \<Rightarrow> Inr (ts\<lparr>kt_cfg := cfg\<rparr>, AnnotateTwoPartitions t (partition_half a 0) (partition_half a 1) g)))"

definition Partitioner :: "int \<Rightarrow> ((nat \<Rightarrow> nat) \<times> int) list \<Rightarrow> 'svc KvTest \<times> globals \<Rightarrow> ('svc KvTest \<times> globals) go" where
  "Partitioner gid rounds st = go_fold (partition_round gid) rounds st"

section \<open>Checking the history\<close>

text \<open>
  The checker takes the operations and a time limit. \<open>vis\<close> is the value of \<open>VIS_ENABLE\<close>, \<open>opens\<close> tells whether the
  visualization file can be opened. The result is the new state of the annotations, those handed to the visualization, if any,
  and how the check ends.
\<close>

datatype check_result = Illegal | Unknown | Legal

definition checkPorcupine :: "(Operation list \<Rightarrow> int \<Rightarrow> check_result) \<Rightarrow> string \<Rightarrow> bool \<Rightarrow> int \<Rightarrow> Operation list \<Rightarrow> int \<Rightarrow> globals \<Rightarrow>
    globals \<times> Annot list option \<times> unit go" where
  "checkPorcupine check vis opens t opLog nsec g =
     (if check (OpLog_Read opLog) nsec = Illegal
      then if opens \<and> vis \<noteq> ''never''
           then let (g, as) = FinalizeAnnotations t ''test failed'' g in (g, Some as, Inl TestFatal)
           else (g, None, Inl TestFatal)
      else if vis = ''always'' \<and> GetAnnotationFinalized g
           then if \<not> opens then (g, None, Inr ())
                else let (g, as) = FinalizeAnnotations t ''test passed'' g in (g, Some as, Inr ())
           else (g, None, Inr ()))"

text \<open>A nil log is dereferenced.\<close>

definition CheckPorcupineT :: "(Operation list \<Rightarrow> int \<Rightarrow> check_result) \<Rightarrow> string \<Rightarrow> bool \<Rightarrow> int \<Rightarrow> int \<Rightarrow> 'svc KvTest \<Rightarrow> globals \<Rightarrow>
    globals \<times> Annot list option \<times> unit go" where
  "CheckPorcupineT check vis opens t nsec ts g = (case kt_oplog ts of
      None \<Rightarrow> (g, None, Inl NilPanic)
    | Some log \<Rightarrow> checkPorcupine check vis opens t log nsec g)"

definition CheckPorcupine :: "(Operation list \<Rightarrow> int \<Rightarrow> check_result) \<Rightarrow> string \<Rightarrow> bool \<Rightarrow> int \<Rightarrow> 'svc KvTest \<Rightarrow> globals \<Rightarrow>
    globals \<times> Annot list option \<times> unit go" where
  "CheckPorcupine check vis opens t ts g = CheckPorcupineT check vis opens t linearizabilityCheckTimeout ts g"

section \<open>Gaps of the checks\<close>

text \<open>A passing history is only drawn, with its annotations, when they were finalized before.\<close>

lemma passing_history_not_drawn:
  "check opLog nsec \<noteq> Illegal \<Longrightarrow> \<not> GetAnnotationFinalized g \<Longrightarrow>
     checkPorcupine check vis opens t opLog nsec g = (g, None, Inr ())"
  by (simp add: checkPorcupine_def OpLog_Read_def)

text \<open>
  After a put answered \<open>OK\<close> with version \<open>ver\<close>, \<open>OnePut\<close> accepts version \<open>ver + 1\<close> with the value of another client,
  provided it was put with the same version.
\<close>

lemma OnePut_accepts_foreign_value:
  "one_put_got me ver OK (ver + 1, \<lparr>ev_Id = other, ev_V = ver\<rparr>) = Inr (ver + 1, Some True)"
  by (simp add: one_put_got_def)

end
