(* ===== verification/Kv_Test_Clients.thy ===== *)
theory Kv_Test_Clients
  imports Kv_Test
begin

text \<open>
  The concurrent clients of the key/value tests over any clerk that keeps the contract \<open>ikv_clerk\<close>, with their
  calls interleaved arbitrarily: the put clients of \<open>OneClientPut\<close> and the append clients of
  \<open>OneClientAppend\<close>. On a correct service no client fails and the final checks \<open>CheckPutConcurrent\<close> and
  \<open>CheckAppends\<close> pass: the tests raise no false alarm.
\<close>

section \<open>Counting over a list of clients\<close>

lemma sum_list_map_update:
  fixes f :: "'a \<Rightarrow> int"
  assumes "i < length xs"
  shows "sum_list (map f (xs[i := x])) = sum_list (map f xs) - f (xs ! i) + f x"
  using assms by (induction xs arbitrary: i) (auto split: nat.split)

lemma of_nat_le_word_of_int:
  assumes "int n \<le> s" "s < 2 ^ 64"
  shows "(of_nat n :: Tversion) \<le> word_of_int s"
  using assms by (simp add: word_le_def unsigned_of_nat unsigned_of_int take_bit_int_eq_self of_nat_take_bit)

lemma of_nat_version_inject: "m < 2 ^ 64 \<Longrightarrow> n < 2 ^ 64 \<Longrightarrow> (of_nat m :: Tversion) = of_nat n \<longleftrightarrow> m = n"
  by (simp add: word_of_nat_eq_iff take_bit_nat_eq_self)

lemma sint_of_nat_small: "n < 2 ^ 63 \<Longrightarrow> sint (of_nat n :: Tversion) = int n"
  by (simp add: sint_uint unsigned_of_nat signed_take_bit_int_eq_self take_bit_nat_eq_self of_nat_take_bit take_bit_int_eq_self)

section \<open>Put clients\<close>

text \<open>
  A client of \<open>OneClientPut\<close> on one key: about to put with the version it remembers, or about to read after its
  put was answered \<open>err\<close>, or ended by a failed check; and its counts.
\<close>

datatype put_pc = PPut | PGet Err | PFailed

record put_client =
  pc :: put_pc
  verm :: Tversion
  res :: ClntRes

definition put_client0 :: put_client where
  "put_client0 = \<lparr>pc = PPut, verm = 0, res = \<lparr>Nok = 0, Nmaybe = 0\<rparr>\<rparr>"

definition client_put :: "Err \<Rightarrow> put_client \<Rightarrow> put_client" where
  "client_put err c = c\<lparr>pc := (if one_put_err err then PGet err else PFailed)\<rparr>"

definition client_got :: "nat \<Rightarrow> Err \<Rightarrow> get_result \<Rightarrow> put_client \<Rightarrow> put_client" where
  "client_got i err r c = (case r of (val, ver0, gerr) \<Rightarrow>
     case (if gerr = OK then unmarshal_EntryV val else None) of
       None \<Rightarrow> c\<lparr>pc := PFailed\<rparr>
     | Some e \<Rightarrow> (case one_put_got (int i) (verm c) err (ver0, e) of
         Inl _ \<Rightarrow> c\<lparr>pc := PFailed\<rparr>
       | Inr (ver, None) \<Rightarrow> c\<lparr>pc := PPut, verm := ver\<rparr>
       | Inr (ver, Some ok) \<Rightarrow> c\<lparr>pc := PPut, verm := ver,
           res := (if ok then (res c)\<lparr>Nok := Nok (res c) + 1\<rparr> else (res c)\<lparr>Nmaybe := Nmaybe (res c) + 1\<rparr>)\<rparr>))"

text \<open>A step of one of the clients; each call takes effect at one moment.\<close>

inductive put_step :: "('s \<Rightarrow> string \<Rightarrow> get_result) \<Rightarrow> ('s \<Rightarrow> string \<Rightarrow> string \<Rightarrow> Tversion \<Rightarrow> 's \<Rightarrow> Err \<Rightarrow> bool) \<Rightarrow> string \<Rightarrow>
    's \<times> put_client list \<Rightarrow> 's \<times> put_client list \<Rightarrow> bool"
  for get put key where
  do_put: "i < length cs \<Longrightarrow> pc (cs ! i) = PPut \<Longrightarrow>
     put st key (marshal_EntryV \<lparr>ev_Id = int i, ev_V = verm (cs ! i)\<rparr>) (verm (cs ! i)) st' err \<Longrightarrow>
     put_step get put key (st, cs) (st', cs[i := client_put err (cs ! i)])"
| do_get: "i < length cs \<Longrightarrow> pc (cs ! i) = PGet err \<Longrightarrow>
     put_step get put key (st, cs) (st, cs[i := client_got i err (get st key) (cs ! i)])"

text \<open>The puts of a client that are surely applied, and those that may be.\<close>

definition sure :: "put_client \<Rightarrow> int" where
  "sure c = Nok (res c) + (if pc c = PGet OK then 1 else 0)"

definition unsure :: "put_client \<Rightarrow> int" where
  "unsure c = Nmaybe (res c) + (if pc c = PGet ErrMaybe then 1 else 0)"

text \<open>A client that has put knows a version, or is waiting for its read.\<close>

definition started :: "put_client \<Rightarrow> bool" where
  "started c \<longleftrightarrow> pc c \<noteq> PPut \<or> verm c \<noteq> 0 \<or> 0 < Nok (res c) + Nmaybe (res c)"

definition client_ok :: "put_client \<Rightarrow> bool" where
  "client_ok c \<longleftrightarrow> pc c \<in> {PPut, PGet OK, PGet ErrVersion, PGet ErrMaybe} \<and> 0 \<le> Nok (res c) \<and> 0 \<le> Nmaybe (res c)"

definition entry_ok :: "nat \<Rightarrow> get_result \<Rightarrow> bool" where
  "entry_ok n r \<longleftrightarrow> (\<exists>e. fst r = marshal_EntryV e \<and> ev_V e + 1 = of_nat n)"

context ikv_clerk_codes
begin

definition puts_ok :: "string \<Rightarrow> 'a \<times> put_client list \<Rightarrow> bool" where
  "puts_ok key s \<longleftrightarrow> (case s of (st, cs) \<Rightarrow>
     invar st \<and> (\<forall>c\<in>set cs. client_ok c \<and> (started c \<longrightarrow> 0 < applied st key)) \<and>
     (0 < applied st key \<longrightarrow> entry_ok (applied st key) (get st key)) \<and>
     sum_list (map sure cs) \<le> int (applied st key) \<and>
     int (applied st key) \<le> sum_list (map sure cs) + sum_list (map unsure cs))"

lemma puts_init: "puts_ok key (init, replicate n put_client0)" if "applied init key = 0"
  using that invar_init
  by (auto simp: puts_ok_def put_client0_def client_ok_def started_def sure_def unsure_def map_replicate_const sum_list_replicate)

text \<open>Replacing one client keeps the invariant when the counts move with the number of applied puts.\<close>

lemma puts_update:
  assumes "puts_ok key (st, cs)" "i < length cs" "invar st'" "client_ok c" "0 < applied st' key"
    and "entry_ok (applied st' key) (get st' key)"
    and "int (applied st' key) = int (applied st key) + d"
    and "sure c - sure (cs ! i) \<le> d" "d \<le> sure c - sure (cs ! i) + (unsure c - unsure (cs ! i))"
  shows "puts_ok key (st', cs[i := c])"
  using assms set_update_subset_insert [of cs i c] sum_list_map_update [of i cs sure c] sum_list_map_update [of i cs unsure c]
  unfolding puts_ok_def by auto

lemma puts_put:
  assumes inv: "puts_ok key (st, cs)" and i: "i < length cs" and c: "pc (cs ! i) = PPut"
    and put: "put st key (marshal_EntryV \<lparr>ev_Id = int i, ev_V = verm (cs ! i)\<rparr>) (verm (cs ! i)) st' err"
  shows "puts_ok key (st', cs[i := client_put err (cs ! i)])"
proof -
  have st: "invar st" and ci: "client_ok (cs ! i)" "started (cs ! i) \<Longrightarrow> 0 < applied st key"
    using inv i by (auto simp: puts_ok_def)
  have st': "invar st'" using invar_put st put by blast
  show ?thesis
  proof (cases "verm (cs ! i) = of_nat (applied st key)")
    case True
    note p = put_applied [OF st put True]
    have "entry_ok (applied st' key) (get st' key)" using p True by (auto simp: entry_ok_def)
    then show ?thesis using p ci c st'
      by (intro puts_update [OF inv i, where d = 1])
        (auto simp: client_put_def one_put_err_def client_ok_def sure_def unsure_def)
  next
    case False
    then have p: "st' = st" "err \<noteq> OK" and pos: "0 < applied st key"
      using put_refused [OF st put] ci c by (auto simp: started_def intro: gr0I)
    then have err: "err \<in> {ErrMaybe, ErrVersion}" using put_codes [OF st put] by auto
    have "entry_ok (applied st key) (get st key)" using inv pos by (simp add: puts_ok_def)
    then show ?thesis using p err ci c st' pos
      by (intro puts_update [OF inv i, where d = 0])
        (auto simp: client_put_def one_put_err_def client_ok_def sure_def unsure_def)
  qed
qed

lemma puts_get:
  assumes inv: "puts_ok key (st, cs)" and i: "i < length cs" and c: "pc (cs ! i) = PGet err"
  shows "puts_ok key (st, cs[i := client_got i err (get st key) (cs ! i)])"
proof -
  let ?n = "applied st key"
  have "started (cs ! i)" using c by (simp add: started_def)
  then have st: "invar st" and ci: "client_ok (cs ! i)" and pos: "0 < ?n" and e: "entry_ok ?n (get st key)"
    using inv nth_mem [OF i] unfolding puts_ok_def by auto
  obtain x where g: "get st key = (marshal_EntryV x, of_nat ?n, OK)" and x: "ev_V x + 1 = of_nat ?n"
    using get_present [OF st pos] e unfolding entry_ok_def by metis
  have "one_put_got (int i) (verm (cs ! i)) err (of_nat ?n, x) =
      Inr (of_nat ?n, if err = OK \<or> err = ErrMaybe then Some (err = OK) else None)"
    using x by (auto simp: one_put_got_def)
  then show ?thesis using g ci c st e pos
    by (intro puts_update [OF inv i, where d = 0]) (auto simp: client_got_def client_ok_def sure_def unsure_def)
qed

lemma puts_reachable:
  assumes "reachable (init, replicate n put_client0) (put_step get put key) s" and "applied init key = 0"
  shows "puts_ok key s \<and> length (snd s) = n"
  using assms(1)
proof (induction rule: reachable.induct)
  case reach_init
  then show ?case using puts_init assms(2) by simp
next
  case (reach_step s t)
  from reach_step.hyps(2) reach_step.IH show ?case by cases (auto intro: puts_put puts_get)
qed

text \<open>The final read and comparison.\<close>

lemma puts_final:
  assumes inv: "puts_ok key (st, cs)" and idle: "\<forall>c\<in>set cs. pc c = PPut" and "\<exists>c\<in>set cs. 0 < Nok (res c) + Nmaybe (res c)"
    and total: "if rel then \<forall>c\<in>set cs. Nmaybe (res c) = 0 else (\<Sum>c\<leftarrow>cs. Nok (res c) + Nmaybe (res c)) < 2 ^ 64"
  shows "\<exists>r ts'. CheckPutConcurrent key (map res cs) \<lparr>Nok = 0, Nmaybe = 0\<rparr> rel (t, t', get st key) ts = Inr (r, ts')"
proof -
  let ?n = "applied st key"
  obtain c where "c \<in> set cs" "started c" using assms(3) by (auto simp: started_def)
  then have st: "invar st" and pos: "0 < ?n" and e: "entry_ok ?n (get st key)" using inv unfolding puts_ok_def by auto
  obtain x where g: "get st key = (marshal_EntryV x, of_nat ?n, OK)"
    using get_present [OF st pos] e unfolding entry_ok_def by metis
  have acc: "foldl (\<lambda>res r. res\<lparr>Nok := Nok res + Nok r, Nmaybe := Nmaybe res + Nmaybe r\<rparr>) \<lparr>Nok = a, Nmaybe = b\<rparr> rs =
      \<lparr>Nok = a + sum_list (map Nok rs), Nmaybe = b + sum_list (map Nmaybe rs)\<rparr>" for a b and rs :: "ClntRes list"
    by (induction rs arbitrary: a b) (auto simp: algebra_simps)
  have eq: "map sure cs = map (Nok \<circ> res) cs" "map unsure cs = map (Nmaybe \<circ> res) cs"
    using idle by (auto simp: sure_def unsure_def)
  have "sum_list (map sure cs) \<le> int ?n" "int ?n \<le> sum_list (map sure cs) + sum_list (map unsure cs)"
    using inv unfolding puts_ok_def by auto
  then have n: "sum_list (map (Nok \<circ> res) cs) \<le> int ?n"
      "int ?n \<le> sum_list (map (Nok \<circ> res) cs) + sum_list (map (Nmaybe \<circ> res) cs)"
    unfolding eq by simp_all
  show ?thesis
  proof (cases rel)
    case True
    then have "\<forall>c\<in>set cs. Nmaybe (res c) = 0" using total by simp
    then have "sum_list (map (Nmaybe \<circ> res) cs) = 0" by (induction cs) auto
    then have "sum_list (map (Nok \<circ> res) cs) = int ?n" using n by simp
    then show ?thesis using True g by (simp add: CheckPutConcurrent_def GetJson_def acc)
  next
    case False
    let ?s = "sum_list (map (Nok \<circ> res) cs) + sum_list (map (Nmaybe \<circ> res) cs)"
    have "?s < 2 ^ 64" using total False by (simp add: sum_list_addf comp_def)
    then have "(of_nat ?n :: Tversion) \<le> word_of_int ?s" by (rule of_nat_le_word_of_int [OF n(2)])
    then show ?thesis using False g by (simp add: CheckPutConcurrent_def GetJson_def acc not_less)
  qed
qed

end

text \<open>
  C34: the put test raises no false alarm. When any number of clients run \<open>OneClientPut\<close> on one key of
  a fresh \<open>kvsrv1\<close> server over a lossy network, no client ends the test, whatever the interleaving of their calls; and when all
  of them have come to the end of a put, and one has made a put, \<open>CheckPutConcurrent\<close> passes: the version at the server
  is the number of successful puts on a network that lost nothing, and at most the number of possibly
  successful ones otherwise, while that number fits a version.
\<close>

theorem put_clients_pass:
  assumes "reachable (counted_init, replicate n put_client0) (put_step clerk_get clerk_put key) (st, cs)"
  shows "(\<forall>c\<in>set cs. pc c \<noteq> PFailed) \<and>
    ((\<forall>c\<in>set cs. pc c = PPut) \<and> (\<exists>c\<in>set cs. 0 < Nok (res c) + Nmaybe (res c)) \<and>
     (if rel then \<forall>c\<in>set cs. Nmaybe (res c) = 0 else (\<Sum>c\<leftarrow>cs. Nok (res c) + Nmaybe (res c)) < 2 ^ 64) \<longrightarrow>
     (\<exists>r ts'. CheckPutConcurrent key (map res cs) \<lparr>Nok = 0, Nmaybe = 0\<rparr> rel (t, t', clerk_get st key) ts = Inr (r, ts')))"
proof -
  have inv: "kvsrv_clerk_codes.puts_ok key (st, cs)"
    using kvsrv_clerk_codes.puts_reachable [OF assms] by (simp add: counted_init_def)
  have "pc c \<noteq> PFailed" if "c \<in> set cs" for c
    using inv that unfolding kvsrv_clerk_codes.puts_ok_def client_ok_def by auto
  then show ?thesis using kvsrv_clerk_codes.puts_final [OF inv] by blast
qed

text \<open>Two clients put with version 0; the first succeeds, the second is told the current version.\<close>

definition ex_store :: counted_store where
  "ex_store = (put_store MakeKVServer \<lparr>put_Key = ''k'', put_Value = marshal_EntryV \<lparr>ev_Id = 0, ev_V = 0\<rparr>, put_Version = 0\<rparr>,
               (\<lambda>_. 0)(''k'' := 1))"

definition ex_clients :: "put_client list" where
  "ex_clients = [\<lparr>pc = PPut, verm = 1, res = \<lparr>Nok = 1, Nmaybe = 0\<rparr>\<rparr>, \<lparr>pc = PPut, verm = 1, res = \<lparr>Nok = 0, Nmaybe = 0\<rparr>\<rparr>]"

definition ex_test :: "nat KvTest" where
  "ex_test = MakeTest \<lparr>cfg_clnts = makeClnts, cfg_groups = newGroups, cfg_shared = shared0, cfg_failed = False,
                       cfg_start = 0, cfg_t0 = 0, cfg_rpcs0 = 0, cfg_ops = 0\<rparr> False"

lemma ex_puts: "clerk_put counted_init ''k'' (marshal_EntryV \<lparr>ev_Id = 0, ev_V = 0\<rparr>) 0 ex_store OK"
  "clerk_put ex_store ''k'' v 0 ex_store ErrVersion"
  by (auto simp: clerk_put_def ex_store_def counted_init_def Server_Put_eq put_point_def put_applies_def put_err_def
      key_version_put_store key_version_def MakeKVServer_def KVStore_put_store Let_def)

lemma ex_get: "clerk_get ex_store ''k'' = (marshal_EntryV \<lparr>ev_Id = 0, ev_V = 0\<rparr>, 1, OK)"
  by (simp add: clerk_get_def ex_store_def Server_Get_eq key_value_put_store key_version_put_store KVStore_put_store
      key_version_def MakeKVServer_def)

lemma ex_reachable:
  "reachable (counted_init, replicate 2 put_client0) (put_step clerk_get clerk_put ''k'') (ex_store, ex_clients)"
proof -
  let ?S = "put_step clerk_get clerk_put ''k''" and ?c = put_client0
  let ?p = "\<lambda>err. client_put err ?c" and ?g = "\<lambda>i err. client_got i err (clerk_get ex_store ''k'') (client_put err ?c)"
  have eqs: "verm ?c = 0" "pc ?c = PPut" "pc (?p OK) = PGet OK" "pc (?p ErrVersion) = PGet ErrVersion"
    by (simp_all add: put_client0_def client_put_def one_put_err_def)
  have 1: "?S (counted_init, [?c, ?c]) (ex_store, [?p OK, ?c])"
    using do_put [of 0 "[?c, ?c]" clerk_put _ "''k''" _ OK clerk_get] ex_puts(1) by (simp add: eqs)
  have 2: "?S (ex_store, [?p OK, ?c]) (ex_store, [?p OK, ?p ErrVersion])"
    using do_put [of 1 "[?p OK, ?c]" clerk_put _ "''k''" _ ErrVersion clerk_get] ex_puts(2) by (simp add: eqs)
  have 3: "?S (ex_store, [?p OK, ?p ErrVersion]) (ex_store, [?g 0 OK, ?p ErrVersion])"
    using do_get [of 0 "[?p OK, ?p ErrVersion]" OK clerk_get clerk_put "''k''"] by (simp add: eqs)
  have 4: "?S (ex_store, [?g 0 OK, ?p ErrVersion]) (ex_store, [?g 0 OK, ?g 1 ErrVersion])"
    using do_get [of 1 "[?g 0 OK, ?p ErrVersion]" ErrVersion clerk_get clerk_put "''k''"] by (simp add: eqs)
  have eq: "[?g 0 OK, ?g 1 ErrVersion] = ex_clients"
    by (simp add: ex_clients_def client_got_def ex_get one_put_got_def client_put_def put_client0_def)
  have two: "replicate 2 ?c = [?c, ?c]" by (simp add: numeral_2_eq_2)
  have "reachable (counted_init, [?c, ?c]) ?S (ex_store, [?g 0 OK, ?g 1 ErrVersion])"
    using 1 2 3 4 unfolding reachable_iff_rtranclp by (auto intro: rtranclp.rtrancl_into_rtrancl)
  then show ?thesis unfolding eq two .
qed

lemma put_clients_pass_witness:
  "PFailed \<notin> set (map pc ex_clients) \<and>
   (\<exists>r ts'. CheckPutConcurrent ''k'' (map res ex_clients) \<lparr>Nok = 0, Nmaybe = 0\<rparr> True (0, 1, clerk_get ex_store ''k'')
      ex_test = Inr (r, ts'))"
proof -
  have "(\<forall>c\<in>set ex_clients. pc c = PPut) \<and> (\<exists>c\<in>set ex_clients. 0 < Nok (res c) + Nmaybe (res c)) \<and>
      (\<forall>c\<in>set ex_clients. Nmaybe (res c) = 0)" by (simp add: ex_clients_def)
  moreover note pass = put_clients_pass [OF ex_reachable, of True 0 1 ex_test]
  moreover have "PFailed \<notin> set (map pc ex_clients)" using pass by auto
  ultimately show ?thesis by (simp only: if_True) blast
qed

section \<open>What CheckAppends accepts\<close>

text \<open>The numbers that client \<open>c\<close> appended, in order, and the number expected next.\<close>

definition appended :: "int \<Rightarrow> EntryN list \<Rightarrow> int list" where
  "appended c es = map en_N (filter (\<lambda>e. en_Id e = c) es)"

definition next_of :: "int list \<Rightarrow> int" where
  "next_of ns = (if ns = [] then 0 else last ns + 1)"

lemma appended_simps [simp]:
  "appended c [] = []"
  "appended c (es @ [e]) = (if en_Id e = c then appended c es @ [en_N e] else appended c es)"
  by (simp_all add: appended_def)

lemma next_of_snoc: "next_of (ns @ [n]) = n + 1"
  by (simp add: next_of_def)

definition increasing :: "int list \<Rightarrow> bool" where
  "increasing ns \<longleftrightarrow> sorted_wrt (<) ns \<and> (\<forall>n\<in>set ns. 0 \<le> n)"

lemma increasing_snoc: "increasing (ns @ [n]) \<longleftrightarrow> increasing ns \<and> next_of ns \<le> n"
proof (cases ns rule: rev_cases)
  case (snoc ms m)
  then show ?thesis by (auto simp: increasing_def next_of_def sorted_wrt_append intro: order.trans)
qed (auto simp: increasing_def next_of_def)

lemma assoc_put_table:
  "k \<in> set xs \<Longrightarrow> distinct xs \<Longrightarrow> assoc_put k v (map (\<lambda>x. (x, f x)) xs) = map (\<lambda>x. (x, (f(k := v)) x)) xs"
  by (induction xs) auto

lemma expect_get_table: "k \<in> set xs \<Longrightarrow> expect_get (map (\<lambda>x. (x, f x)) xs) k = f k"
  by (simp add: expect_get_def map_of_map_restrict)

lemma check_entries:
  assumes "\<forall>e\<in>set es. 0 \<le> en_Id e \<and> en_Id e < int n" "\<forall>c. increasing (appended c es)"
  shows "go_fold check_entry es (map (\<lambda>i. (int i, 0)) [0..<n], \<lambda>_. 0) =
    Inr (map (\<lambda>c. (c, next_of (appended c es))) (map int [0..<n]),
         \<lambda>c. next_of (appended c es) - int (length (appended c es)))"
  using assms
proof (induction es rule: rev_induct)
  case Nil
  then show ?case by (simp add: next_of_def)
next
  case (snoc e es)
  let ?f = "\<lambda>c. next_of (appended c es)" and ?c = "en_Id e"
  have inc: "increasing (appended c es)" and le: "?f ?c \<le> en_N e" for c
    using snoc.prems(2) by (auto simp: increasing_snoc split: if_split_asm dest: spec [where x = c] spec [where x = ?c])
  have IH: "go_fold check_entry es (map (\<lambda>i. (int i, 0)) [0..<n], \<lambda>_. 0) =
      Inr (map (\<lambda>c. (c, ?f c)) (map int [0..<n]), \<lambda>c. ?f c - int (length (appended c es)))"
    using snoc.IH snoc.prems(1) inc by simp
  have mem: "?c \<in> set (map int [0..<n])" using snoc.prems(1) by (auto intro!: image_eqI [of _ _ "nat ?c"])
  have put: "assoc_put ?c v (map (\<lambda>c. (c, ?f c)) (map int [0..<n])) = map (\<lambda>c. (c, (?f(?c := v)) c)) (map int [0..<n])" for v
    using mem by (rule assoc_put_table) (simp add: distinct_map)
  note get = expect_get_table [OF mem, of ?f]
  show ?case unfolding go_fold_append IH
    using le by (auto simp: check_entry_def get put next_of_snoc Let_def fun_eq_iff simp del: map_map)
qed

lemma check_entries_increasing:
  assumes "\<forall>e\<in>set es. 0 \<le> en_Id e \<and> en_Id e < int n"
    and "go_fold check_entry es (map (\<lambda>i. (int i, 0)) [0..<n], \<lambda>_. 0) = Inr r"
  shows "increasing (appended c es)"
  using assms
proof (induction es arbitrary: r c rule: rev_induct)
  case Nil
  then show ?case by (simp add: increasing_def)
next
  case (snoc e es)
  let ?f = "\<lambda>c. next_of (appended c es)"
  have ids: "\<forall>e\<in>set es. 0 \<le> en_Id e \<and> en_Id e < int n" using snoc.prems(1) by simp
  have inc: "increasing (appended c es)" for c
    using snoc.IH [OF ids] snoc.prems(2) by (auto simp: go_fold_append split: sum.splits)
  have mem: "en_Id e \<in> set (map int [0..<n])" using snoc.prems(1) by (auto intro!: image_eqI [of _ _ "nat (en_Id e)"])
  have fold: "go_fold check_entry es (map (\<lambda>i. (int i, 0)) [0..<n], \<lambda>_. 0) =
      Inr (map (\<lambda>c. (c, ?f c)) (map int [0..<n]), \<lambda>c. ?f c - int (length (appended c es)))"
    using check_entries [OF ids] inc by blast
  have "\<exists>r. check_entry e (map (\<lambda>c. (c, ?f c)) (map int [0..<n]), \<lambda>c. ?f c - int (length (appended c es))) = Inr r"
    using snoc.prems(2) unfolding go_fold_append fold by (auto split: sum.splits)
  then have "?f (en_Id e) \<le> en_N e" using expect_get_table [OF mem, of ?f]
    by (auto simp: check_entry_def Let_def simp del: map_map split: if_splits)
  then show ?case using inc by (auto simp: increasing_snoc)
qed

lemma check_clients_ok: "go_fold (check_client rs sk) ex () = Inr () \<longleftrightarrow> (\<forall>(c, n)\<in>set ex. check_client rs sk (c, n) () = Inr ())"
  by (induction ex) (auto split: sum.splits)

lemma CheckAppends_iff:
  assumes ids: "\<forall>e\<in>set es. 0 \<le> en_Id e \<and> en_Id e < int (length rs)"
  shows "CheckAppends es (length rs) rs ver = Inr () \<longleftrightarrow>
    (\<forall>c. increasing (appended c es)) \<and> sint ver = int (length es) + 1 \<and>
    (\<forall>i<length rs. let k = next_of (appended (int i) es) in
       k - int (length (appended (int i) es)) \<le> Nmaybe (rs ! i) \<and> k \<le> Nok (rs ! i) + Nmaybe (rs ! i))"
proof (cases "\<forall>c. increasing (appended c es)")
  case True
  then show ?thesis
    using check_entries [OF ids True]
    by (auto simp: CheckAppends_def check_clients_ok check_client_def go_index_nth Let_def not_less split: if_splits)
next
  case False
  then show ?thesis using check_entries_increasing [OF ids] by (auto simp: CheckAppends_def split: sum.splits)
qed

section \<open>Append clients\<close>

text \<open>
  A client of \<open>OneClientAppend\<close>: about to read, or about to put the entries it read with its own one added, or ended by a
  failed check; its iteration and its counts.
\<close>

datatype app_pc = AGet | APut Tversion "EntryN list" | AFailed

record app_client =
  apc :: app_pc
  iter :: int
  ares :: ClntRes

definition app_client0 :: app_client where
  "app_client0 = \<lparr>apc = AGet, iter = 0, ares = \<lparr>Nok = 0, Nmaybe = 0\<rparr>\<rparr>"

definition client_read :: "get_result \<Rightarrow> app_client \<Rightarrow> app_client" where
  "client_read r c = (case r of (val, ver, gerr) \<Rightarrow>
     case (if gerr = OK then unmarshal_entries val else None) of
       None \<Rightarrow> c\<lparr>apc := AFailed\<rparr>
     | Some es \<Rightarrow> c\<lparr>apc := APut ver es\<rparr>)"

definition client_appended :: "Err \<Rightarrow> app_client \<Rightarrow> app_client" where
  "client_appended err c =
     (if err = OK then c\<lparr>apc := AGet, iter := iter c + 1, ares := (ares c)\<lparr>Nok := Nok (ares c) + 1\<rparr>\<rparr>
      else if err = ErrMaybe then c\<lparr>apc := AGet, iter := iter c + 1, ares := (ares c)\<lparr>Nmaybe := Nmaybe (ares c) + 1\<rparr>\<rparr>
      else c\<lparr>apc := AGet\<rparr>)"

inductive app_step :: "('s \<Rightarrow> string \<Rightarrow> get_result) \<Rightarrow> ('s \<Rightarrow> string \<Rightarrow> string \<Rightarrow> Tversion \<Rightarrow> 's \<Rightarrow> Err \<Rightarrow> bool) \<Rightarrow>
    's \<times> app_client list \<Rightarrow> 's \<times> app_client list \<Rightarrow> bool"
  for get put where
  app_get: "i < length cs \<Longrightarrow> apc (cs ! i) = AGet \<Longrightarrow>
     app_step get put (st, cs) (st, cs[i := client_read (get st ''k'') (cs ! i)])"
| app_put: "i < length cs \<Longrightarrow> apc (cs ! i) = APut ver es \<Longrightarrow>
     put st ''k'' (marshal_entries (es @ [\<lparr>en_Id = int i, en_N = iter (cs ! i)\<rparr>])) ver st' err \<Longrightarrow>
     app_step get put (st, cs) (st', cs[i := client_appended err (cs ! i)])"

text \<open>
  What client \<open>i\<close> knows when the stored entries are \<open>es\<close> and \<open>n\<close> puts were applied: its own entries are increasing
  and below its iteration, there are at least as many as it was told, and entries it read are outdated or the stored ones.
\<close>

definition app_ok :: "nat \<Rightarrow> EntryN list \<Rightarrow> nat \<Rightarrow> app_client \<Rightarrow> bool" where
  "app_ok n es i c \<longleftrightarrow> increasing (appended (int i) es) \<and> next_of (appended (int i) es) \<le> iter c \<and>
     Nok (ares c) \<le> int (length (appended (int i) es)) \<and>
     iter c = Nok (ares c) + Nmaybe (ares c) \<and>
     (case apc c of AGet \<Rightarrow> True | AFailed \<Rightarrow> False
      | APut ver es' \<Rightarrow> \<exists>m\<le>n. ver = of_nat m \<and> (m = n \<longrightarrow> es' = es))"

context ikv_clerk
begin

definition apps_ok :: "nat \<Rightarrow> EntryN list \<Rightarrow> 's \<times> app_client list \<Rightarrow> bool" where
  "apps_ok l es s \<longleftrightarrow> (case s of (st, cs) \<Rightarrow>
     invar st \<and> applied st ''k'' = Suc (length es) \<and> fst (get st ''k'') = marshal_entries es \<and> length cs = l \<and>
     (\<forall>e\<in>set es. 0 \<le> en_Id e \<and> en_Id e < int l) \<and> (\<forall>i<l. app_ok (Suc (length es)) es i (cs ! i)))"

lemma apps_get:
  assumes inv: "apps_ok l es (st, cs)" and i: "i < length cs" "apc (cs ! i) = AGet"
  shows "apps_ok l es (st, cs[i := client_read (get st ''k'') (cs ! i)])"
proof -
  have "get st ''k'' = (marshal_entries es, of_nat (Suc (length es)), OK)"
    using get_present [of st "''k''"] inv unfolding apps_ok_def by auto
  then have "client_read (get st ''k'') (cs ! i) = (cs ! i)\<lparr>apc := APut (of_nat (Suc (length es))) es\<rparr>"
    by (simp add: client_read_def)
  then show ?thesis using inv i by (auto simp: apps_ok_def app_ok_def nth_list_update)
qed

lemma apps_put:
  assumes inv: "apps_ok l es (st, cs)" and i: "i < length cs" "apc (cs ! i) = APut ver es'"
    and put: "put st ''k'' (marshal_entries (es' @ [\<lparr>en_Id = int i, en_N = iter (cs ! i)\<rparr>])) ver st' err"
    and bound: "applied st ''k'' < 2 ^ 64"
  shows "\<exists>es. apps_ok l es (st', cs[i := client_appended err (cs ! i)])"
proof -
  let ?c = "cs ! i" and ?n = "Suc (length es)"
  have st: "invar st" "applied st ''k'' = ?n" and c: "app_ok ?n es i ?c" and il: "i < l"
    using inv i by (auto simp: apps_ok_def)
  obtain m where m: "m \<le> ?n" "ver = of_nat m" "m = ?n \<longrightarrow> es' = es" using c i(2) unfolding app_ok_def by auto
  show ?thesis
  proof (cases "ver = of_nat ?n")
    case True
    have "m = ?n" using True m(1,2) bound st(2) by (metis of_nat_version_inject order.strict_trans1)
    then have p: "applied st' ''k'' = Suc ?n" "fst (get st' ''k'') = marshal_entries (es @ [\<lparr>en_Id = int i, en_N = iter ?c\<rparr>])"
        "err \<in> {OK, ErrMaybe}"
      using put_applied [OF st(1) put] st(2) m True by simp_all
    have "app_ok (Suc ?n) (es @ [\<lparr>en_Id = int i, en_N = iter ?c\<rparr>]) i (client_appended err ?c)"
      using c p(3) by (auto simp: app_ok_def client_appended_def increasing_snoc next_of_snoc)
    moreover have "app_ok (Suc ?n) (es @ [\<lparr>en_Id = int i, en_N = iter ?c\<rparr>]) j (cs ! j)" if "j \<noteq> i" "app_ok ?n es j (cs ! j)" for j
      using that by (auto simp: app_ok_def split: app_pc.splits intro: le_SucI)
    ultimately have "apps_ok l (es @ [\<lparr>en_Id = int i, en_N = iter ?c\<rparr>]) (st', cs[i := client_appended err ?c])"
      using inv il p invar_put [OF st(1) put] by (auto simp: apps_ok_def nth_list_update)
    then show ?thesis by blast
  next
    case False
    then have "st' = st" "err \<noteq> OK" using put_refused [OF st(1) put] st(2) by simp_all
    moreover have "app_ok ?n es i (client_appended err ?c)" if "err \<noteq> OK"
      using c that by (auto simp: app_ok_def client_appended_def)
    ultimately have "apps_ok l es (st', cs[i := client_appended err ?c])" using inv il by (auto simp: apps_ok_def nth_list_update)
    then show ?thesis by blast
  qed
qed

lemma app_step_mono:
  assumes "app_step get put s t" "invar (fst s)"
  shows "invar (fst t) \<and> applied (fst s) ''k'' \<le> applied (fst t) ''k''"
  using assms
proof cases
  case (app_put i cs ver es st st' err)
  have st: "invar st" using app_put assms(2) by simp
  note p = app_put(5)
  show ?thesis using invar_put [OF st p] put_applied [OF st p] put_refused [OF st p] app_put(1,2)
    by (cases "ver = of_nat (applied st ''k'')") auto
qed auto

lemma apps_reachable:
  assumes "reachable (st0, replicate l app_client0) (app_step get put) s"
    and st0: "invar st0" "applied st0 ''k'' = 1" "fst (get st0 ''k'') = marshal_entries []"
  shows "invar (fst s) \<and> (applied (fst s) ''k'' < 2 ^ 64 \<longrightarrow> (\<exists>es. apps_ok l es s))"
  using assms(1)
proof (induction rule: reachable.induct)
  case reach_init
  have "apps_ok l [] (st0, replicate l app_client0)"
    using st0 by (auto simp: apps_ok_def app_ok_def app_client0_def increasing_def next_of_def)
  then show ?case using st0 by auto
next
  case (reach_step s t)
  note mono = app_step_mono [OF reach_step.hyps(2)]
  have "\<exists>es. apps_ok l es t" if "applied (fst t) ''k'' < 2 ^ 64"
  proof -
    have bound: "applied (fst s) ''k'' < 2 ^ 64" using that mono reach_step.IH by (meson order.strict_trans1)
    then obtain es where "apps_ok l es s" using reach_step.IH by blast
    with reach_step.hyps(2) bound show ?thesis by cases (auto intro: apps_get apps_put)
  qed
  then show ?case using mono reach_step.IH by blast
qed

lemma apps_check:
  assumes inv: "apps_ok l es (st, cs)" and "applied st ''k'' < 2 ^ 63"
  shows "CheckAppends es l (map ares cs) (of_nat (applied st ''k'')) = Inr ()"
proof -
  have ok: "app_ok (Suc (length es)) es i (cs ! i)" if "i < l" for i using inv that by (simp add: apps_ok_def)
  have l: "length (map ares cs) = l" and ids: "\<forall>e\<in>set es. 0 \<le> en_Id e \<and> en_Id e < int (length (map ares cs))"
    and n: "applied st ''k'' = Suc (length es)" using inv by (auto simp: apps_ok_def)
  have "increasing (appended c es)" for c
  proof (cases "0 \<le> c \<and> c < int l")
    case True
    then have "nat c < l" "int (nat c) = c" by auto
    then show ?thesis using ok [of "nat c"] unfolding app_ok_def by metis
  next
    case False
    then have "\<forall>e\<in>set es. en_Id e \<noteq> c" using ids l by auto
    then have "appended c es = []" by (simp add: appended_def)
    then show ?thesis by (simp add: increasing_def)
  qed
  moreover have "sint (of_nat (applied st ''k'') :: Tversion) = int (length es) + 1"
    unfolding sint_of_nat_small [OF assms(2)] using n by simp
  moreover have "next_of (appended (int i) es) \<le> Nok (ares (cs ! i)) + Nmaybe (ares (cs ! i))"
    "Nok (ares (cs ! i)) \<le> int (length (appended (int i) es))" if "i < l" for i
    using ok [OF that] by (auto simp: app_ok_def)
  ultimately show ?thesis using CheckAppends_iff [OF ids] l by (fastforce simp: Let_def)
qed

end

text \<open>
  C35: the append test raises no false alarm. When any number of clients run \<open>OneClientAppend\<close> on a \<open>kvsrv1\<close> server whose
  key \<open>k\<close> was set to the empty list, over a lossy network and with arbitrarily interleaved calls, no client ends
  the test, and at every moment the stored list, which can be read, passes \<open>CheckAppends\<close>: the entries of each client are
  increasing, the version counts them, and the missing ones are covered by puts answered \<open>ErrMaybe\<close>; as long as the number of puts fits an
  \<open>int\<close>.
\<close>

theorem append_clients_pass:
  assumes "clerk_put counted_init ''k'' (marshal_entries []) 0 st0 err0"
    and "reachable (st0, replicate n app_client0) (app_step clerk_get clerk_put) (st, cs)" and "snd st ''k'' < 2 ^ 63"
  shows "(\<forall>c\<in>set cs. apc c \<noteq> AFailed) \<and>
    (\<exists>ver es ts'. GetJson unmarshal_entries ''k'' me (t, t', clerk_get st ''k'') ts = Inr (ver, es, ts') \<and>
       CheckAppends es n (map ares cs) ver = Inr ())"
proof -
  have i0: "counted_ok counted_init" "0 = (of_nat (snd counted_init ''k'') :: Tversion)"
    using kvsrv_clerk.invar_init by (auto simp: counted_init_def)
  note p = kvsrv_clerk.put_applied [OF i0(1) assms(1) i0(2)] kvsrv_clerk.invar_put [OF i0(1) assms(1)]
  have "snd (fst (st, cs)) ''k'' < 2 ^ 64" using assms(3) by simp
  then obtain es where inv: "kvsrv_clerk.apps_ok n es (st, cs)"
    using kvsrv_clerk.apps_reachable [OF assms(2)] p by (auto simp: counted_init_def)
  then have g: "clerk_get st ''k'' = (marshal_entries es, of_nat (snd st ''k''), OK)" and l: "length cs = n"
    and ok: "\<forall>i<n. app_ok (Suc (length es)) es i (cs ! i)"
    using kvsrv_clerk.get_present [of st "''k''"] unfolding kvsrv_clerk.apps_ok_def by auto
  have "apc c \<noteq> AFailed" if "c \<in> set cs" for c using that ok l by (auto simp: in_set_conv_nth app_ok_def)
  then show ?thesis using kvsrv_clerk.apps_check [OF inv assms(3)] g by (simp add: GetJson_def)
qed

text \<open>A client whose first append is answered \<open>ErrMaybe\<close>, although it was applied.\<close>

definition ex_list :: "EntryN list \<Rightarrow> nat \<Rightarrow> counted_store" where
  "ex_list es n = (\<lparr>KVStore = [''k'' \<mapsto> \<lparr>entry_Value = marshal_entries es, entry_Version = of_nat n\<rparr>]\<rparr>, (\<lambda>_. 0)(''k'' := n))"

lemma ex_list_put: "err \<in> {OK, ErrMaybe} \<Longrightarrow> clerk_put (ex_list es n) ''k'' (marshal_entries fs) (of_nat n) (ex_list fs (Suc n)) err"
  by (auto simp: clerk_put_def ex_list_def Server_Put_eq put_point_def put_applies_def put_err_def put_store_def key_version_def)

lemma ex_list_first: "err \<in> {OK, ErrMaybe} \<Longrightarrow> clerk_put counted_init ''k'' (marshal_entries []) 0 (ex_list [] (Suc 0)) err"
  by (auto simp: clerk_put_def ex_list_def counted_init_def MakeKVServer_def Server_Put_eq put_point_def put_applies_def
      put_err_def put_store_def key_version_def fun_eq_iff)

lemma append_clients_pass_witness:
  "\<exists>st (cs :: app_client list). snd st ''k'' = 2 \<and> AFailed \<notin> set (map apc cs) \<and> map ares cs = [\<lparr>Nok = 0, Nmaybe = 1\<rparr>] \<and>
    (\<exists>ver es ts'. GetJson unmarshal_entries ''k'' (-1) (0, 1, clerk_get st ''k'') ex_test = Inr (ver, es, ts') \<and>
       CheckAppends es 1 (map ares cs) ver = Inr ())"
proof -
  let ?S = "app_step clerk_get clerk_put" and ?c = app_client0
  let ?r = "client_read (clerk_get (ex_list [] (Suc 0)) ''k'') ?c" and ?e = "\<lparr>en_Id = 0, en_N = 0\<rparr>"
  let ?d = "client_appended ErrMaybe ?r"
  have g: "clerk_get (ex_list [] (Suc 0)) ''k'' = (marshal_entries [], 1, OK)"
    by (simp add: clerk_get_def ex_list_def Server_Get_eq key_value_def key_version_def)
  have read: "?r = \<lparr>apc = APut 1 [], iter = 0, ares = \<lparr>Nok = 0, Nmaybe = 0\<rparr>\<rparr>"
    by (simp add: g client_read_def app_client0_def)
  have 1: "?S (ex_list [] (Suc 0), [?c]) (ex_list [] (Suc 0), [?r])"
    using app_get [of 0 "[?c]" clerk_get clerk_put "ex_list [] (Suc 0)"] by (simp add: app_client0_def)
  have 2: "?S (ex_list [] (Suc 0), [?r]) (ex_list [?e] (Suc (Suc 0)), [?d])"
    using app_put [of 0 "[?r]" 1 "[]" clerk_put "ex_list [] (Suc 0)" "ex_list [?e] (Suc (Suc 0))" ErrMaybe clerk_get]
      ex_list_put [of ErrMaybe "[]" "Suc 0" "[?e]"]
    by (simp add: read)
  have r: "reachable (ex_list [] (Suc 0), replicate 1 ?c) ?S (ex_list [?e] (Suc (Suc 0)), [?d])"
    using 1 2 unfolding reachable_iff_rtranclp by (auto intro: rtranclp.rtrancl_into_rtrancl)
  have n: "snd (ex_list [?e] (Suc (Suc 0))) ''k'' = 2" and d: "map ares [?d] = [\<lparr>Nok = 0, Nmaybe = 1\<rparr>]"
    by (simp add: ex_list_def) (simp add: read client_appended_def)
  then have "snd (ex_list [?e] (Suc (Suc 0))) ''k'' < 2 ^ 63" by simp
  note pass = append_clients_pass [OF ex_list_first [of OK, simplified] r this, of "-1" 0 1 ex_test]
  show ?thesis
    using pass [THEN conjunct1]
    by (intro exI [of _ "ex_list [?e] (Suc (Suc 0))"] exI [of _ "[?d]"] conjI pass [THEN conjunct2] n d) auto
qed

section \<open>PutAtLeastOnce\<close>

text \<open>
  The puts that \<open>PutAtLeastOnce\<close> makes from version \<open>ver\<close> on when nobody else writes the key, up to the one that
  makes it return: their results, and the store after each of them.
\<close>

inductive palo_puts :: "('s \<Rightarrow> string \<Rightarrow> string \<Rightarrow> Tversion \<Rightarrow> 's \<Rightarrow> Err \<Rightarrow> bool) \<Rightarrow> string \<Rightarrow> string \<Rightarrow>
    's \<Rightarrow> Tversion \<Rightarrow> Err list \<Rightarrow> 's \<Rightarrow> bool"
  for put key val where
  palo_last: "put st key val ver st' err \<Longrightarrow> (\<forall>v. palo_next ver err \<noteq> PaloAgain v) \<Longrightarrow> palo_puts put key val st ver [err] st'"
| palo_more: "put st key val ver st1 err \<Longrightarrow> palo_next ver err = PaloAgain v \<Longrightarrow> palo_puts put key val st1 v errs st' \<Longrightarrow>
     palo_puts put key val st ver (err # errs) st'"

context ikv_clerk
begin

lemma palo_puts_applied:
  assumes "palo_puts put key val st ver errs st'" "invar st" "ver = of_nat (applied st key)" "map (snd \<circ> snd) calls = errs"
  shows "applied st' key = applied st key + length errs \<and> get st' key = (val, of_nat (applied st' key), OK) \<and>
    (\<exists>ts'. palo_loop key val me ver calls ts = Some (Inr (of_nat (applied st' key), ts')))"
  using assms
proof (induction arbitrary: calls ts)
  case (palo_last st ver st' err)
  note p = put_applied [OF palo_last.prems(1) palo_last.hyps(1) palo_last.prems(2)]
    and i = invar_put [OF palo_last.prems(1) palo_last.hyps(1)]
  have err: "err = OK" using p palo_last.hyps(2) by (auto simp: palo_next_def)
  have "get st' key = (val, of_nat (applied st' key), OK)" using get_present [OF i, of key] p by simp
  then show ?case using p palo_last.prems err by (auto simp: palo_next_def Let_def)
next
  case (palo_more st ver st1 err v errs st')
  note p = put_applied [OF palo_more.prems(1) palo_more.hyps(1) palo_more.prems(2)]
    and i = invar_put [OF palo_more.prems(1) palo_more.hyps(1)]
  have v: "v = of_nat (applied st1 key)" using p palo_more.hyps(2) palo_more.prems(2) by (auto simp: palo_next_def)
  obtain call cs where calls: "calls = call # cs" "snd (snd call) = err" "map (snd \<circ> snd) cs = errs"
    using palo_more.prems(3) by (cases calls) auto
  have "palo_loop key val me ver calls ts =
      palo_loop key val me v cs (Test_Put \<lparr>put_Key = key, put_Value = val, put_Version = ver\<rparr> me call ts)"
    using calls palo_more.hyps(2) by (simp add: Let_def)
  then show ?case using palo_more.IH [OF i v calls(3)] p by (metis add_Suc_shift length_Cons)
qed

end

text \<open>
  \<open>PutAtLeastOnce\<close> is safe for a key with a single writer. Started with the current version of the key, it never
  ends the test, returns the version at the server, has applied one put for every attempt, and the \<open>CheckGet\<close> of the
  value and the returned version that follows passes, once a test has begun.
\<close>

theorem PutAtLeastOnce_then_CheckGet:
  assumes "counted_ok st" "palo_puts clerk_put key val st ver errs st'" "ver = of_nat (snd st key)"
    and "map (snd \<circ> snd) calls = errs" "finfo (snd s) = Some fi"
  shows "\<exists>v s' s''. PutAtLeastOnce key val ver me calls t s = Some (Inr (v, s')) \<and> v = ver + of_nat (length errs) \<and>
    snd st' key = snd st key + length errs \<and>
    CheckGet key val v t1 (t2, t3, clerk_get st' key) t4 s' = Inr s''"
proof -
  obtain ts' where r: "snd st' key = snd st key + length errs" "clerk_get st' key = (val, of_nat (snd st' key), OK)"
    "palo_loop key val me ver calls (fst s) = Some (Inr (of_nat (snd st' key), ts'))"
    using kvsrv_clerk.palo_puts_applied [OF assms(2,1,3,4), of me "fst s"] by blast
  then show ?thesis using assms(3,5)
    by (simp add: PutAtLeastOnce_def CheckGet_def Let_def AnnotateInfo_def AnnotatePointColor_def on_annotation_def
        AnnotateCheckerBegin_def AnnotateCheckerSuccess_def AnnotateCheckerEnd_def)
qed

text \<open>The reply to the first put is lost, so the value is written twice.\<close>

lemma PutAtLeastOnce_then_CheckGet_witness:
  "\<exists>v s' s''. PutAtLeastOnce ''k'' (marshal_entries []) 0 0 [(0, 1, ErrMaybe), (2, 3, OK)] 4
      (ex_test, globals0\<lparr>finfo := Some (mkFrameworkInfo 1)\<rparr>) = Some (Inr (v, s')) \<and> v = 2 \<and>
    CheckGet ''k'' (marshal_entries []) v 5 (6, 7, clerk_get (ex_list [] (Suc (Suc 0))) ''k'') 8 s' = Inr s''"
proof -
  have "palo_puts clerk_put ''k'' (marshal_entries []) (ex_list [] (Suc 0)) 1 [OK] (ex_list [] (Suc (Suc 0)))"
    using ex_list_put [of OK "[]" "Suc 0" "[]"] by (intro palo_last) (auto simp: palo_next_def)
  then have "palo_puts clerk_put ''k'' (marshal_entries []) counted_init 0 [ErrMaybe, OK] (ex_list [] (Suc (Suc 0)))"
    using ex_list_first [of ErrMaybe] by (auto intro: palo_more [where v = 1] simp: palo_next_def)
  from PutAtLeastOnce_then_CheckGet [OF kvsrv_clerk.invar_init this, of "[(0, 1, ErrMaybe), (2, 3, OK)]"
      "(ex_test, globals0\<lparr>finfo := Some (mkFrameworkInfo 1)\<rparr>)" "mkFrameworkInfo 1" 0 4 5 6 7 8]
  show ?thesis by (auto simp: counted_init_def)
qed

section \<open>The partitioner\<close>

definition test_grp_ok :: "(nat \<Rightarrow> string) \<Rightarrow> int \<Rightarrow> nat \<Rightarrow> 'svc KvTest \<Rightarrow> 'svc ServerGrp \<Rightarrow> bool" where
  "test_grp_ok rnd gid n ts sg \<longleftrightarrow> Group gid (kt_cfg ts) = Some sg \<and> grp_inv rnd n (sg, cfg_shared (kt_cfg ts))"

lemma partition_half_sets:
  "set (partition_half (map (\<lambda>i. rs i mod 2) [0..<n]) b) = {i. i < n \<and> rs i mod 2 = b}"
  by (auto simp: partition_half_def)

lemma partition_round_ok:
  assumes "test_grp_ok rnd gid n ts sg"
  shows "\<exists>ts' g' sg'. partition_round gid (rs, t) (ts, g) = Inr (ts', g') \<and> test_grp_ok rnd gid n ts' sg' \<and>
    separated {i. i < n \<and> rs i mod 2 = 0} {i. i < n \<and> rs i mod 2 = 1} (grp_links n (sg', cfg_shared (kt_cfg ts')))"
proof -
  let ?a = "map (\<lambda>i. rs i mod 2) [0..<n]" and ?cfg = "kt_cfg ts"
  let ?p0 = "partition_half ?a 0" and ?p1 = "partition_half ?a 1"
  have inv: "grp_inv rnd n (sg, cfg_shared ?cfg)" and grp: "Group gid ?cfg = Some sg" using assms by (auto simp: test_grp_ok_def)
  have n: "sg_N sg = n" using grp_inv_lengths [OF inv] by (simp add: sg_N_def)
  obtain sg' sh where p: "sg_Partition ?p0 ?p1 (sg, cfg_shared ?cfg) = Inr (sg', sh)" "grp_inv rnd n (sg', sh)"
      "separated (set ?p0) (set ?p1) (grp_links n (sg', sh))"
    using sg_Partition_ok [OF inv, of ?p0 ?p1] unfolding partition_half_sets by force
  let ?ts = "ts\<lparr>kt_cfg := ?cfg\<lparr>cfg_groups := assoc_put gid sg' (cfg_groups ?cfg), cfg_shared := sh\<rparr>\<rparr>"
  have "partition_round gid (rs, t) (ts, g) = Inr (?ts, AnnotateTwoPartitions t ?p0 ?p1 g)"
    using grp n p(1) by (simp add: partition_round_def with_group_def Let_def)
  moreover have "test_grp_ok rnd gid n ?ts sg'"
    using p(2) by (simp add: test_grp_ok_def Group_def lookupGroup_def map_of_assoc_put)
  ultimately show ?thesis using p(3) unfolding partition_half_sets by auto
qed

text \<open>
  The partitioner never fails and does what it says: in a group in working order, each of its rounds keeps the group in
  working order and leaves no link between servers with different random bits; in particular after the last round.
\<close>

theorem Partitioner_separates:
  assumes "test_grp_ok rnd gid n ts sg"
  shows "\<exists>ts' g' sg'. Partitioner gid (rounds @ [(rs, t)]) (ts, g) = Inr (ts', g') \<and> test_grp_ok rnd gid n ts' sg' \<and>
    separated {i. i < n \<and> rs i mod 2 = 0} {i. i < n \<and> rs i mod 2 = 1} (grp_links n (sg', cfg_shared (kt_cfg ts')))"
  using assms
proof (induction rounds arbitrary: ts sg g)
  case Nil
  then show ?case using partition_round_ok [OF Nil, of rs t g] by (auto simp: Partitioner_def)
next
  case (Cons r rounds)
  obtain rs' t' where r: "r = (rs', t')" by (cases r)
  obtain ts1 g1 sg1 where 1: "partition_round gid r (ts, g) = Inr (ts1, g1)" "test_grp_ok rnd gid n ts1 sg1"
    using partition_round_ok [OF Cons.prems, of rs' t' g] r by blast
  show ?case using Cons.IH [OF 1(2), of g1] 1(1) by (simp add: Partitioner_def)
qed

lemma Partitioner_separates_witness:
  "\<exists>(ts :: nat KvTest) sg ts' g' sg'. test_grp_ok letters 0 3 ts sg \<and>
     Partitioner 0 [(\<lambda>_. 5, 1), (\<lambda>i. i, 2)] (ts, globals0) = Inr (ts', g') \<and>
     \<not> l_link (grp_links 3 (sg', cfg_shared (kt_cfg ts'))) 0 1 \<and> l_link (grp_links 3 (sg', cfg_shared (kt_cfg ts'))) 0 2"
proof -
  have "names_inv letters (shared0 :: nat shared)" using letters_inj by (simp add: names_inv_def shared0_def MakeNetwork_def)
  from makeSrvGrp_ok [OF this, of 0 3] obtain sg and sh :: "nat shared" where inv: "grp_inv letters 3 (sg, sh)" by auto
  let ?ts = "ex_test\<lparr>kt_cfg := (kt_cfg ex_test)\<lparr>cfg_groups := [(0, sg)], cfg_shared := sh\<rparr>\<rparr>"
  have ok: "test_grp_ok letters 0 3 ?ts sg" using inv by (simp add: test_grp_ok_def Group_def lookupGroup_def)
  obtain ts' g' sg' where p: "Partitioner 0 [(\<lambda>_. 5, 1), (\<lambda>i. i, 2)] (?ts, globals0) = Inr (ts', g')"
      "separated {i. i < 3 \<and> i mod 2 = 0} {i. i < 3 \<and> i mod 2 = 1} (grp_links 3 (sg', cfg_shared (kt_cfg ts')))"
    using Partitioner_separates [OF ok, of "[(\<lambda>_. 5, 1)]" "\<lambda>i. i" 2 globals0] by auto
  have link: "l_link (grp_links 3 (sg', cfg_shared (kt_cfg ts'))) a b \<longleftrightarrow> (even a \<longleftrightarrow> even b)" if "a < 3" "b < 3" for a b
  proof -
    have "a \<in> {i. i < 3 \<and> i mod 2 = 0} \<union> {i. i < 3 \<and> i mod 2 = 1}" "b \<in> {i. i < 3 \<and> i mod 2 = 0} \<union> {i. i < 3 \<and> i mod 2 = 1}"
      using that by auto
    then show ?thesis using p(2) that unfolding separated_def by (simp add: even_iff_mod_2_eq_zero)
  qed
  show ?thesis
    by (rule exI [of _ ?ts], rule exI [of _ sg], rule exI [of _ ts'], rule exI [of _ g'], rule exI [of _ sg'])
      (simp add: ok p(1) link)
qed

end
