(* ===== verification/Kv_Raft.thy ===== *)
theory Kv_Raft
  imports Rsm Kv_Test_Clients
begin

text \<open>
  \<open>kvraft1/client.go\<close> and \<open>kvraft1/server.go\<close>: the key/value service over the replicated state machine, as far as it is
  written: the server is constructed, killed and registered, its handlers leave the replies as they are, and the
  calls of the clerk return zero values without sending anything.
\<close>

section \<open>Clerk\<close>

record kvr_Clerk =
  kc_clnt :: nat
  kc_servers :: "string list"

definition kvr_MakeClerk :: "nat \<Rightarrow> string list \<Rightarrow> kvr_Clerk" where
  "kvr_MakeClerk clnt srvs = \<lparr>kc_clnt = clnt, kc_servers = srvs\<rparr>"

definition kvr_Clerk_Get :: "kvr_Clerk \<Rightarrow> string \<Rightarrow> get_result" where
  "kvr_Clerk_Get ck key = ('''', 0, ErrUnset)"

definition kvr_Clerk_Put :: "kvr_Clerk \<Rightarrow> string \<Rightarrow> string \<Rightarrow> Tversion \<Rightarrow> Err" where
  "kvr_Clerk_Put ck key val version = ErrUnset"

section \<open>Server\<close>

record kvr_KVServer =
  ks_me :: nat
  ks_dead :: int32
  ks_rsm :: "RSM option"

definition kvr_DoOp :: "any \<Rightarrow> kvr_KVServer \<Rightarrow> kvr_KVServer \<times> any" where
  "kvr_DoOp req kv = (kv, AnyNil)"

definition kvr_Snapshot :: "kvr_KVServer \<Rightarrow> slice" where
  "kvr_Snapshot kv = None"

definition kvr_Restore :: "bytes \<Rightarrow> kvr_KVServer \<Rightarrow> kvr_KVServer" where
  "kvr_Restore data kv = kv"

definition kvr_Get :: "kvr_KVServer \<Rightarrow> GetArgs \<Rightarrow> GetReply \<Rightarrow> GetReply" where
  "kvr_Get kv args reply = reply"

definition kvr_Put :: "kvr_KVServer \<Rightarrow> PutArgs \<Rightarrow> PutReply \<Rightarrow> PutReply" where
  "kvr_Put kv args reply = reply"

definition kvr_Kill :: "kvr_KVServer \<Rightarrow> kvr_KVServer" where
  "kvr_Kill kv = kv\<lparr>ks_dead := 1\<rparr>"

definition kvr_killed :: "kvr_KVServer \<Rightarrow> bool" where
  "kvr_killed kv \<longleftrightarrow> ks_dead kv = 1"

text \<open>The structs of \<open>kvsrv1/rpc\<close> and of \<open>rsm\<close> that the server registers.\<close>

definition kvr_types :: types where
  "kvr_types = [(''Op'', Struct []), (''PutArgs'', Struct [(''Key'', ''string''), (''Value'', ''string''), (''Version'', ''Tversion'')]),
     (''GetArgs'', Struct [(''Key'', ''string'')])]"

definition put_value :: iface where
  "put_value = Some (''PutArgs'', VStruct [(''Key'', False, VScalar ''string'' (SString [])), (''Value'', False, VScalar ''string'' (SString [])),
     (''Version'', False, VScalar ''Tversion'' (SUint 0))])"

definition get_value :: iface where
  "get_value = Some (''GetArgs'', VStruct [(''Key'', False, VScalar ''string'' (SString []))])"

text \<open>The services of a server; a nil Raft interface is possible.\<close>

datatype service = SvcKV kvr_KVServer | SvcRaft "Raft option"

definition kvr_StartKVServer :: "(iface \<Rightarrow> 'g \<Rightarrow> 'g) \<Rightarrow> bool \<Rightarrow> ClientEnd list \<Rightarrow> nat \<Rightarrow> Persister \<Rightarrow> heap \<Rightarrow> int \<Rightarrow> int \<Rightarrow> int \<Rightarrow>
    labgob \<times> 'g \<Rightarrow> ((labgob \<times> 'g) \<times> service list) go option" where
  "kvr_StartKVServer greg useRaftStateMachine cends i ps h now rnd maxraftstate st =
     (case register_all kvr_types greg [Some (''Op'', VStruct []), put_value, get_value] st of
        None \<Rightarrow> None
      | Some (Inl p) \<Rightarrow> Some (Inl p)
      | Some (Inr st) \<Rightarrow>
          let rsm = MakeRSM useRaftStateMachine cends i ps h now rnd maxraftstate;
              kv = \<lparr>ks_me = i, ks_dead = 0, ks_rsm = Some rsm\<rparr>
          in Some (Inr (st, [SvcKV kv, SvcRaft (RSM_Raft rsm)])))"

section \<open>The types of the services are sound\<close>

text \<open>A server starts without a complaint, with its two services.\<close>

lemma kvr_StartKVServer_ok:
  assumes "types_closed kvr_types s"
  shows "\<exists>s' g' kv. kvr_StartKVServer greg False cends i ps h now rnd m (s, g) =
      Some (Inr ((s', g'), [SvcKV kv, SvcRaft (Some (Raft_Make cends (int i) ps h now rnd))])) \<and>
    errorCount s' = errorCount s \<and> \<not> kvr_killed kv \<and> kvr_killed (kvr_Kill kv)"
proof -
  have "\<forall>u. lower_case_fields kvr_types u = []"
    by (intro allI no_lower_case_fields) (simp add: kvr_types_def is_upper_def)
  then show ?thesis using register_all_ok [OF assms, of "[Some (''Op'', VStruct []), put_value, get_value]" greg g]
    by (auto simp: kvr_StartKVServer_def put_value_def get_value_def MakeRSM_def RSM_Raft_def kvr_killed_def kvr_Kill_def Let_def)
qed

section \<open>The tests fail on the unfinished clerk\<close>

text \<open>
  What the tests do with a clerk whose calls return zero values: a put client and a check of a value end the test at their
  first call, and \<open>PutAtLeastOnce\<close> from version zero retries for ever, because it takes the empty error for a failed
  put on a new key.
\<close>

lemma zero_clerk_OnePut: "OnePut cli key ver (((s, e, ErrUnset), g) # calls) ts = Some (Inl TestFatal)"
  by (simp add: PutJson_def one_put_err_def)

lemma zero_clerk_CheckGet:
  "finfo g \<noteq> None \<Longrightarrow> CheckGet key val version t (s, e, v, ver, ErrUnset) t' (ts, g) = Inl TestFatal"
  by (auto simp: CheckGet_def AnnotateCheckerBegin_def check_failed_def AnnotateCheckerFailure_def AnnotateCheckerEnd_def Let_def)

lemma zero_clerk_palo: "set (map (snd \<circ> snd) calls) \<subseteq> {ErrUnset} \<Longrightarrow> palo_loop key val cli 0 calls ts = None"
  by (induction calls arbitrary: ts) (auto simp: palo_next_def Let_def)

text \<open>
  Every test of the replicated key/value service fails. With the clerk of \<open>kvraft1\<close>, a put client ends the test with its first
  put, and so does a check of a value with its get; \<open>PutAtLeastOnce\<close> on a new key does not return, however many
  times it puts.
\<close>

theorem kvraft_tests_fail:
  assumes "finfo g \<noteq> None"
  shows "OnePut cli key ver (((s, e, kvr_Clerk_Put ck key w ver), r) # calls) ts = Some (Inl TestFatal) \<and>
    CheckGet key val version t (s, e, kvr_Clerk_Get ck key) t' (ts, g) = Inl TestFatal \<and>
    PutAtLeastOnce key val 0 cli (map (\<lambda>(s, e). (s, e, kvr_Clerk_Put ck key val 0)) tms) t (ts, g) = None"
proof (intro conjI)
  have "set (map (snd \<circ> snd) (map (\<lambda>(s, e). (s, e, kvr_Clerk_Put ck key val 0)) tms)) \<subseteq> {ErrUnset}"
    by (auto simp: kvr_Clerk_Put_def)
  then show "PutAtLeastOnce key val 0 cli (map (\<lambda>(s, e). (s, e, kvr_Clerk_Put ck key val 0)) tms) t (ts, g) = None"
    by (simp add: PutAtLeastOnce_def zero_clerk_palo)
qed (use assms in \<open>simp_all add: kvr_Clerk_Put_def kvr_Clerk_Get_def zero_clerk_OnePut zero_clerk_CheckGet del: OnePut.simps\<close>)

lemma kvraft_tests_fail_witness:
  "CheckGet ''k'' ''v'' 1 0 (1, 2, kvr_Clerk_Get (kvr_MakeClerk 0 []) ''k'') 3
     (ex_test, globals0\<lparr>finfo := Some (mkFrameworkInfo 1)\<rparr>) = Inl TestFatal"
  using kvraft_tests_fail [where g = "globals0\<lparr>finfo := Some (mkFrameworkInfo 1)\<rparr>" and key = "''k''" and val = "''v''" and version = 1
      and t = 0 and s = 1 and e = 2 and t' = 3 and ck = "kvr_MakeClerk 0 []" and ts = ex_test] by simp

end
