(* ===== verification/Shardcfg.thy ===== *)
theory Shardcfg
  imports Go_Lib "HOL-Library.While_Combinator"
begin

text \<open>
  \<open>shardkv1/shardcfg/shardcfg.go\<close>: configurations that assign the twelve shards of the key space to
  replica groups, their changes by Join and Leave, and the balancing of the load. The map from
  groups to servers is an association list without repeated keys; its order stands for the order in
  which a Go map happens to be traversed, so a statement for all lists covers every traversal.
  The loop that moves shards has no bound in the code and is a \<open>while_option\<close>, whose value \<open>None\<close>
  means that it never ends.
\<close>

section \<open>Keys and configurations\<close>

type_synonym Tshid = int
type_synonym Tnum = int
type_synonym Tgid = int

definition NShards :: nat where
  "NShards = 12"

definition NumFirst :: Tnum where
  "NumFirst = 1"

definition Key2Shard :: "string \<Rightarrow> Tshid" where
  "Key2Shard key = uint (fnv32a (string_bytes key)) mod int NShards"

record ShardConfig =
  Num :: Tnum
  Shards :: "Tgid list"
  Groups :: "(Tgid \<times> string list) list"

definition MakeShardConfig :: ShardConfig where
  "MakeShardConfig = \<lparr>Num = 0, Shards = replicate NShards 0, Groups = []\<rparr>"

definition Copy :: "ShardConfig \<Rightarrow> ShardConfig" where
  "Copy cfg =
     (let c = MakeShardConfig\<lparr>Num := Num cfg, Shards := Shards cfg\<rparr>
      in fold (\<lambda>(k, srvs) c. c\<lparr>Groups := Groups c @ [(k, srvs)]\<rparr>) (Groups cfg) c)"

definition gids :: "ShardConfig \<Rightarrow> Tgid list" where
  "gids c = map fst (Groups c)"

section \<open>Balancing\<close>

definition count_shards :: "Tgid list \<Rightarrow> (Tgid \<rightharpoonup> int)" where
  "count_shards shards = fold (\<lambda>g m. m(g \<mapsto> map_get m 0 g + 1)) shards Map.empty"

definition analyze_step :: "(Tgid \<rightharpoonup> int) \<Rightarrow> Tgid \<Rightarrow> Tgid \<times> int \<times> Tgid \<times> int \<Rightarrow> Tgid \<times> int \<times> Tgid \<times> int" where
  "analyze_step counts g = (\<lambda>(mg, mn, lg, ln).
     let n = map_get counts 0 g;
         (lg, ln) = (if n < ln then (g, n) else (lg, ln));
         (mg, mn) = (if n > mn then (g, n) else (mg, mn))
     in (mg, mn, lg, ln))"

definition analyze :: "ShardConfig \<Rightarrow> Tgid \<times> int \<times> Tgid \<times> int" where
  "analyze c = fold (analyze_step (count_shards (Shards c))) (sort (gids c)) (-1, -1, -1, 257)"

definition least :: "ShardConfig \<Rightarrow> Tgid" where
  "least c = (case analyze c of (_, _, lg, _) \<Rightarrow> lg)"

text \<open>\<open>range\<close> over an array iterates over a copy of it, paired here with the positions.\<close>

definition assign_step :: "nat \<times> Tgid \<Rightarrow> ShardConfig \<Rightarrow> ShardConfig" where
  "assign_step = (\<lambda>(s, g) c. if map_of (Groups c) g = None then c\<lparr>Shards := (Shards c)[s := least c]\<rparr> else c)"

definition assign_all :: "ShardConfig \<Rightarrow> ShardConfig" where
  "assign_all c = fold assign_step (enumerate 0 (Shards c)) c"

fun move_one :: "Tgid \<Rightarrow> Tgid \<Rightarrow> Tgid list \<Rightarrow> Tgid list" where
  "move_one mg lg [] = []"
| "move_one mg lg (g # gs) = (if g = mg then lg # gs else g # move_one mg lg gs)"

definition unbalanced :: "ShardConfig \<Rightarrow> bool" where
  "unbalanced c \<longleftrightarrow> (case analyze c of (_, mn, _, ln) \<Rightarrow> \<not> mn < ln + 2)"

definition balance_step :: "ShardConfig \<Rightarrow> ShardConfig" where
  "balance_step c = (case analyze c of (mg, _, lg, _) \<Rightarrow> c\<lparr>Shards := move_one mg lg (Shards c)\<rparr>)"

definition Rebalance :: "ShardConfig \<Rightarrow> ShardConfig option" where
  "Rebalance c =
     (if length (Groups c) < 1 then Some (c\<lparr>Shards := map (\<lambda>_. 0) (Shards c)\<rparr>)
      else while_option unbalanced balance_step (assign_all c))"

section \<open>Changes\<close>

text \<open>
  The results are the configuration and the return value; \<open>log.Fatalf\<close> ends the process. Go stops
  at the first group that is already present, with what it has changed so far.
\<close>

fun Join_loop :: "bool \<Rightarrow> (Tgid \<times> string list) list \<Rightarrow> ShardConfig \<Rightarrow> (ShardConfig \<times> bool) go" where
  "Join_loop changed [] cfg =
     (if \<not> changed then Inl LogFatal else Inr (cfg\<lparr>Num := Num cfg + 1\<rparr>, True))"
| "Join_loop changed ((gid, servers) # rest) cfg =
     (if map_of (Groups cfg) gid \<noteq> None then Inr (cfg, False)
      else if list_ex (\<lambda>(xgid, xservers). list_ex (\<lambda>s1. list_ex (\<lambda>s2. s1 = s2) servers) xservers) (Groups cfg)
      then Inl LogFatal
      else Join_loop True rest (cfg\<lparr>Groups := Groups cfg @ [(gid, servers)]\<rparr>))"

definition Join :: "(Tgid \<times> string list) list \<Rightarrow> ShardConfig \<Rightarrow> (ShardConfig \<times> bool) go" where
  "Join servers cfg = Join_loop False servers cfg"

fun Leave_loop :: "bool \<Rightarrow> Tgid list \<Rightarrow> ShardConfig \<Rightarrow> (ShardConfig \<times> bool) go" where
  "Leave_loop changed [] cfg =
     (if \<not> changed then Inl LogFatal else Inr (cfg\<lparr>Num := Num cfg + 1\<rparr>, True))"
| "Leave_loop changed (gid # rest) cfg =
     (if map_of (Groups cfg) gid = None then Inr (cfg, False)
      else Leave_loop True rest (cfg\<lparr>Groups := filter (\<lambda>(k, _). k \<noteq> gid) (Groups cfg)\<rparr>))"

definition Leave :: "Tgid list \<Rightarrow> ShardConfig \<Rightarrow> (ShardConfig \<times> bool) go" where
  "Leave gs cfg = Leave_loop False gs cfg"

text \<open>The outer option of the balanced forms is \<open>None\<close> if balancing does not end.\<close>

definition rebalanced :: "(ShardConfig \<times> bool) go \<Rightarrow> (ShardConfig \<times> bool) go option" where
  "rebalanced r = (case r of
      Inl p \<Rightarrow> Some (Inl p)
    | Inr (cfg, ok) \<Rightarrow> if \<not> ok then Some (Inr (cfg, False))
                      else map_option (\<lambda>c. Inr (c, True)) (Rebalance cfg))"

definition JoinBalance :: "(Tgid \<times> string list) list \<Rightarrow> ShardConfig \<Rightarrow> (ShardConfig \<times> bool) go option" where
  "JoinBalance servers cfg = rebalanced (Join servers cfg)"

definition LeaveBalance :: "Tgid list \<Rightarrow> ShardConfig \<Rightarrow> (ShardConfig \<times> bool) go option" where
  "LeaveBalance gs cfg = rebalanced (Leave gs cfg)"

definition GidServers :: "Tshid \<Rightarrow> ShardConfig \<Rightarrow> (Tgid \<times> string list \<times> bool) go" where
  "GidServers sh cfg = (case go_index (Shards cfg) sh of
      Inl p \<Rightarrow> Inl p
    | Inr gid \<Rightarrow> Inr (gid, case map_of (Groups cfg) gid of None \<Rightarrow> ([], False) | Some srvs \<Rightarrow> (srvs, True)))"

definition IsMember :: "Tgid \<Rightarrow> ShardConfig \<Rightarrow> bool" where
  "IsMember gid cfg = list_ex (\<lambda>g. g = gid) (Shards cfg)"

definition CheckConfig :: "Tgid list \<Rightarrow> ShardConfig \<Rightarrow> unit go" where
  "CheckConfig groups cfg =
     (if length (Groups cfg) \<noteq> length groups then Inl TestFatal
      else if list_ex (\<lambda>g. map_of (Groups cfg) g = None) groups then Inl TestFatal
      else if length groups > 0 \<and> list_ex (\<lambda>g. map_of (Groups cfg) g = None) (Shards cfg) then Inl TestFatal
      else let counts = count_shards (Shards cfg);
               (mx, mn) = fold (\<lambda>(g, _) (mx, mn).
                  (if map_get counts 0 g > mx then map_get counts 0 g else mx,
                   if map_get counts 0 g < mn then map_get counts 0 g else mn)) (Groups cfg) (0, 257)
           in if mx > mn + 1 then Inl TestFatal else Inr ())"

section \<open>Counting\<close>

definition load :: "ShardConfig \<Rightarrow> Tgid \<Rightarrow> int" where
  "load c g = int (count_list (Shards c) g)"

lemma map_get_upd [simp]: "map_get (m(k \<mapsto> v)) z k' = (if k' = k then v else map_get m z k')"
  by (simp add: map_get_def)

lemma map_get_empty [simp]: "map_get Map.empty z k = z"
  by (simp add: map_get_def)

lemma count_shards_fold:
  "map_get (fold (\<lambda>g m. m(g \<mapsto> map_get m 0 g + 1)) gs m) 0 g = map_get m 0 g + int (count_list gs g)"
  by (induction gs arbitrary: m) auto

lemma count_shards_load [simp]: "map_get (count_shards (Shards c)) 0 g = load c g"
  by (simp add: count_shards_def count_shards_fold load_def)

lemma load_bounds: "0 \<le> load c g" "load c g \<le> int (length (Shards c))"
  by (simp_all add: load_def count_le_length)

text \<open>What the scan over the sorted groups finds: a group of maximal and one of minimal load.\<close>

lemma analyze_fold:
  assumes "fold (analyze_step counts) gs (mg, mn, lg, ln) = (mg', mn', lg', ln')"
  shows "mn \<le> mn' \<and> ln' \<le> ln \<and> (\<forall>g\<in>set gs. map_get counts 0 g \<le> mn' \<and> ln' \<le> map_get counts 0 g) \<and>
    ((mg', mn') = (mg, mn) \<or> (mg' \<in> set gs \<and> map_get counts 0 mg' = mn')) \<and>
    ((lg', ln') = (lg, ln) \<or> (lg' \<in> set gs \<and> map_get counts 0 lg' = ln'))"
  using assms
proof (induction gs arbitrary: mg mn lg ln)
  case (Cons g gs)
  obtain mg1 mn1 lg1 ln1 where step: "analyze_step counts g (mg, mn, lg, ln) = (mg1, mn1, lg1, ln1)"
    by (cases "analyze_step counts g (mg, mn, lg, ln)")
  have one: "mn1 = max mn (map_get counts 0 g)" "ln1 = min ln (map_get counts 0 g)"
    "(mg1, mn1) = (mg, mn) \<or> (mg1 = g \<and> mn1 = map_get counts 0 g)"
    "(lg1, ln1) = (lg, ln) \<or> (lg1 = g \<and> ln1 = map_get counts 0 g)"
    using step by (auto simp: analyze_step_def Let_def split: if_splits)
  have "fold (analyze_step counts) gs (mg1, mn1, lg1, ln1) = (mg', mn', lg', ln')"
    using Cons.prems step by simp
  from Cons.IH [OF this] one show ?case by auto
qed simp

definition cfg_wf :: "ShardConfig \<Rightarrow> bool" where
  "cfg_wf c \<longleftrightarrow> length (Shards c) = NShards \<and> distinct (gids c)"

lemma analyze_spec:
  assumes "cfg_wf c" "Groups c \<noteq> []" "analyze c = (mg, mn, lg, ln)"
  shows "mg \<in> set (gids c)" "load c mg = mn" "lg \<in> set (gids c)" "load c lg = ln"
    "\<And>g. g \<in> set (gids c) \<Longrightarrow> ln \<le> load c g \<and> load c g \<le> mn"
proof -
  have *: "(\<forall>g\<in>set (gids c). load c g \<le> mn \<and> ln \<le> load c g) \<and>
    ((mg, mn) = (-1, -1) \<or> (mg \<in> set (gids c) \<and> load c mg = mn)) \<and>
    ((lg, ln) = (-1, 257) \<or> (lg \<in> set (gids c) \<and> load c lg = ln))"
    using analyze_fold [OF assms(3) [unfolded analyze_def]] by simp
  obtain g where "g \<in> set (gids c)" using assms(2) by (cases "Groups c") (auto simp: gids_def)
  moreover have "0 \<le> load c g" "load c g \<le> 12"
    using assms(1) load_bounds [of c g] by (auto simp: cfg_wf_def NShards_def)
  ultimately have "(mg, mn) \<noteq> (-1, -1)" "(lg, ln) \<noteq> (-1, 257)" using * by fastforce+
  with * show "mg \<in> set (gids c)" "load c mg = mn" "lg \<in> set (gids c)" "load c lg = ln"
    "\<And>g. g \<in> set (gids c) \<Longrightarrow> ln \<le> load c g \<and> load c g \<le> mn" by blast+
qed

lemma least_in_gids: "cfg_wf c \<Longrightarrow> Groups c \<noteq> [] \<Longrightarrow> least c \<in> set (gids c)"
  using analyze_spec(3) [of c] by (auto simp: least_def split: prod.split)

lemma map_of_gids: "map_of (Groups c) g = None \<longleftrightarrow> g \<notin> set (gids c)"
  by (simp add: map_of_eq_None_iff gids_def)

lemma gids_Shards [simp]: "gids (c\<lparr>Shards := s\<rparr>) = gids c"
  by (simp add: gids_def)

section \<open>Balancing ends, in a balanced configuration\<close>

definition balanced :: "ShardConfig \<Rightarrow> bool" where
  "balanced c \<longleftrightarrow> (\<forall>g\<in>set (gids c). \<forall>h\<in>set (gids c). load c g \<le> load c h + 1)"

text \<open>The first pass assigns every shard of no group and leaves the others where they are.\<close>

lemma assign_fold:
  assumes "cfg_wf c" "Groups c \<noteq> []" "Shards c = pre @ post" "set pre \<subseteq> set (gids c)"
  shows "\<exists>post'. fold assign_step (enumerate (length pre) post) c = c\<lparr>Shards := pre @ post'\<rparr> \<and>
    length post' = length post \<and> set post' \<subseteq> set (gids c) \<and>
    (\<forall>k<length post. post ! k \<in> set (gids c) \<longrightarrow> post' ! k = post ! k)"
  using assms
proof (induction post arbitrary: c pre)
  case Nil
  then show ?case by (intro exI [of _ "[]"]) (cases c, simp)
next
  case (Cons g post)
  define g' where "g' = (if g \<in> set (gids c) then g else least c)"
  have g': "g' \<in> set (gids c)" using least_in_gids [OF Cons.prems(1,2)] by (simp add: g'_def)
  define c' where "c' = c\<lparr>Shards := (pre @ [g']) @ post\<rparr>"
  have step: "assign_step (length pre, g) c = c'"
    using Cons.prems by (auto simp: assign_step_def map_of_gids g'_def c'_def)
  have "cfg_wf c'" "Groups c' \<noteq> []" "Shards c' = (pre @ [g']) @ post" "set (pre @ [g']) \<subseteq> set (gids c')"
    using Cons.prems g' by (auto simp: c'_def cfg_wf_def)
  from Cons.IH [OF this] obtain post' where
    "fold assign_step (enumerate (Suc (length pre)) post) c' = c'\<lparr>Shards := (pre @ [g']) @ post'\<rparr>"
    "length post' = length post" "set post' \<subseteq> set (gids c')"
    "\<forall>k<length post. post ! k \<in> set (gids c') \<longrightarrow> post' ! k = post ! k" by auto
  then show ?case using step g'
    by (intro exI [of _ "g' # post'"]) (auto simp: c'_def g'_def less_Suc_eq_0_disj)
qed

lemma assign_all_spec:
  assumes "cfg_wf c" "Groups c \<noteq> []"
  obtains s where "assign_all c = c\<lparr>Shards := s\<rparr>" "length s = length (Shards c)" "set s \<subseteq> set (gids c)"
    "\<forall>k<length s. Shards c ! k \<in> set (gids c) \<longrightarrow> s ! k = Shards c ! k"
  using assign_fold [of c "[]" "Shards c", OF assms] by (auto simp: assign_all_def)

lemma move_one_length [simp]: "length (move_one mg lg gs) = length gs"
  by (induction gs) auto

lemma move_one_set: "set (move_one mg lg gs) \<subseteq> insert lg (set gs)"
  by (induction gs) auto

lemma move_one_count:
  "mg \<in> set gs \<Longrightarrow> mg \<noteq> lg \<Longrightarrow> int (count_list (move_one mg lg gs) x) =
     int (count_list gs x) + (if x = lg then 1 else 0) - (if x = mg then 1 else 0)"
  by (induction gs) auto

definition load_measure :: "ShardConfig \<Rightarrow> nat" where
  "load_measure c = nat (\<Sum>g\<in>set (gids c). (load c g)\<^sup>2)"

lemma sum_two:
  fixes f :: "'a \<Rightarrow> int"
  assumes "finite A" "a \<in> A" "b \<in> A" "a \<noteq> b"
  shows "sum f A = f a + f b + sum f (A - {a, b})"
proof -
  have "sum f A = f a + sum f (A - {a})" using assms by (simp add: sum.remove)
  also have "sum f (A - {a}) = f b + sum f (A - {a} - {b})" using assms by (simp add: sum.remove)
  finally show ?thesis by (simp add: Diff_insert2 [symmetric] insert_commute)
qed

lemma balance_step_measure:
  assumes wf: "cfg_wf c" "Groups c \<noteq> []" and ub: "unbalanced c"
  shows "load_measure (balance_step c) < load_measure c"
proof -
  obtain mg mn lg ln where an: "analyze c = (mg, mn, lg, ln)" by (cases "analyze c")
  note spec = analyze_spec [OF wf an]
  have gap: "ln + 2 \<le> mn" using ub an by (simp add: unbalanced_def)
  then have neq: "mg \<noteq> lg" using spec by auto
  have "0 < load c mg" using gap spec(2,4) load_bounds(1) [of c lg] by linarith
  then have mem: "mg \<in> set (Shards c)" by (auto simp: load_def count_list_0_iff intro: ccontr)
  let ?c = "balance_step c" and ?A = "set (gids c)"
  have load: "load ?c x = load c x + (if x = lg then 1 else 0) - (if x = mg then 1 else 0)" for x
    using move_one_count [OF mem neq] an by (simp add: balance_step_def load_def)
  have "(\<Sum>g\<in>?A. (load ?c g)\<^sup>2) = (mn - 1)\<^sup>2 + (ln + 1)\<^sup>2 + (\<Sum>g\<in>?A - {mg, lg}. (load ?c g)\<^sup>2)"
    using sum_two [of ?A mg lg "\<lambda>g. (load ?c g)\<^sup>2"] spec neq load by simp
  also have "(\<Sum>g\<in>?A - {mg, lg}. (load ?c g)\<^sup>2) = (\<Sum>g\<in>?A - {mg, lg}. (load c g)\<^sup>2)"
    by (rule sum.cong) (auto simp: load)
  also have "(mn - 1)\<^sup>2 + (ln + 1)\<^sup>2 < mn\<^sup>2 + ln\<^sup>2"
    using gap by (simp add: power2_eq_square algebra_simps)
  then have "(mn - 1)\<^sup>2 + (ln + 1)\<^sup>2 + (\<Sum>g\<in>?A - {mg, lg}. (load c g)\<^sup>2) < (\<Sum>g\<in>?A. (load c g)\<^sup>2)"
    using sum_two [of ?A mg lg "\<lambda>g. (load c g)\<^sup>2"] spec neq by simp
  finally have "(\<Sum>g\<in>?A. (load ?c g)\<^sup>2) < (\<Sum>g\<in>?A. (load c g)\<^sup>2)" .
  moreover have "gids ?c = gids c" using an by (simp add: balance_step_def)
  moreover have "0 \<le> (\<Sum>g\<in>?A. (load ?c g)\<^sup>2)" by (intro sum_nonneg) simp
  ultimately show ?thesis by (simp add: load_measure_def)
qed

text \<open>What balancing keeps: only the shards change, and they belong to groups.\<close>

definition assigned :: "ShardConfig \<Rightarrow> ShardConfig \<Rightarrow> bool" where
  "assigned c c' \<longleftrightarrow> c' = c\<lparr>Shards := Shards c'\<rparr> \<and> length (Shards c') = NShards \<and>
     set (Shards c') \<subseteq> set (gids c)"

lemma assigned_wf: "assigned c c' \<Longrightarrow> cfg_wf c \<Longrightarrow> cfg_wf c' \<and> Groups c' = Groups c \<and> gids c' = gids c"
  unfolding assigned_def cfg_wf_def gids_def by (metis ShardConfig.select_convs(3) ShardConfig.surjective ShardConfig.update_convs(2))

lemma balance_step_assigned:
  assumes "assigned c c'" "cfg_wf c" "Groups c \<noteq> []"
  shows "assigned c (balance_step c')"
proof -
  obtain mg mn lg ln where an: "analyze c' = (mg, mn, lg, ln)" by (cases "analyze c'")
  have "lg \<in> set (gids c)"
    using analyze_spec(3) [OF _ _ an] assigned_wf [OF assms(1,2)] assms(3) by simp
  moreover have "balance_step c' = c'\<lparr>Shards := move_one mg lg (Shards c')\<rparr>"
    using an by (simp add: balance_step_def)
  ultimately show ?thesis
    using assms(1) move_one_set [of mg lg "Shards c'"] unfolding assigned_def
    by (cases c; cases c') auto
qed

lemma not_unbalanced:
  assumes "cfg_wf c" "Groups c \<noteq> []" "\<not> unbalanced c"
  shows "balanced c"
proof -
  obtain mg mn lg ln where an: "analyze c = (mg, mn, lg, ln)" by (cases "analyze c")
  have gap: "mn < ln + 2" using assms(3) an by (simp add: unbalanced_def)
  show ?thesis
    unfolding balanced_def
  proof (intro ballI)
    fix g h assume "g \<in> set (gids c)" "h \<in> set (gids c)"
    then show "load c g \<le> load c h + 1"
      using analyze_spec(5) [OF assms(1,2) an, of g] analyze_spec(5) [OF assms(1,2) an, of h] gap by simp
  qed
qed

lemma balanced_not_unbalanced:
  assumes "cfg_wf c" "Groups c \<noteq> []" "balanced c"
  shows "\<not> unbalanced c"
proof -
  obtain mg mn lg ln where an: "analyze c = (mg, mn, lg, ln)" by (cases "analyze c")
  show ?thesis
    using analyze_spec(1-4) [OF assms(1,2) an] assms(3) an by (force simp: balanced_def unbalanced_def)
qed

lemma balance_loop:
  assumes "assigned c c'" "cfg_wf c" "Groups c \<noteq> []"
  shows "\<exists>d. while_option unbalanced balance_step c' = Some d \<and> assigned c d \<and> balanced d"
proof -
  have keep: "assigned c (balance_step d) \<and> load_measure (balance_step d) < load_measure d"
    if "assigned c d" "unbalanced d" for d
    using balance_step_assigned [OF that(1) assms(2,3)] balance_step_measure [OF _ _ that(2)]
      assigned_wf [OF that(1) assms(2)] assms(3) by simp
  obtain d where d: "while_option unbalanced balance_step c' = Some d"
    using measure_while_option_Some [of "assigned c" unbalanced balance_step load_measure, OF keep assms(1)]
    by blast
  have "assigned c d" using while_option_rule [where P = "assigned c", OF _ d assms(1)] keep by blast
  moreover have "balanced d"
    using not_unbalanced [OF _ _ while_option_stop [OF d]] assigned_wf [OF calculation assms(2)] assms(3)
    by simp
  ultimately show ?thesis using d by blast
qed

lemma assign_all_assigned:
  "cfg_wf c \<Longrightarrow> Groups c \<noteq> [] \<Longrightarrow> assigned c (assign_all c)"
  by (rule assign_all_spec) (auto simp: assigned_def cfg_wf_def)

lemma Rebalance_some:
  "cfg_wf c \<Longrightarrow> Groups c \<noteq> [] \<Longrightarrow> \<exists>d. Rebalance c = Some d \<and> assigned c d \<and> balanced d"
  using balance_loop [OF assign_all_assigned] by (simp add: Rebalance_def Suc_le_eq)

lemma Rebalance_empty:
  "Groups c = [] \<Longrightarrow> Rebalance c = Some (c\<lparr>Shards := replicate (length (Shards c)) 0\<rparr>)"
  by (simp add: Rebalance_def map_replicate_const)

lemma assign_all_id:
  assumes "cfg_wf c" "Groups c \<noteq> []" "set (Shards c) \<subseteq> set (gids c)"
  shows "assign_all c = c"
proof -
  obtain s where s: "assign_all c = c\<lparr>Shards := s\<rparr>" "length s = length (Shards c)"
    "\<forall>k<length s. Shards c ! k \<in> set (gids c) \<longrightarrow> s ! k = Shards c ! k"
    using assign_all_spec [OF assms(1,2)] by metis
  then have "s = Shards c" using assms(3) by (intro nth_equalityI) (auto simp: subset_iff)
  then show ?thesis using s(1) by simp
qed

section \<open>Traversal order\<close>

text \<open>
  Replacing the list of groups by another traversal of the same map changes nothing that balancing
  looks at.
\<close>

lemma analyze_order: "mset (gids c) = mset (map fst gs) \<Longrightarrow> analyze (c\<lparr>Groups := gs\<rparr>) = analyze c"
proof -
  assume "mset (gids c) = mset (map fst gs)"
  then have "sort (gids c) = sort (map fst gs)" by (metis mset_sort properties_for_sort sorted_sort)
  then show ?thesis by (simp add: analyze_def gids_def)
qed

lemma assign_step_order:
  assumes "mset (gids c) = mset (map fst gs)"
  shows "assign_step x (c\<lparr>Groups := gs\<rparr>) = (assign_step x c)\<lparr>Groups := gs\<rparr>"
proof -
  have "set (gids c) = set (map fst gs)" by (metis assms set_mset_mset)
  then have "map_of gs g = None \<longleftrightarrow> map_of (Groups c) g = None" for g
    by (simp add: map_of_eq_None_iff gids_def)
  then show ?thesis
    using analyze_order [OF assms] by (auto simp: assign_step_def least_def split: prod.split)
qed

lemma assign_step_gids [simp]: "gids (assign_step x c) = gids c"
  by (simp add: assign_step_def split: prod.split)

lemma assign_all_order:
  "mset (gids c) = mset (map fst gs) \<Longrightarrow> assign_all (c\<lparr>Groups := gs\<rparr>) = (assign_all c)\<lparr>Groups := gs\<rparr>"
proof -
  assume "mset (gids c) = mset (map fst gs)"
  then have "fold assign_step xs (c\<lparr>Groups := gs\<rparr>) = (fold assign_step xs c)\<lparr>Groups := gs\<rparr>" for xs
    by (induction xs arbitrary: c) (simp_all add: assign_step_order)
  then show ?thesis by (simp add: assign_all_def)
qed

lemma fold_assign_gids [simp]: "gids (fold assign_step xs c) = gids c"
  by (induction xs arbitrary: c) simp_all

lemma Rebalance_order:
  assumes "mset (gids c) = mset (map fst gs)"
  shows "Rebalance (c\<lparr>Groups := gs\<rparr>) = map_option (\<lambda>d. d\<lparr>Groups := gs\<rparr>) (Rebalance c)"
proof -
  let ?P = "\<lambda>d. mset (gids d) = mset (map fst gs)"
  have "map_option (\<lambda>d. d\<lparr>Groups := gs\<rparr>) (while_option unbalanced balance_step (assign_all c)) =
    while_option unbalanced balance_step ((assign_all c)\<lparr>Groups := gs\<rparr>)"
    by (rule while_option_commute_invariant [where P = ?P])
      (use assms in \<open>auto simp: balance_step_def unbalanced_def analyze_order assign_all_def split: prod.split\<close>)
  moreover have "length gs = length (Groups c)"
    by (metis assms gids_def length_map size_mset)
  ultimately show ?thesis by (simp add: Rebalance_def assign_all_order [OF assms])
qed

section \<open>Join, Leave and the checker\<close>

lemma Join_loop_true:
  "Join_loop ch srvs c = Inr (d, True) \<Longrightarrow> distinct (gids c) \<Longrightarrow>
     d = c\<lparr>Num := Num c + 1, Groups := Groups c @ srvs\<rparr> \<and> distinct (gids d) \<and> (ch \<or> srvs \<noteq> [])"
proof (induction srvs arbitrary: ch c)
  case Nil
  then show ?case by (cases c) (auto simp: gids_def split: if_splits)
next
  case (Cons x srvs)
  obtain gid ss where x: "x = (gid, ss)" by (cases x)
  let ?c = "c\<lparr>Groups := Groups c @ [(gid, ss)]\<rparr>"
  have "map_of (Groups c) gid = None" and rest: "Join_loop True srvs ?c = Inr (d, True)"
    using Cons.prems(1) x by (auto split: if_splits)
  then have "distinct (gids ?c)" using Cons.prems(2) map_of_gids [of c gid] by (simp add: gids_def)
  from Cons.IH [OF rest this] show ?case using x by (auto simp del: distinct_append)
qed

lemma Join_loop_false:
  "Join_loop ch srvs c = Inr (d, False) \<Longrightarrow>
     \<exists>k<length srvs. d = c\<lparr>Groups := Groups c @ take k srvs\<rparr> \<and> fst (srvs ! k) \<in> set (gids d)"
proof (induction srvs arbitrary: ch c)
  case (Cons x srvs)
  obtain gid ss where x: "x = (gid, ss)" by (cases x)
  show ?case
  proof (cases "map_of (Groups c) gid = None")
    case False
    then show ?thesis using Cons.prems x map_of_gids [of c gid] by (intro exI [of _ 0]) auto
  next
    case True
    then have "Join_loop True srvs (c\<lparr>Groups := Groups c @ [(gid, ss)]\<rparr>) = Inr (d, False)"
      using Cons.prems x by (auto split: if_splits)
    from Cons.IH [OF this] obtain k where "k < length srvs"
      "d = c\<lparr>Groups := Groups c @ [(gid, ss)] @ take k srvs\<rparr>" "fst (srvs ! k) \<in> set (gids d)" by auto
    then show ?thesis using x by (intro exI [of _ "Suc k"]) simp
  qed
qed (simp split: if_splits)

lemma Leave_loop_true:
  "Leave_loop ch gs c = Inr (d, True) \<Longrightarrow>
     d = c\<lparr>Num := Num c + 1, Groups := filter (\<lambda>(k, _). k \<notin> set gs) (Groups c)\<rparr> \<and>
     set gs \<subseteq> set (gids c) \<and> distinct gs \<and> (ch \<or> gs \<noteq> [])"
proof (induction gs arbitrary: ch c)
  case Nil
  then show ?case by (cases c) (auto split: if_splits)
next
  case (Cons g gs)
  let ?c = "c\<lparr>Groups := filter (\<lambda>(k, _). k \<noteq> g) (Groups c)\<rparr>"
  have g: "g \<in> set (gids c)" and rest: "Leave_loop True gs ?c = Inr (d, True)"
    using Cons.prems map_of_gids [of c g] by (auto split: if_splits)
  have "set (gids ?c) = set (gids c) - {g}" by (auto simp: gids_def)
  with Cons.IH [OF rest] g show ?case by (auto simp: split_beta intro: filter_cong)
qed

lemma check_fold:
  assumes "fold (\<lambda>(g, _) (mx, mn). (if n g > mx then n g else mx, if n g < mn then n g else mn)) gs (mx, mn) = (mx', mn')"
  shows "mx' = fold max (map (\<lambda>x. n (fst x)) gs) mx \<and> mn' = fold min (map (\<lambda>x. n (fst x)) gs) (mn :: int)"
  using assms
proof (induction gs arbitrary: mx mn)
  case (Cons x gs)
  obtain g ss where x: "x = (g, ss)" by (cases x)
  have "(if n g > mx then n g else mx) = max (n g) mx" "(if n g < mn then n g else mn) = min (n g) mn"
    by auto
  then show ?case using Cons.IH Cons.prems x by simp
qed simp

text \<open>The checker accepts exactly the balanced assignments to the expected groups.\<close>

lemma CheckConfig_iff:
  assumes "cfg_wf c"
  shows "CheckConfig groups c = Inr () \<longleftrightarrow>
    length (Groups c) = length groups \<and> set groups \<subseteq> set (gids c) \<and>
    (groups \<noteq> [] \<longrightarrow> set (Shards c) \<subseteq> set (gids c)) \<and> balanced c"
proof -
  let ?f = "\<lambda>(g, _) (mx, mn). (if load c g > mx then load c g else mx, if load c g < mn then load c g else mn)"
  obtain mx mn where f: "fold ?f (Groups c) (0, 257) = (mx, mn)" by (cases "fold ?f (Groups c) (0, 257)")
  have max: "mx = Max (insert 0 (load c ` set (gids c)))"
    using check_fold [OF f] Max.set_eq_fold [of 0 "map (\<lambda>x. load c (fst x)) (Groups c)"]
    by (simp add: gids_def image_image)
  have min: "mn = Min (insert 257 (load c ` set (gids c)))"
    using check_fold [OF f] Min.set_eq_fold [of 257 "map (\<lambda>x. load c (fst x)) (Groups c)"]
    by (simp add: gids_def image_image)
  have bounds: "0 \<le> load c g" "load c g \<le> 12" for g
    using assms load_bounds [of c g] by (auto simp: cfg_wf_def NShards_def)
  have "mx \<le> mn + 1 \<longleftrightarrow> balanced c"
  proof
    assume "mx \<le> mn + 1"
    then show "balanced c"
      unfolding balanced_def max min by (meson Max_ge Min_le add_right_mono finite.insertI finite_imageI
          finite_set imageI insertI2 order_trans)
  next
    assume bal: "balanced c"
    have "mx \<in> insert 0 (load c ` set (gids c))" "mn \<in> insert 257 (load c ` set (gids c))"
      unfolding max min by (rule Max_in Min_in; simp)+
    then consider "mx = 0" | g where "g \<in> set (gids c)" "mx = load c g" "mn = 257"
      | g h where "g \<in> set (gids c)" "mx = load c g" "h \<in> set (gids c)" "mn = load c h" by blast
    then show "mx \<le> mn + 1"
    proof cases
      case 1
      then show ?thesis using \<open>mn \<in> _\<close> bounds(1) by (smt (verit) image_iff insert_iff)
    next
      case (2 g)
      then show ?thesis using bounds(2) [of g] by simp
    next
      case (3 g h)
      then show ?thesis using bal by (simp add: balanced_def)
    qed
  qed
  then have "(case fold ?f (Groups c) (0, 257) of (mx, mn) \<Rightarrow> if mx > mn + 1 then Inl TestFatal else Inr ()) =
      Inr () \<longleftrightarrow> balanced c" using f by auto
  moreover have "list_ex (\<lambda>g. map_of (Groups c) g = None) gs \<longleftrightarrow> \<not> set gs \<subseteq> set (gids c)" for gs
    by (auto simp: list_ex_iff map_of_gids)
  ultimately show ?thesis
    unfolding CheckConfig_def Let_def count_shards_load by (auto simp del: split_paired_All)
qed

lemma Rebalance_checked:
  assumes "cfg_wf c"
  obtains d where "Rebalance c = Some d" "cfg_wf d" "Num d = Num c" "Groups d = Groups c"
    "\<And>gs. mset gs = mset (gids c) \<Longrightarrow> CheckConfig gs d = Inr ()"
proof -
  obtain d where d: "Rebalance c = Some d" "cfg_wf d" "Num d = Num c" "Groups d = Groups c"
    "Groups c \<noteq> [] \<longrightarrow> set (Shards d) \<subseteq> set (gids c)" "balanced d"
  proof (cases "Groups c = []")
    case True
    then show ?thesis
      using assms that [OF Rebalance_empty [OF True]] by (simp add: cfg_wf_def balanced_def gids_def)
  next
    case False
    then obtain d where d: "Rebalance c = Some d" "assigned c d" "balanced d"
      using Rebalance_some [OF assms] by blast
    moreover have "Num d = Num c"
      using d(2) unfolding assigned_def
      by (metis ShardConfig.select_convs(1) ShardConfig.surjective ShardConfig.update_convs(2))
    ultimately show ?thesis using that assigned_wf [OF d(2) assms] by (simp add: assigned_def)
  qed
  have "CheckConfig gs d = Inr ()" if "mset gs = mset (gids c)" for gs
  proof -
    have "set gs = set (gids c)" "length gs = length (gids c)"
      using that by (metis set_mset_mset, metis size_mset)
    then show ?thesis
      using d CheckConfig_iff [OF d(2), of gs] by (auto simp: gids_def)
  qed
  with d that show ?thesis by blast
qed

section \<open>Properties\<close>

text \<open>
  C18: balancing always ends and yields a correct assignment. For a well-formed configuration with
  at least one group, \<open>Rebalance\<close> returns, changes nothing but the shards, assigns every shard to a
  group of the configuration, and leaves no group with more than one shard more than another. Without
  groups it unassigns every shard.
\<close>

theorem Rebalance_correct:
  assumes "cfg_wf c"
  shows "\<exists>d. Rebalance c = Some d \<and> Num d = Num c \<and> Groups d = Groups c \<and> length (Shards d) = NShards \<and>
     (if Groups c = [] then Shards d = replicate NShards 0
      else set (Shards d) \<subseteq> set (gids c) \<and>
           (\<forall>g\<in>set (gids c). \<forall>h\<in>set (gids c). load d g \<le> load d h + 1))"
proof (cases "Groups c = []")
  case True
  then show ?thesis using assms by (simp add: Rebalance_empty cfg_wf_def)
next
  case False
  then obtain d where d: "Rebalance c = Some d" "assigned c d" "balanced d"
    using Rebalance_some [OF assms] by blast
  have "Num d = Num c" using d(2) unfolding assigned_def by (metis ShardConfig.select_convs(1) ShardConfig.surjective ShardConfig.update_convs(2))
  then show ?thesis using d assigned_wf [OF d(2) assms] False by (auto simp: assigned_def balanced_def)
qed

definition cfg_a :: ShardConfig where
  "cfg_a = \<lparr>Num = 3, Shards = [1, 1, 1, 1, 1, 1, 1, 1, 1, 1, 1, 7],
            Groups = [(2, [''c'']), (1, [''a'', ''b''])]\<rparr>"

theorem Rebalance_correct_witness:
  "cfg_wf cfg_a \<and> (\<exists>d. Rebalance cfg_a = Some d \<and> Num d = 3 \<and> load d 1 \<le> load d 2 + 1 \<and> load d 2 \<le> load d 1 + 1)"
proof -
  have "cfg_wf cfg_a" by (simp add: cfg_wf_def cfg_a_def gids_def NShards_def)
  then show ?thesis using Rebalance_correct [of cfg_a] by (force simp: cfg_a_def gids_def)
qed

text \<open>
  Balancing is stable. A configuration whose shards all belong to its groups and
  that is balanced is returned unchanged, so a second \<open>Rebalance\<close> never moves a shard.
\<close>

theorem Rebalance_stable:
  assumes "cfg_wf c" "Rebalance c = Some d"
  shows "Rebalance d = Some d"
proof (cases "Groups c = []")
  case True
  then show ?thesis using assms by (auto simp: Rebalance_empty)
next
  case False
  then have d: "assigned c d" "balanced d" using Rebalance_some [OF assms(1)] assms(2) by auto
  then have wf: "cfg_wf d" "Groups d \<noteq> []" "set (Shards d) \<subseteq> set (gids d)"
    using assigned_wf [OF d(1) assms(1)] False by (auto simp: assigned_def)
  have "while_option unbalanced balance_step d = Some d"
    using balanced_not_unbalanced [OF wf(1,2) d(2)] by (simp add: while_option_unfold)
  then show ?thesis using wf by (simp add: Rebalance_def assign_all_id Suc_le_eq)
qed

theorem Rebalance_stable_witness: "\<exists>d. Rebalance cfg_a = Some d \<and> Rebalance d = Some d"
proof -
  have wf: "cfg_wf cfg_a" by (simp add: cfg_wf_def cfg_a_def gids_def NShards_def)
  then obtain d where "Rebalance cfg_a = Some d" using Rebalance_some by (force simp: cfg_a_def)
  then show ?thesis using Rebalance_stable [OF wf] by blast
qed

text \<open>
  C19: a successful \<open>JoinBalance\<close> or \<open>LeaveBalance\<close> passes the tester's check. Starting from a
  well-formed configuration, whenever \<open>Join\<close> (or \<open>Leave\<close>) accepts, balancing returns, the
  new configuration is well-formed with the next number, it has exactly the groups expected, and
  \<open>CheckConfig\<close> on the expected groups, in any order, does not fail the test.
\<close>

theorem JoinBalance_LeaveBalance_check:
  assumes "cfg_wf c"
  shows "(Join servers c = Inr (e, True) \<longrightarrow>
      (\<exists>d. JoinBalance servers c = Some (Inr (d, True)) \<and> cfg_wf d \<and> Num d = Num c + 1 \<and>
        Groups d = Groups c @ servers \<and>
        (\<forall>gs. mset gs = mset (gids c @ map fst servers) \<longrightarrow> CheckConfig gs d = Inr ()))) \<and>
    (Leave gone c = Inr (e, True) \<longrightarrow>
      (\<exists>d. LeaveBalance gone c = Some (Inr (d, True)) \<and> cfg_wf d \<and> Num d = Num c + 1 \<and>
        Groups d = filter (\<lambda>(k, _). k \<notin> set gone) (Groups c) \<and>
        (\<forall>gs. mset gs = mset (filter (\<lambda>k. k \<notin> set gone) (gids c)) \<longrightarrow> CheckConfig gs d = Inr ())))"
proof (intro conjI impI)
  assume j: "Join servers c = Inr (e, True)"
  then have e: "e = c\<lparr>Num := Num c + 1, Groups := Groups c @ servers\<rparr>" "distinct (gids e)"
    using Join_loop_true assms by (auto simp: Join_def cfg_wf_def)
  then have wf: "cfg_wf e" using assms by (simp add: cfg_wf_def)
  obtain d where d: "Rebalance e = Some d" "cfg_wf d" "Num d = Num e" "Groups d = Groups e"
    "\<And>gs. mset gs = mset (gids e) \<Longrightarrow> CheckConfig gs d = Inr ()"
    using Rebalance_checked [OF wf] by blast
  have "gids e = gids c @ map fst servers" using e(1) by (simp add: gids_def)
  with d e(1) j show "\<exists>d. JoinBalance servers c = Some (Inr (d, True)) \<and> cfg_wf d \<and> Num d = Num c + 1 \<and>
        Groups d = Groups c @ servers \<and>
        (\<forall>gs. mset gs = mset (gids c @ map fst servers) \<longrightarrow> CheckConfig gs d = Inr ())"
    by (intro exI [of _ d]) (simp add: JoinBalance_def rebalanced_def)
next
  assume l: "Leave gone c = Inr (e, True)"
  then have e: "e = c\<lparr>Num := Num c + 1, Groups := filter (\<lambda>(k, _). k \<notin> set gone) (Groups c)\<rparr>"
    using Leave_loop_true by (auto simp: Leave_def)
  have gids: "gids e = filter (\<lambda>k. k \<notin> set gone) (gids c)"
    using e by (simp add: gids_def filter_map comp_def case_prod_unfold)
  then have wf: "cfg_wf e" using assms e by (simp add: cfg_wf_def)
  obtain d where d: "Rebalance e = Some d" "cfg_wf d" "Num d = Num e" "Groups d = Groups e"
    "\<And>gs. mset gs = mset (gids e) \<Longrightarrow> CheckConfig gs d = Inr ()"
    using Rebalance_checked [OF wf] by blast
  with e l gids show "\<exists>d. LeaveBalance gone c = Some (Inr (d, True)) \<and> cfg_wf d \<and> Num d = Num c + 1 \<and>
        Groups d = filter (\<lambda>(k, _). k \<notin> set gone) (Groups c) \<and>
        (\<forall>gs. mset gs = mset (filter (\<lambda>k. k \<notin> set gone) (gids c)) \<longrightarrow> CheckConfig gs d = Inr ())"
    by (intro exI [of _ d]) (simp add: LeaveBalance_def rebalanced_def)
qed

theorem JoinBalance_LeaveBalance_check_witness:
  "cfg_wf cfg_a \<and>
   (\<exists>d. JoinBalance [(5, [''e''])] cfg_a = Some (Inr (d, True)) \<and> Num d = 4 \<and> CheckConfig [1, 2, 5] d = Inr ()) \<and>
   (\<exists>d. LeaveBalance [2] cfg_a = Some (Inr (d, True)) \<and> Num d = 4 \<and> CheckConfig [1] d = Inr ())"
proof -
  have wf: "cfg_wf cfg_a" by (simp add: cfg_wf_def cfg_a_def gids_def NShards_def)
  have "\<exists>e. Join [(5, [''e''])] cfg_a = Inr (e, True)" by (simp add: Join_def cfg_a_def)
  then obtain e1 where j: "Join [(5, [''e''])] cfg_a = Inr (e1, True)" by blast
  have "\<exists>e. Leave [2] cfg_a = Inr (e, True)" by (simp add: Leave_def cfg_a_def)
  then obtain e2 where l: "Leave [2] cfg_a = Inr (e2, True)" by blast
  have "mset [1, 2, 5] = mset (gids cfg_a @ map fst [(5, [''e''])])"
    "mset [1] = mset (filter (\<lambda>k. k \<notin> set [2]) (gids cfg_a))" "Num cfg_a = 3"
    by (simp_all add: cfg_a_def gids_def)
  with JoinBalance_LeaveBalance_check [OF wf, of "[(5, [''e''])]" e1 "[2]"]
    JoinBalance_LeaveBalance_check [OF wf, of "[(5, [''e''])]" e2 "[2]"] j l wf
  show ?thesis by fastforce
qed

text \<open>
  Every key is served. In the configuration that balancing returns for at least one group,
  the shard of any key is a valid index, \<open>GidServers\<close> finds a group of the configuration for it, with
  that group's servers, and \<open>IsMember\<close> confirms the group.
\<close>

theorem every_key_served:
  assumes "cfg_wf c" "Groups c \<noteq> []" "Rebalance c = Some d"
  shows "\<exists>gid srvs. GidServers (Key2Shard key) d = Inr (gid, srvs, True) \<and>
           map_of (Groups c) gid = Some srvs \<and> IsMember gid d"
proof -
  have d: "assigned c d" "Groups d = Groups c"
    using Rebalance_some [OF assms(1,2)] assms(3) assigned_wf [OF _ assms(1)] by auto
  have k: "0 \<le> Key2Shard key" "Key2Shard key < int (length (Shards d))"
    using d by (simp_all add: Key2Shard_def assigned_def NShards_def)
  define gid where "gid = Shards d ! nat (Key2Shard key)"
  have mem: "gid \<in> set (Shards d)" using k by (simp add: gid_def nat_less_iff)
  then have "gid \<in> set (gids c)" using d(1) by (auto simp: assigned_def)
  then obtain srvs where "map_of (Groups c) gid = Some srvs" using map_of_gids [of c gid] by auto
  then show ?thesis
    using k d(2) mem by (auto simp: GidServers_def go_index_def gid_def IsMember_def list_ex_iff)
qed

theorem every_key_served_witness:
  "\<exists>d gid srvs. Rebalance cfg_a = Some d \<and> GidServers (Key2Shard ''key'') d = Inr (gid, srvs, True)"
proof -
  have wf: "cfg_wf cfg_a" "Groups cfg_a \<noteq> []"
    by (simp_all add: cfg_wf_def cfg_a_def gids_def NShards_def)
  then obtain d where "Rebalance cfg_a = Some d" using Rebalance_some by blast
  then show ?thesis using every_key_served [OF wf, of d "''key''"] by blast
qed

text \<open>
  Balancing does not depend on the order in which Go traverses its maps: for any two traversals
  of the same groups the shards are assigned in the same way.
\<close>

theorem Rebalance_deterministic:
  assumes "mset (Groups c) = mset gs"
  shows "map_option Shards (Rebalance (c\<lparr>Groups := gs\<rparr>)) = map_option Shards (Rebalance c)"
proof -
  have "mset (gids c) = mset (map fst gs)" using assms by (simp add: gids_def)
  from Rebalance_order [OF this] show ?thesis by (simp add: option.map_comp comp_def)
qed

theorem Rebalance_deterministic_witness:
  "map_option Shards (Rebalance (cfg_a\<lparr>Groups := [(1, [''a'', ''b'']), (2, [''c''])]\<rparr>)) =
   map_option Shards (Rebalance cfg_a)"
  by (rule Rebalance_deterministic) (simp add: cfg_a_def)

text \<open>
  A refused \<open>Join\<close> is not without effect. When \<open>Join\<close> returns false, the groups it visited before
  the one that was already present have been added, while the number of the configuration and the
  shards are unchanged.
\<close>

theorem Join_refused_partial:
  assumes "Join servers c = Inr (d, False)"
  shows "\<exists>k<length servers. Groups d = Groups c @ take k servers \<and>
           fst (servers ! k) \<in> set (gids d) \<and> Num d = Num c \<and> Shards d = Shards c"
  using Join_loop_false [of False servers c d] assms by (auto simp: Join_def)

theorem Join_refused_partial_witness:
  "\<exists>d. Join [(5, [''e'']), (1, [''f''])] cfg_a = Inr (d, False) \<and> 5 \<in> set (gids d) \<and> Num d = Num cfg_a"
proof -
  have "\<exists>d. Join [(5, [''e'']), (1, [''f''])] cfg_a = Inr (d, False) \<and> 5 \<in> set (gids d)"
    by (simp add: Join_def cfg_a_def gids_def)
  then obtain d where "Join [(5, [''e'']), (1, [''f''])] cfg_a = Inr (d, False)" "5 \<in> set (gids d)" by blast
  then show ?thesis using Join_refused_partial by blast
qed

end
