(* ===== verification/Shard_Kv.thy ===== *)
theory Shard_Kv
  imports Kv_Raft Shardcfg
begin

text \<open>
  The sharded key/value service as far as it is written: the RPC structs of a shard group
  (\<open>shardkv1/shardgrp/shardrpc/shardrpc.go\<close>), its server and clerk (\<open>shardkv1/shardgrp\<close>), the controller
  (\<open>shardkv1/shardctrler/shardctrler.go\<close>), the clerk (\<open>shardkv1/client.go\<close>), and the helpers of the tests that
  change the configuration (\<open>shardkv1/test.go\<close>). Handlers leave their replies as they are, calls return zero
  values, and the controller keeps no configuration.
\<close>

section \<open>RPC structs\<close>

record FreezeShardArgs =
  fa_Shard :: Tshid
  fa_Num :: Tnum

record FreezeShardReply =
  fr_State :: bytes
  fr_Num :: Tnum
  fr_Err :: Err

record InstallShardArgs =
  ia_Shard :: Tshid
  ia_State :: bytes
  ia_Num :: Tnum

record InstallShardReply =
  ir_Err :: Err

record DeleteShardArgs =
  da_Shard :: Tshid
  da_Num :: Tnum

record DeleteShardReply =
  dr_Err :: Err

section \<open>Server of a shard group\<close>

record sg_KVServer =
  gs_me :: nat
  gs_dead :: int32
  gs_rsm :: "RSM option"
  gs_gid :: Tgid

definition sgs_DoOp :: "any \<Rightarrow> sg_KVServer \<Rightarrow> sg_KVServer \<times> any" where
  "sgs_DoOp req kv = (kv, AnyNil)"

definition sgs_Snapshot :: "sg_KVServer \<Rightarrow> slice" where
  "sgs_Snapshot kv = None"

definition sgs_Restore :: "bytes \<Rightarrow> sg_KVServer \<Rightarrow> sg_KVServer" where
  "sgs_Restore data kv = kv"

definition sgs_Get :: "sg_KVServer \<Rightarrow> GetArgs \<Rightarrow> GetReply \<Rightarrow> GetReply" where
  "sgs_Get kv args reply = reply"

definition sgs_Put :: "sg_KVServer \<Rightarrow> PutArgs \<Rightarrow> PutReply \<Rightarrow> PutReply" where
  "sgs_Put kv args reply = reply"

definition sgs_FreezeShard :: "sg_KVServer \<Rightarrow> FreezeShardArgs \<Rightarrow> FreezeShardReply \<Rightarrow> FreezeShardReply" where
  "sgs_FreezeShard kv args reply = reply"

definition sgs_InstallShard :: "sg_KVServer \<Rightarrow> InstallShardArgs \<Rightarrow> InstallShardReply \<Rightarrow> InstallShardReply" where
  "sgs_InstallShard kv args reply = reply"

definition sgs_DeleteShard :: "sg_KVServer \<Rightarrow> DeleteShardArgs \<Rightarrow> DeleteShardReply \<Rightarrow> DeleteShardReply" where
  "sgs_DeleteShard kv args reply = reply"

definition sgs_Kill :: "sg_KVServer \<Rightarrow> sg_KVServer" where
  "sgs_Kill kv = kv\<lparr>gs_dead := 1\<rparr>"

definition sgs_killed :: "sg_KVServer \<Rightarrow> bool" where
  "sgs_killed kv \<longleftrightarrow> gs_dead kv = 1"

definition sgs_types :: types where
  "sgs_types = kvr_types @
     [(''FreezeShardArgs'', Struct [(''Shard'', ''Tshid''), (''Num'', ''Tnum'')]),
      (''InstallShardArgs'', Struct [(''Shard'', ''Tshid''), (''State'', ''[]byte''), (''Num'', ''Tnum'')]),
      (''DeleteShardArgs'', Struct [(''Shard'', ''Tshid''), (''Num'', ''Tnum'')]), (''[]byte'', Slice ''byte'')]"

definition sgs_values :: "iface list" where
  "sgs_values = [put_value, get_value,
     Some (''FreezeShardArgs'', VStruct [(''Shard'', False, VScalar ''Tshid'' (SInt 0)), (''Num'', False, VScalar ''Tnum'' (SInt 0))]),
     Some (''InstallShardArgs'', VStruct [(''Shard'', False, VScalar ''Tshid'' (SInt 0)), (''State'', False, VOther), (''Num'', False, VScalar ''Tnum'' (SInt 0))]),
     Some (''DeleteShardArgs'', VStruct [(''Shard'', False, VScalar ''Tshid'' (SInt 0)), (''Num'', False, VScalar ''Tnum'' (SInt 0))]),
     Some (''Op'', VStruct [])]"

datatype shard_service = SvcShard sg_KVServer | SvcShardRaft "Raft option"

definition StartServerShardGrp :: "(iface \<Rightarrow> 'g \<Rightarrow> 'g) \<Rightarrow> bool \<Rightarrow> ClientEnd list \<Rightarrow> Tgid \<Rightarrow> nat \<Rightarrow> Persister \<Rightarrow> heap \<Rightarrow> int \<Rightarrow> int \<Rightarrow> int \<Rightarrow>
    labgob \<times> 'g \<Rightarrow> ((labgob \<times> 'g) \<times> shard_service list) go option" where
  "StartServerShardGrp greg useRaftStateMachine cends gid i ps h now rnd maxraftstate st =
     (case register_all sgs_types greg sgs_values st of
        None \<Rightarrow> None
      | Some (Inl p) \<Rightarrow> Some (Inl p)
      | Some (Inr st) \<Rightarrow>
          let rsm = MakeRSM useRaftStateMachine cends i ps h now rnd maxraftstate;
              kv = \<lparr>gs_me = i, gs_dead = 0, gs_rsm = Some rsm, gs_gid = gid\<rparr>
          in Some (Inr (st, [SvcShard kv, SvcShardRaft (RSM_Raft rsm)])))"

section \<open>Clerks\<close>

record sg_Clerk =
  sgc_clnt :: nat
  sgc_servers :: "string list"

definition sgc_MakeClerk :: "nat \<Rightarrow> string list \<Rightarrow> sg_Clerk" where
  "sgc_MakeClerk clnt srvs = \<lparr>sgc_clnt = clnt, sgc_servers = srvs\<rparr>"

definition sgc_Get :: "sg_Clerk \<Rightarrow> string \<Rightarrow> get_result" where
  "sgc_Get ck key = ('''', 0, ErrUnset)"

definition sgc_Put :: "sg_Clerk \<Rightarrow> string \<Rightarrow> string \<Rightarrow> Tversion \<Rightarrow> Err" where
  "sgc_Put ck key val version = ErrUnset"

definition sgc_FreezeShard :: "sg_Clerk \<Rightarrow> Tshid \<Rightarrow> Tnum \<Rightarrow> slice \<times> Err" where
  "sgc_FreezeShard ck s num = (None, ErrUnset)"

definition sgc_InstallShard :: "sg_Clerk \<Rightarrow> Tshid \<Rightarrow> bytes \<Rightarrow> Tnum \<Rightarrow> Err" where
  "sgc_InstallShard ck s state num = ErrUnset"

definition sgc_DeleteShard :: "sg_Clerk \<Rightarrow> Tshid \<Rightarrow> Tnum \<Rightarrow> Err" where
  "sgc_DeleteShard ck s num = ErrUnset"

section \<open>Controller\<close>

text \<open>The controller has a clerk of the \<open>kvsrv1\<close> server of group 0.\<close>

record ShardCtrler =
  sck_clnt :: nat
  sck_clerk :: Clerk
  sck_killed :: int32

definition MakeShardCtrler :: "nat \<Rightarrow> ShardCtrler" where
  "MakeShardCtrler clnt = \<lparr>sck_clnt = clnt, sck_clerk = MakeClerk (ServerName GRP0 0), sck_killed = 0\<rparr>"

definition InitController :: "ShardCtrler \<Rightarrow> ShardCtrler" where
  "InitController sck = sck"

definition InitConfig :: "ShardConfig \<Rightarrow> ShardCtrler \<Rightarrow> ShardCtrler" where
  "InitConfig cfg sck = sck"

definition ChangeConfigTo :: "ShardConfig \<Rightarrow> ShardCtrler \<Rightarrow> ShardCtrler" where
  "ChangeConfigTo new sck = sck"

definition Query :: "ShardCtrler \<Rightarrow> ShardConfig option" where
  "Query sck = None"

record shk_Clerk =
  shc_clnt :: nat
  shc_sck :: ShardCtrler

definition shk_MakeClerk :: "nat \<Rightarrow> ShardCtrler \<Rightarrow> shk_Clerk" where
  "shk_MakeClerk clnt sck = \<lparr>shc_clnt = clnt, shc_sck = sck\<rparr>"

definition shk_Get :: "shk_Clerk \<Rightarrow> string \<Rightarrow> get_result" where
  "shk_Get ck key = ('''', 0, ErrUnset)"

definition shk_Put :: "shk_Clerk \<Rightarrow> string \<Rightarrow> string \<Rightarrow> Tversion \<Rightarrow> Err" where
  "shk_Put ck key val version = ErrUnset"

section \<open>Changing the configuration in the tests\<close>

definition Gid1 :: Tgid where "Gid1 = 1"
definition Controler :: Tgid where "Controler = 0"
definition SHARD_NSRV :: nat where "SHARD_NSRV = 3"
definition INTERGRPDELAY :: int where "INTERGRPDELAY = 200"

text \<open>The number of the next new group.\<close>

definition newGid :: "Tgid \<Rightarrow> Tgid \<times> Tgid" where
  "newGid ngid = (ngid, ngid + 1)"

fun new_groups :: "nat \<Rightarrow> Tgid \<Rightarrow> Tgid list \<times> Tgid" where
  "new_groups 0 ngid = ([], ngid)"
| "new_groups (Suc n) ngid =
     (let (g, ngid) = newGid ngid; (gs, ngid) = new_groups n ngid in (g # gs, ngid))"

definition checkMember :: "ShardCtrler \<Rightarrow> Tgid \<Rightarrow> bool go" where
  "checkMember sck gid = (case Query sck of None \<Rightarrow> Inl NilPanic | Some cfg \<Rightarrow> Inr (IsMember gid cfg))"

text \<open>The change is made on a copy of the configuration, which a nil configuration does not have.\<close>

definition change_config :: "(ShardConfig \<Rightarrow> (ShardConfig \<times> bool) go option) \<Rightarrow> ShardCtrler \<Rightarrow> ShardCtrler go option" where
  "change_config f sck = (case Query sck of
      None \<Rightarrow> Some (Inl NilPanic)
    | Some cfg \<Rightarrow> (case f (Copy cfg) of
        None \<Rightarrow> None
      | Some (Inl p) \<Rightarrow> Some (Inl p)
      | Some (Inr (newcfg, ok)) \<Rightarrow> if \<not> ok then Some (Inl LogFatal) else Some (Inr (ChangeConfigTo newcfg sck))))"

definition Test_join :: "ShardCtrler \<Rightarrow> Tgid \<Rightarrow> string list \<Rightarrow> ShardCtrler go option" where
  "Test_join sck gid srvs = change_config (JoinBalance [(gid, srvs)]) sck"

definition Test_leave :: "ShardCtrler \<Rightarrow> Tgid \<Rightarrow> ShardCtrler go option" where
  "Test_leave sck gid = change_config (LeaveBalance [gid]) sck"

text \<open>A new group is started and joins, one after the other, until one is not a member afterwards.\<close>

fun joinGroups :: "(nat \<Rightarrow> string) \<Rightarrow> 'svc FstartServer \<Rightarrow> Tgid list \<Rightarrow> ShardCtrler \<times> 'svc Config \<Rightarrow>
    (bool \<times> ShardCtrler \<times> 'svc Config) go option" where
  "joinGroups rnd mks [] (sck, cfg) = Some (Inr (True, sck, cfg))"
| "joinGroups rnd mks (gid # rest) (sck, cfg) = (case MakeGroupStart rnd mks gid SHARD_NSRV cfg of
      Inl p \<Rightarrow> Some (Inl p)
    | Inr cfg \<Rightarrow> (case Group gid cfg of
        None \<Rightarrow> Some (Inl NilPanic)
      | Some sg \<Rightarrow> (case Test_join sck gid (SrvNames sg) of
          None \<Rightarrow> None
        | Some (Inl p) \<Rightarrow> Some (Inl p)
        | Some (Inr sck) \<Rightarrow> (case checkMember sck gid of
            Inl p \<Rightarrow> Some (Inl p)
          | Inr ok \<Rightarrow> if \<not> ok then Some (Inr (False, sck, cfg)) else joinGroups rnd mks rest (sck, cfg)))))"

fun leaveGroups :: "('svc \<Rightarrow> pop list) \<Rightarrow> Tgid list \<Rightarrow> ShardCtrler \<times> 'svc Config \<Rightarrow> (bool \<times> ShardCtrler \<times> 'svc Config) go option" where
  "leaveGroups kill [] (sck, cfg) = Some (Inr (True, sck, cfg))"
| "leaveGroups kill (gid # rest) (sck, cfg) = (case Test_leave sck gid of
      None \<Rightarrow> None
    | Some (Inl p) \<Rightarrow> Some (Inl p)
    | Some (Inr sck) \<Rightarrow> (case checkMember sck gid of
        Inl p \<Rightarrow> Some (Inl p)
      | Inr True \<Rightarrow> Some (Inr (False, sck, cfg))
      | Inr False \<Rightarrow> (case ExitGroup kill gid cfg of
          Inl p \<Rightarrow> Some (Inl p)
        | Inr cfg \<Rightarrow> leaveGroups kill rest (sck, cfg))))"

text \<open>The service with one group; the client number is that of the new controller.\<close>

definition setupKVService :: "(nat \<Rightarrow> string) \<Rightarrow> 'svc FstartServer \<Rightarrow> nat \<Rightarrow> 'svc Config \<Rightarrow> (ShardCtrler \<times> 'svc Config \<times> Tgid) go option" where
  "setupKVService rnd mks clnt cfg = (case MakeGroupStart rnd mks Gid1 SHARD_NSRV cfg of
      Inl p \<Rightarrow> Some (Inl p)
    | Inr cfg \<Rightarrow> (case Group Gid1 cfg of
        None \<Rightarrow> Some (Inl NilPanic)
      | Some sg \<Rightarrow> (case JoinBalance [(Gid1, SrvNames sg)] MakeShardConfig of
          None \<Rightarrow> None
        | Some (Inl p) \<Rightarrow> Some (Inl p)
        | Some (Inr (scfg, _)) \<Rightarrow> Some (Inr (InitConfig scfg (MakeShardCtrler clnt), cfg, Gid1)))))"

text \<open>
  What happens while a group is down: the answers that arrive, each with what it should be, before two seconds pass
  without one. A wrong value ends the test, and so does an answer for every key.
\<close>

fun shutdown_answers :: "(string \<times> string) list \<Rightarrow> nat \<Rightarrow> nat go" where
  "shutdown_answers [] ndone = Inr ndone"
| "shutdown_answers ((v, va) # answers) ndone = (if v \<noteq> va then Inl TestFatal else shutdown_answers answers (Suc ndone))"

definition shutdown_verdict :: "nat \<Rightarrow> (string \<times> string) list \<Rightarrow> unit go" where
  "shutdown_verdict n answers = (case shutdown_answers answers 0 of
      Inl p \<Rightarrow> Inl p
    | Inr ndone \<Rightarrow> if ndone \<ge> n then Inl TestFatal else Inr ())"

section \<open>Facts\<close>

lemma new_groups_fresh:
  "new_groups n ngid = (gs, ngid') \<Longrightarrow> distinct gs \<and> length gs = n \<and> set gs = {ngid..<ngid'} \<and> ngid' = ngid + int n"
proof (induction n arbitrary: gs ngid)
  case (Suc n)
  obtain hs where hs: "new_groups n (ngid + 1) = (hs, ngid')" "gs = ngid # hs"
    using Suc.prems by (auto simp: newGid_def Let_def split: prod.splits)
  show ?case using Suc.IH [OF hs(1)] hs(2) by auto
qed auto

lemma shutdown_answers_eq:
  "shutdown_answers answers n = (if \<forall>(v, va)\<in>set answers. v = va then Inr (n + length answers) else Inl TestFatal)"
  by (induction answers arbitrary: n) auto

text \<open>The check passes exactly if every answer was right and one was missing.\<close>

lemma shutdown_verdict_iff:
  "shutdown_verdict n answers = Inr () \<longleftrightarrow> (\<forall>(v, va)\<in>set answers. v = va) \<and> length answers < n"
  by (auto simp: shutdown_verdict_def shutdown_answers_eq)

text \<open>Whatever configuration the controller is given, the next change or query of it panics, because it keeps none.\<close>

lemma shardctrler_panics:
  "Test_join (InitConfig cfg sck) gid srvs = Some (Inl NilPanic)"
  "Test_leave (ChangeConfigTo cfg sck) gid = Some (Inl NilPanic)"
  "checkMember (ChangeConfigTo cfg sck) gid = Inl NilPanic"
  by (simp_all add: Test_join_def Test_leave_def change_config_def checkMember_def Query_def)

lemma shard_server_starts:
  assumes "types_closed sgs_types s"
  shows "\<exists>s' g' kv. StartServerShardGrp greg False cends gid i ps h now rnd m (s, g) =
      Some (Inr ((s', g'), [SvcShard kv, SvcShardRaft (Some (Raft_Make cends (int i) ps h now rnd))])) \<and>
    errorCount s' = errorCount s \<and> gs_gid kv = gid \<and> \<not> sgs_killed kv \<and> sgs_killed (sgs_Kill kv)"
proof -
  have "\<forall>u. lower_case_fields sgs_types u = []"
    by (intro allI no_lower_case_fields) (simp add: sgs_types_def kvr_types_def is_upper_def)
  moreover have "None \<notin> set sgs_values" by (simp add: sgs_values_def put_value_def get_value_def)
  ultimately show ?thesis using register_all_ok [OF assms, of sgs_values greg g]
    by (auto simp: StartServerShardGrp_def MakeRSM_def RSM_Raft_def sgs_killed_def sgs_Kill_def Let_def)
qed

end
