(* ===== verification/Test_Setup.thy ===== *)
theory Test_Setup
  imports Shard_Kv
begin

text \<open>
  How the tests of each service are set up: \<open>kvsrv1/test.go\<close>, \<open>kvraft1/test.go\<close>, the first part of \<open>kvraft1/rsm/test.go\<close>, and the
  constructors and the two controller tests of \<open>shardkv1/test.go\<close>. They put the configuration of the framework, the history of
  operations and the clerks of a service together. What starting a server does is the argument \<open>mks\<close>, as for
  the configuration.
\<close>

section \<open>Clerks of a test\<close>

text \<open>\<open>kvtest.TestClerk\<close>: a clerk with the client it uses.\<close>

record 'ck TestClerk =
  tc_clerk :: 'ck
  tc_Clnt :: nat

definition test_client :: "string list option \<Rightarrow> 'svc KvTest \<Rightarrow> (nat \<times> 'svc KvTest) go" where
  "test_client srvs ts = (case MakeClientTo srvs (cfg_clnts (kt_cfg ts)) of
      Inl p \<Rightarrow> Inl p
    | Inr (p, clnts) \<Rightarrow> Inr (p, ts\<lparr>kt_cfg := (kt_cfg ts)\<lparr>cfg_clnts := clnts\<rparr>\<rparr>))"

definition test_delete :: "'ck TestClerk \<Rightarrow> 'svc KvTest \<Rightarrow> 'svc KvTest go" where
  "test_delete ck ts = (case DeleteClient (tc_Clnt ck) (cfg_clnts (kt_cfg ts), cfg_shared (kt_cfg ts)) of
      Inl p \<Rightarrow> Inl p
    | Inr (clnts, sh) \<Rightarrow> Inr (ts\<lparr>kt_cfg := (kt_cfg ts)\<lparr>cfg_clnts := clnts, cfg_shared := sh\<rparr>\<rparr>))"

section \<open>The single server\<close>

record TestKV =
  tk_test :: "KVServer KvTest"
  tk_reliable :: bool

text \<open>A server of \<open>kvsrv1\<close> does nothing to its persister.\<close>

definition kvsrv_mks :: "KVServer FstartServer" where
  "kvsrv_mks cends gid i ps = (StartKVServer cends gid i ps, [])"

definition MakeTestKV :: "(nat \<Rightarrow> string) \<Rightarrow> bool \<Rightarrow> int \<Rightarrow> TestKV go" where
  "MakeTestKV rnd rel now = (case MakeConfig rnd kvsrv_mks 1 rel now of
      Inl p \<Rightarrow> Inl p
    | Inr cfg \<Rightarrow> Inr \<lparr>tk_test = MakeTest cfg False, tk_reliable = rel\<rparr>)"

definition TestKV_MakeClerk :: "TestKV \<Rightarrow> (Clerk TestClerk \<times> TestKV) go" where
  "TestKV_MakeClerk ts = (case test_client None (tk_test ts) of
      Inl p \<Rightarrow> Inl p
    | Inr (clnt, kt) \<Rightarrow> Inr (\<lparr>tc_clerk = MakeClerk (ServerName GRP0 0), tc_Clnt = clnt\<rparr>, ts\<lparr>tk_test := kt\<rparr>))"

definition TestKV_DeleteClerk :: "Clerk TestClerk \<Rightarrow> TestKV \<Rightarrow> TestKV go" where
  "TestKV_DeleteClerk ck ts = (case test_delete ck (tk_test ts) of Inl p \<Rightarrow> Inl p | Inr kt \<Rightarrow> Inr (ts\<lparr>tk_test := kt\<rparr>))"

section \<open>The replicated service\<close>

record 'svc kvr_Test =
  vt_test :: "'svc KvTest"
  vt_part :: string
  vt_nclients :: nat
  vt_nservers :: nat
  vt_crash :: bool
  vt_partitions :: bool
  vt_maxraftstate :: int
  vt_randomkeys :: bool

definition kvr_makeTitle :: "'svc kvr_Test \<Rightarrow> string" where
  "kvr_makeTitle ts = ''Test: '' @ (if vt_crash ts then ''restarts, '' else []) @ (if vt_partitions ts then ''partitions, '' else []) @
     (if vt_maxraftstate ts \<noteq> -1 then ''snapshots, '' else []) @ (if vt_randomkeys ts then ''random keys, '' else []) @
     (if vt_nclients ts > 1 then ''many clients'' else ''one client'') @ '' ('' @ vt_part ts @ '')''"

text \<open>\<open>mks\<close> takes the bound on the size of the Raft state first. The title is printed when the test begins.\<close>

definition kvr_MakeTest :: "(nat \<Rightarrow> string) \<Rightarrow> (int \<Rightarrow> 'svc FstartServer) \<Rightarrow> string \<Rightarrow> nat \<Rightarrow> nat \<Rightarrow> bool \<Rightarrow> bool \<Rightarrow> bool \<Rightarrow> int \<Rightarrow> bool \<Rightarrow> int \<Rightarrow> int \<Rightarrow>
    ('svc kvr_Test \<times> string) go" where
  "kvr_MakeTest rnd mks part nclients nsrv rel crash partitions maxraftstate randomkeys now now' =
     (case MakeConfig rnd (mks maxraftstate) nsrv rel now of
        Inl p \<Rightarrow> Inl p
      | Inr cfg \<Rightarrow>
          let ts = \<lparr>vt_test = MakeTest (Begin now' cfg) randomkeys, vt_part = part, vt_nclients = nclients, vt_nservers = nsrv,
                   vt_crash = crash, vt_partitions = partitions, vt_maxraftstate = maxraftstate, vt_randomkeys = randomkeys\<rparr>
          in Inr (ts, kvr_makeTitle ts))"

definition kvr_Gid :: int where "kvr_Gid = GRP0"

definition kvr_Test_MakeClerk :: "'svc kvr_Test \<Rightarrow> (kvr_Clerk TestClerk \<times> 'svc kvr_Test) go" where
  "kvr_Test_MakeClerk ts = (case test_client None (vt_test ts) of
      Inl p \<Rightarrow> Inl p
    | Inr (clnt, kt) \<Rightarrow> (case Group kvr_Gid (kt_cfg kt) of
        None \<Rightarrow> Inl NilPanic
      | Some sg \<Rightarrow> Inr (\<lparr>tc_clerk = kvr_MakeClerk clnt (SrvNames sg), tc_Clnt = clnt\<rparr>, ts\<lparr>vt_test := kt\<rparr>)))"

definition kvr_Test_MakeClerkTo :: "int list \<Rightarrow> 'svc kvr_Test \<Rightarrow> (kvr_Clerk TestClerk \<times> 'svc kvr_Test) go" where
  "kvr_Test_MakeClerkTo to ts = (case Group kvr_Gid (kt_cfg (vt_test ts)) of
      None \<Rightarrow> Inl NilPanic
    | Some sg \<Rightarrow> (case SrvNamesTo to sg of
        Inl p \<Rightarrow> Inl p
      | Inr ns \<Rightarrow> (case test_client (Some ns) (vt_test ts) of
          Inl p \<Rightarrow> Inl p
        | Inr (clnt, kt) \<Rightarrow> Inr (\<lparr>tc_clerk = kvr_MakeClerk clnt (SrvNames sg), tc_Clnt = clnt\<rparr>, ts\<lparr>vt_test := kt\<rparr>))))"

definition kvr_Test_DeleteClerk :: "kvr_Clerk TestClerk \<Rightarrow> 'svc kvr_Test \<Rightarrow> 'svc kvr_Test go" where
  "kvr_Test_DeleteClerk ck ts = (case test_delete ck (vt_test ts) of Inl p \<Rightarrow> Inl p | Inr kt \<Rightarrow> Inr (ts\<lparr>vt_test := kt\<rparr>))"

definition kvr_Test_cleanup :: "('svc \<Rightarrow> pop list) \<Rightarrow> int \<Rightarrow> int \<Rightarrow> string \<Rightarrow> bool \<Rightarrow> 'svc kvr_Test \<times> Annotation \<Rightarrow> ('svc kvr_Test \<times> Annotation) go" where
  "kvr_Test_cleanup kill now t vis opens st = (case Test_Cleanup kill now t vis opens (vt_test (fst st), snd st) of
      Inl p \<Rightarrow> Inl p
    | Inr (kt, an) \<Rightarrow> Inr ((fst st)\<lparr>vt_test := kt\<rparr>, an))"

section \<open>The replicated counter\<close>

text \<open>The servers of the test are nil until they are started.\<close>

record 'svc rsm_setup =
  ru_cfg :: "'svc Config"
  ru_maxraftstate :: int
  ru_srvs :: "rsmSrv option list"
  ru_leader :: nat

definition rsm_makeTest :: "(nat \<Rightarrow> string) \<Rightarrow> 'svc FstartServer \<Rightarrow> int \<Rightarrow> int \<Rightarrow> 'svc rsm_setup go" where
  "rsm_makeTest rnd mks maxraftstate now = (case MakeConfig rnd mks NSRV True now of
      Inl p \<Rightarrow> Inl p
    | Inr cfg \<Rightarrow> (case Group GRP0 cfg of
        None \<Rightarrow> Inl NilPanic
      | Some _ \<Rightarrow> Inr \<lparr>ru_cfg = cfg, ru_maxraftstate = maxraftstate, ru_srvs = replicate NSRV None, ru_leader = 0\<rparr>))"

text \<open>Starting a server: it is entered into the test, and its Raft peer is the service.\<close>

definition rsm_mksrv :: "(iface \<Rightarrow> 'g \<Rightarrow> 'g) \<Rightarrow> bool \<Rightarrow> ClientEnd list \<Rightarrow> nat \<Rightarrow> Persister \<Rightarrow> heap \<Rightarrow> int \<Rightarrow> int \<Rightarrow> int \<Rightarrow>
    (labgob \<times> 'g) \<times> rsmSrv option list \<Rightarrow> (((labgob \<times> 'g) \<times> rsmSrv option list) \<times> Raft option list) go option" where
  "rsm_mksrv greg useRaftStateMachine cends i ps h now rnd maxraftstate st =
     (case makeRsmSrv greg useRaftStateMachine i cends ps h now rnd maxraftstate (fst st) of
        None \<Rightarrow> None
      | Some (Inl p) \<Rightarrow> Some (Inl p)
      | Some (Inr (lg, s)) \<Rightarrow> (case go_update (snd st) (int i) (Some s) of
          Inl p \<Rightarrow> Some (Inl p)
        | Inr srvs \<Rightarrow> (case srv_Raft s of Inl p \<Rightarrow> Some (Inl p) | Inr rf \<Rightarrow> Some (Inr ((lg, srvs), [rf])))))"

definition rsm_cleanup :: "('svc \<Rightarrow> pop list) \<Rightarrow> int \<Rightarrow> int \<Rightarrow> string \<Rightarrow> bool \<Rightarrow> 'svc rsm_setup \<times> Annotation \<Rightarrow> ('svc rsm_setup \<times> Annotation) go" where
  "rsm_cleanup kill now t vis opens st = (case st of (ts, an) \<Rightarrow>
     (case End now (ru_cfg ts) of
        Inl p \<Rightarrow> Inl p
      | Inr _ \<Rightarrow> (case cfg_Cleanup kill now t vis opens (ru_cfg ts, an) of
          Inl p \<Rightarrow> Inl p
        | Inr (cfg, an, _) \<Rightarrow> (case cfg_CheckTimeout now cfg of Inl p \<Rightarrow> Inl p | Inr _ \<Rightarrow> Inr (ts\<lparr>ru_cfg := cfg\<rparr>, an)))))"

definition disconnectLeader :: "'svc rsm_setup \<Rightarrow> (nat \<times> 'svc rsm_setup) go" where
  "disconnectLeader ts = (case with_group GRP0 (DisconnectAll (ru_leader ts)) (ru_cfg ts) of
      Inl p \<Rightarrow> Inl p
    | Inr cfg \<Rightarrow> Inr (ru_leader ts, ts\<lparr>ru_cfg := cfg\<rparr>))"

definition rsm_connect :: "nat \<Rightarrow> 'svc rsm_setup \<Rightarrow> 'svc rsm_setup go" where
  "rsm_connect i ts = (case with_group GRP0 (ConnectOne i) (ru_cfg ts) of Inl p \<Rightarrow> Inl p | Inr cfg \<Rightarrow> Inr (ts\<lparr>ru_cfg := cfg\<rparr>))"

section \<open>The sharded service\<close>

record 'svc shk_Test =
  xt_test :: "'svc KvTest"
  xt_sck :: "ShardCtrler option"
  xt_part :: string
  xt_partition :: bool
  xt_maxraftstate :: int
  xt_ngid :: Tgid

text \<open>Group 0 is one server of \<open>kvsrv1\<close>, for the controller; the description of the test is annotated and printed.\<close>

definition MakeTestMaxRaft :: "(nat \<Rightarrow> string) \<Rightarrow> 'svc FstartServer \<Rightarrow> string \<Rightarrow> bool \<Rightarrow> bool \<Rightarrow> int \<Rightarrow> int \<Rightarrow> int \<Rightarrow> globals \<Rightarrow>
    ('svc shk_Test \<times> globals) go" where
  "MakeTestMaxRaft rnd mks part rel parts maxraftstate now t g = (case MakeConfig rnd mks 1 rel now of
      Inl p \<Rightarrow> Inl p
    | Inr cfg \<Rightarrow> Inr (\<lparr>xt_test = MakeTest (Begin t cfg) False, xt_sck = None, xt_part = '''', xt_partition = parts,
                     xt_maxraftstate = maxraftstate, xt_ngid = Gid1 + 1\<rparr>, AnnotateTest t part 1 g))"

definition shk_MakeTest :: "(nat \<Rightarrow> string) \<Rightarrow> 'svc FstartServer \<Rightarrow> string \<Rightarrow> bool \<Rightarrow> int \<Rightarrow> int \<Rightarrow> globals \<Rightarrow> ('svc shk_Test \<times> globals) go" where
  "shk_MakeTest rnd mks part rel = MakeTestMaxRaft rnd mks part rel False (-1)"

definition MakeTestLeases :: "(nat \<Rightarrow> string) \<Rightarrow> 'svc FstartServer \<Rightarrow> string \<Rightarrow> bool \<Rightarrow> int \<Rightarrow> int \<Rightarrow> globals \<Rightarrow> ('svc shk_Test \<times> globals) go" where
  "MakeTestLeases rnd mks part rel = MakeTestMaxRaft rnd mks part rel True (-1)"

definition shk_client :: "'svc shk_Test \<Rightarrow> (nat \<times> 'svc shk_Test) go" where
  "shk_client ts = (case test_client None (xt_test ts) of Inl p \<Rightarrow> Inl p | Inr (clnt, kt) \<Rightarrow> Inr (clnt, ts\<lparr>xt_test := kt\<rparr>))"

definition makeShardCtrlerClnt :: "'svc shk_Test \<Rightarrow> ((ShardCtrler \<times> nat) \<times> 'svc shk_Test) go" where
  "makeShardCtrlerClnt ts = (case shk_client ts of Inl p \<Rightarrow> Inl p | Inr (clnt, ts) \<Rightarrow> Inr ((MakeShardCtrler clnt, clnt), ts))"

definition makeShardCtrler :: "'svc shk_Test \<Rightarrow> (ShardCtrler \<times> 'svc shk_Test) go" where
  "makeShardCtrler ts = (case makeShardCtrlerClnt ts of Inl p \<Rightarrow> Inl p | Inr ((sck, _), ts) \<Rightarrow> Inr (sck, ts))"

definition shk_Test_MakeClerk :: "'svc shk_Test \<Rightarrow> (shk_Clerk TestClerk \<times> 'svc shk_Test) go" where
  "shk_Test_MakeClerk ts = (case shk_client ts of
      Inl p \<Rightarrow> Inl p
    | Inr (clnt, ts) \<Rightarrow> (case makeShardCtrler ts of
        Inl p \<Rightarrow> Inl p
      | Inr (sck, ts) \<Rightarrow> Inr (\<lparr>tc_clerk = shk_MakeClerk clnt sck, tc_Clnt = clnt\<rparr>, ts)))"

definition shk_Test_DeleteClerk :: "shk_Clerk TestClerk \<Rightarrow> 'svc shk_Test \<Rightarrow> 'svc shk_Test go" where
  "shk_Test_DeleteClerk ck ts = (case test_delete ck (xt_test ts) of Inl p \<Rightarrow> Inl p | Inr kt \<Rightarrow> Inr (ts\<lparr>xt_test := kt\<rparr>))"

definition makeKVClerk :: "'svc shk_Test \<Rightarrow> (Clerk \<times> 'svc shk_Test) go" where
  "makeKVClerk ts = (case shk_client ts of Inl p \<Rightarrow> Inl p | Inr (_, ts) \<Rightarrow> Inr (MakeClerk (ServerName GRP0 0), ts))"

text \<open>Operations on the configuration inside a test, and on a client.\<close>

definition on_cfg :: "('svc Config \<Rightarrow> 'svc Config go) \<Rightarrow> 'svc shk_Test \<Rightarrow> 'svc shk_Test go" where
  "on_cfg f ts = (case f (kt_cfg (xt_test ts)) of Inl p \<Rightarrow> Inl p | Inr cfg \<Rightarrow> Inr (ts\<lparr>xt_test := (xt_test ts)\<lparr>kt_cfg := cfg\<rparr>\<rparr>))"

definition on_client :: "(Clnt \<times> 'svc shared \<Rightarrow> Clnt \<times> 'svc shared) \<Rightarrow> nat \<Rightarrow> 'svc Config \<Rightarrow> 'svc Config" where
  "on_client f p cfg = (let objs = cl_objs (cfg_clnts cfg); (clnt, sh) = f (objs ! p, cfg_shared cfg)
     in cfg\<lparr>cfg_clnts := (cfg_clnts cfg)\<lparr>cl_objs := objs[p := clnt]\<rparr>, cfg_shared := sh\<rparr>)"

definition disconnectClntFromLeader :: "('svc \<Rightarrow> Raft option) \<Rightarrow> ('svc \<Rightarrow> pop list) \<Rightarrow> Tgid \<Rightarrow> 'svc shk_Test \<Rightarrow> (nat \<times> 'svc shk_Test) go" where
  "disconnectClntFromLeader as_raft kill gid ts = (case Group gid (kt_cfg (xt_test ts)) of
      None \<Rightarrow> Inl NilPanic
    | Some sg \<Rightarrow> (case rsm_Leader as_raft (Services sg) of (ok, l) \<Rightarrow>
        if \<not> ok then Inl LogFatal
        else (case on_cfg (with_group gid (ShutdownServer kill l)) ts of Inl p \<Rightarrow> Inl p | Inr ts \<Rightarrow> Inr (l, ts))))"

text \<open>
  The check that data is sharded: with a group down, some of the calls by one new clerk for each key must get no answer; then the group is started again.
\<close>

fun shk_clerks :: "nat \<Rightarrow> 'svc shk_Test \<Rightarrow> 'svc shk_Test go" where
  "shk_clerks 0 ts = Inr ts"
| "shk_clerks (Suc n) ts = (case shk_Test_MakeClerk ts of Inl p \<Rightarrow> Inl p | Inr (_, ts) \<Rightarrow> shk_clerks n ts)"

definition checkShutdownSharding :: "(nat \<Rightarrow> string) \<Rightarrow> 'svc FstartServer \<Rightarrow> ('svc \<Rightarrow> pop list) \<Rightarrow> Tgid \<Rightarrow> nat \<Rightarrow> (string \<times> string) list \<Rightarrow>
    'svc shk_Test \<Rightarrow> 'svc shk_Test go" where
  "checkShutdownSharding rnd mks kill down n answers ts = (case on_cfg (with_group down (Shutdown kill)) ts of
      Inl p \<Rightarrow> Inl p
    | Inr ts \<Rightarrow> (case shk_clerks n ts of
        Inl p \<Rightarrow> Inl p
      | Inr ts \<Rightarrow> (case shutdown_verdict n answers of
          Inl p \<Rightarrow> Inl p
        | Inr _ \<Rightarrow> on_cfg (with_group down (StartServers rnd mks)) ts)))"

text \<open>Checking every key, from the calls that the clerk makes for it: their times and results.\<close>

fun check_keys :: "(string \<times> string) list \<Rightarrow> (int \<times> (int \<times> int \<times> get_result) \<times> int) list \<Rightarrow> 'svc KvTest \<times> globals \<Rightarrow> ('svc KvTest \<times> globals) go" where
  "check_keys ((k, v) # kvs) ((t, call, t') # calls) st = (case CheckGet k v 1 t call t' st of Inl p \<Rightarrow> Inl p | Inr st \<Rightarrow> check_keys kvs calls st)"
| "check_keys kvs calls st = Inr st"

section \<open>Controllers that race\<close>

text \<open>
  One round of a controller that makes a new group join and, if it is a member then, leave. The result also says whether
  it was a member.
\<close>

definition ctrler_round :: "(nat \<Rightarrow> string) \<Rightarrow> 'svc FstartServer \<Rightarrow> ('svc \<Rightarrow> pop list) \<Rightarrow> ShardCtrler \<Rightarrow> 'svc shk_Test \<Rightarrow>
    (bool \<times> ShardCtrler \<times> 'svc shk_Test) go option" where
  "ctrler_round rnd mks kill sck ts =
     (let (ngid, nxt) = newGid (xt_ngid ts);
          ts = ts\<lparr>xt_ngid := nxt\<rparr>;
          put = (\<lambda>cfg. ts\<lparr>xt_test := (xt_test ts)\<lparr>kt_cfg := cfg\<rparr>\<rparr>)
      in case joinGroups rnd mks [ngid] (sck, kt_cfg (xt_test ts)) of
           None \<Rightarrow> None
         | Some (Inl p) \<Rightarrow> Some (Inl p)
         | Some (Inr (_, sck, cfg)) \<Rightarrow> (case checkMember sck ngid of
             Inl p \<Rightarrow> Some (Inl p)
           | Inr False \<Rightarrow> Some (Inr (False, sck, put cfg))
           | Inr True \<Rightarrow> (case leaveGroups kill [ngid] (sck, cfg) of
               None \<Rightarrow> None
             | Some (Inl p) \<Rightarrow> Some (Inl p)
             | Some (Inr (_, sck, cfg)) \<Rightarrow> Some (Inr (True, sck, put cfg)))))"

text \<open>
  The controllers of \<open>concurCtrler\<close>: each round has a new controller. The rounds that the four goroutines finish before they are stopped are
  taken one after the other; a panic of a goroutine ends the process.
\<close>

fun ctrler_rounds :: "nat \<Rightarrow> (nat \<Rightarrow> string) \<Rightarrow> 'svc FstartServer \<Rightarrow> ('svc \<Rightarrow> pop list) \<Rightarrow> 'svc shk_Test \<Rightarrow> 'svc shk_Test go option" where
  "ctrler_rounds 0 rnd mks kill ts = Some (Inr ts)"
| "ctrler_rounds (Suc k) rnd mks kill ts = (case makeShardCtrler ts of
      Inl p \<Rightarrow> Some (Inl p)
    | Inr (sck, ts) \<Rightarrow> (case ctrler_round rnd mks kill (InitController sck) ts of
        None \<Rightarrow> None
      | Some (Inl p) \<Rightarrow> Some (Inl p)
      | Some (Inr (_, _, ts)) \<Rightarrow> ctrler_rounds k rnd mks kill ts))"

definition concurCtrler :: "nat \<Rightarrow> (nat \<Rightarrow> string) \<Rightarrow> 'svc FstartServer \<Rightarrow> ('svc \<Rightarrow> pop list) \<Rightarrow> (string \<times> string) list \<Rightarrow>
    (int \<times> (int \<times> int \<times> get_result) \<times> int) list \<Rightarrow> 'svc shk_Test \<times> globals \<Rightarrow> ('svc shk_Test \<times> globals) go option" where
  "concurCtrler rounds rnd mks kill kvs calls st = (case ctrler_rounds rounds rnd mks kill (fst st) of
      None \<Rightarrow> None
    | Some (Inl p) \<Rightarrow> Some (Inl p)
    | Some (Inr ts) \<Rightarrow> (case check_keys kvs calls (xt_test ts, snd st) of
        Inl p \<Rightarrow> Some (Inl p)
      | Inr (kt, g) \<Rightarrow> Some (Inr (ts\<lparr>xt_test := kt\<rparr>, g))))"

text \<open>
  \<open>partitionCtrler\<close>: a controller changes the configuration in the background while a group is shut down, is cut off, and a second controller must
  finish its change. \<open>bg\<close> is what the first one has done by then, with its variables \<open>state\<close> and \<open>ngid\<close>.
\<close>

definition JOIN :: int where "JOIN = 1"
definition LEAVE :: int where "LEAVE = 2"

definition recovered :: "int \<Rightarrow> Tgid \<Rightarrow> Tnum \<Rightarrow> ShardConfig \<Rightarrow> unit go" where
  "recovered state ngid num cfg =
     (if Num cfg \<le> num then Inl TestFatal
      else let present = IsMember ngid cfg
           in if state = JOIN \<and> \<not> present \<or> state = LEAVE \<and> present then Inl TestFatal else Inr ())"

definition restart_and_recover :: "(nat \<Rightarrow> string) \<Rightarrow> 'svc FstartServer \<Rightarrow> ('svc \<Rightarrow> pop list) \<Rightarrow> Tgid \<Rightarrow> nat \<Rightarrow> int \<Rightarrow> Tgid \<Rightarrow> Tnum \<Rightarrow>
    'svc shk_Test \<Rightarrow> (nat \<times> 'svc shk_Test) go option" where
  "restart_and_recover rnd mks kill gid clnt state ngid num ts =
     (case on_cfg (\<lambda>cfg. case with_group gid (Shutdown kill) cfg of
          Inl p \<Rightarrow> Inl p
        | Inr cfg \<Rightarrow> with_group gid (StartServers rnd mks) (on_client Clnt_DisconnectAll clnt cfg)) ts of
        Inl p \<Rightarrow> Some (Inl p)
      | Inr ts \<Rightarrow> (case makeShardCtrlerClnt ts of
          Inl p \<Rightarrow> Some (Inl p)
        | Inr ((sck0, clnt0), ts) \<Rightarrow> (case Query (InitController sck0) of
            None \<Rightarrow> Some (Inl NilPanic)
          | Some cfg \<Rightarrow> (case recovered state ngid num cfg of
              Inl p \<Rightarrow> Some (Inl p)
            | Inr _ \<Rightarrow>
                if state = JOIN \<and> IsMember ngid cfg
                then (case leaveGroups kill [ngid] (sck0, kt_cfg (xt_test ts)) of
                   None \<Rightarrow> None
                 | Some (Inl p) \<Rightarrow> Some (Inl p)
                 | Some (Inr (_, _, c)) \<Rightarrow> Some (Inr (clnt0, ts\<lparr>xt_test := (xt_test ts)\<lparr>kt_cfg := c\<rparr>\<rparr>)))
                else Some (Inr (clnt0, ts))))))"

definition delete_clients :: "nat list \<Rightarrow> 'svc Config \<Rightarrow> 'svc Config go" where
  "delete_clients ps cfg = go_fold (\<lambda>p cfg. case DeleteClient p (cfg_clnts cfg, cfg_shared cfg) of
      Inl f \<Rightarrow> Inl f | Inr (clnts, sh) \<Rightarrow> Inr (cfg\<lparr>cfg_clnts := clnts, cfg_shared := sh\<rparr>)) ps cfg"

definition partitionCtrler :: "(nat \<Rightarrow> string) \<Rightarrow> 'svc FstartServer \<Rightarrow> ('svc \<Rightarrow> pop list) \<Rightarrow>
    (ShardCtrler \<Rightarrow> 'svc shk_Test \<Rightarrow> (int \<times> Tgid \<times> 'svc shk_Test) go) \<Rightarrow> Tgid \<Rightarrow> (string \<times> string) list \<Rightarrow>
    (int \<times> (int \<times> int \<times> get_result) \<times> int) list \<Rightarrow> 'svc shk_Test \<times> globals \<Rightarrow> ('svc shk_Test \<times> globals) go option" where
  "partitionCtrler rnd mks kill bg gid kvs calls st = (case makeShardCtrlerClnt (fst st) of
      Inl p \<Rightarrow> Some (Inl p)
    | Inr ((sck, clnt), ts) \<Rightarrow> (case Option.bind (xt_sck ts) Query of
        None \<Rightarrow> Some (Inl NilPanic)
      | Some cfg \<Rightarrow> (case bg (InitController sck) ts of
          Inl p \<Rightarrow> Some (Inl p)
        | Inr (state, ngid, ts) \<Rightarrow> (case restart_and_recover rnd mks kill gid clnt state ngid (Num cfg) ts of
            None \<Rightarrow> None
          | Some (Inl p) \<Rightarrow> Some (Inl p)
          | Some (Inr (clnt0, ts)) \<Rightarrow>
              let ts = (if xt_partition ts then ts\<lparr>xt_test := (xt_test ts)\<lparr>kt_cfg := on_client Clnt_ConnectAll clnt (kt_cfg (xt_test ts))\<rparr>\<rparr> else ts)
              in case check_keys kvs calls (xt_test ts, snd st) of
                   Inl p \<Rightarrow> Some (Inl p)
                 | Inr (kt, g) \<Rightarrow> (case on_cfg (delete_clients [clnt, clnt0]) (ts\<lparr>xt_test := kt\<rparr>) of
                     Inl p \<Rightarrow> Some (Inl p)
                   | Inr ts \<Rightarrow> Some (Inr (ts, g)))))))"

section \<open>Facts\<close>

text \<open>A new clerk uses a client of its own, and deleting it leaves the clients of the test as they were.\<close>

lemma make_delete_clerk:
  assumes "Tester_Clnts.clerks (cfg_clnts (kt_cfg (tk_test ts))) = Some ps" "\<forall>p\<in>set ps. p < length (cl_objs (cfg_clnts (kt_cfg (tk_test ts))))"
  shows "\<exists>ck ts'. TestKV_MakeClerk ts = Inr (ck, ts') \<and> tc_Clnt ck \<notin> set ps \<and>
    (\<exists>ts''. TestKV_DeleteClerk ck ts' = Inr ts'' \<and> Tester_Clnts.clerks (cfg_clnts (kt_cfg (tk_test ts''))) = Some ps \<and>
       cfg_shared (kt_cfg (tk_test ts'')) = cfg_shared (kt_cfg (tk_test ts)))"
proof -
  have "filter (\<lambda>q. q \<noteq> length (cl_objs (cfg_clnts (kt_cfg (tk_test ts))))) ps = ps" using assms(2) by (intro filter_True) auto
  then show ?thesis using assms
    by (auto simp: TestKV_MakeClerk_def test_client_def MakeClientTo_def Let_def TestKV_DeleteClerk_def test_delete_def DeleteClient_def
        Clnt_remove_def makeClntTo_def)
qed

text \<open>A test of the single server starts, and the first call of a new clerk finds a live end to the server that it is made for.\<close>

lemma MakeTestKV_reaches:
  assumes "inj rnd"
  shows "\<exists>ts ck ts'. MakeTestKV rnd rel now = Inr ts \<and> TestKV_MakeClerk ts = Inr (ck, ts') \<and>
    (\<exists>e clnt sh sv. Clnt_makeEnd rnd (clerk_server (tc_clerk ck)) (cl_objs (cfg_clnts (kt_cfg (tk_test ts'))) ! tc_Clnt ck, cfg_shared (kt_cfg (tk_test ts'))) =
       Inr (e, clnt, sh) \<and> live e (clerk_server (tc_clerk ck)) sv (t_net sh))"
proof -
  obtain cfg sg where cfg: "MakeConfig rnd kvsrv_mks 1 rel now = Inr cfg" "Group GRP0 cfg = Some sg" "sg_gid sg = GRP0"
    and l: "\<exists>e clnt ts sv. Clnt_makeEnd rnd (ServerName (sg_gid sg) 0) (makeClntTo None, cfg_shared cfg) = Inr (e, clnt, ts) \<and>
       live e (ServerName (sg_gid sg) 0) sv (t_net ts)"
    using MakeConfig_ok [OF assms, of kvsrv_mks 1 rel now] by (metis zero_less_one)
  have "cfg_clnts cfg = makeClnts" using cfg(1) by (auto simp: MakeConfig_def Let_def SetReliable_def on_net_def split: sum.splits)
  then show ?thesis using cfg l
    by (auto simp: MakeTestKV_def MakeTest_def TestKV_MakeClerk_def test_client_def MakeClientTo_def makeClnts_def MakeClerk_def)
qed

text \<open>
  With the controller as it is written, which keeps no configuration, neither test of racing controllers can pass: \<open>partitionCtrler\<close> panics at its
  first look at the configuration, and \<open>concurCtrler\<close> fails in the first round that a goroutine starts, when its group joins.
\<close>

lemma partitionCtrler_panics:
  assumes "Tester_Clnts.clerks (cfg_clnts (kt_cfg (xt_test (fst st)))) = Some ps"
  shows "partitionCtrler rnd mks kill bg gid kvs calls st = Some (Inl NilPanic)"
  using assms by (cases "xt_sck (fst st)")
    (auto simp: partitionCtrler_def makeShardCtrlerClnt_def shk_client_def test_client_def MakeClientTo_def Let_def Query_def)

lemma joinGroups_fails: "\<exists>p. joinGroups rnd mks (gid # rest) (sck, cfg) = Some (Inl p)"
  by (auto simp: Test_join_def change_config_def Query_def split: sum.splits option.splits)

lemma ctrler_round_fails: "\<exists>p. ctrler_round rnd mks kill sck ts = Some (Inl p)"
  using joinGroups_fails [of rnd mks "xt_ngid ts" "[]" sck "kt_cfg (xt_test ts)"]
  by (auto simp: ctrler_round_def newGid_def Let_def simp del: joinGroups.simps)

lemma concurCtrler_fails: "\<exists>p. concurCtrler (Suc k) rnd mks kill kvs calls st = Some (Inl p)"
proof -
  have "\<exists>p. ctrler_rounds (Suc k) rnd mks kill (fst st) = Some (Inl p)"
  proof (cases "makeShardCtrler (fst st)")
    case (Inr r)
    then show ?thesis using ctrler_round_fails [of rnd mks kill "InitController (fst r)" "snd r"] by (cases r) auto
  qed simp
  then show ?thesis by (auto simp: concurCtrler_def)
qed

end
