(* ===== verification/Kv_Over_Labrpc.thy ===== *)
theory Kv_Over_Labrpc
  imports Kv_Linear Labrpc
begin

text \<open>
  The key/value server and its clerks over the simulated network: the service that \<open>labrpc\<close> makes of the methods of
  \<open>kvsrv1\<close>'s server, and one attempt of a clerk's call as \<open>labrpc\<close> processes it. Every attempt is a step of the system of
  clerks and server that \<open>Kv_Linear\<close> proves linearizable, as long as the network gives up on no call while its handler is
  running; \<open>Kv_Late\<close> has the runs in which it does. What gob writes and reads is a parameter.
\<close>

section \<open>The service\<close>

record gob_codec =
  gc_put :: "PutArgs \<Rightarrow> uint8 list"
  gc_unput :: "uint8 list \<Rightarrow> PutArgs"
  gc_putr :: "PutReply \<Rightarrow> uint8 list"
  gc_unputr :: "uint8 list \<Rightarrow> PutReply option"
  gc_get :: "GetArgs \<Rightarrow> uint8 list"
  gc_unget :: "uint8 list \<Rightarrow> GetArgs"
  gc_getr :: "GetReply \<Rightarrow> uint8 list"
  gc_ungetr :: "uint8 list \<Rightarrow> GetReply option"

text \<open>Gob reads back what it wrote.\<close>

definition codec_ok :: "gob_codec \<Rightarrow> bool" where
  "codec_ok gc \<longleftrightarrow> (\<forall>a. gc_unput gc (gc_put gc a) = a) \<and> (\<forall>r. gc_unputr gc (gc_putr gc r) = Some r) \<and>
     (\<forall>a. gc_unget gc (gc_get gc a) = a) \<and> (\<forall>r. gc_ungetr gc (gc_getr gc r) = Some r)"

text \<open>
  The exported methods of the server as reflection shows them. Two have the shape of a handler; they are run on the decoded
  arguments and a zero reply. The put handler never ends the process (\<open>Server_Put_eq\<close>).
\<close>

definition kv_methods :: "gob_codec \<Rightarrow> KVServer rpc_method list" where
  "kv_methods gc =
     [\<lparr>m_name = ''AddRecord'', m_PkgPath = '''', m_NumIn = 4, m_In2_ptr = False, m_NumOut = 0, m_call = (\<lambda>_ kv. (kv, []))\<rparr>,
      \<lparr>m_name = ''Get'', m_PkgPath = '''', m_NumIn = 3, m_In2_ptr = True, m_NumOut = 0,
       m_call = (\<lambda>bs kv. (kv, gc_getr gc (Server_Get kv (gc_unget gc bs) GetReply0)))\<rparr>,
      \<lparr>m_name = ''Kill'', m_PkgPath = '''', m_NumIn = 1, m_In2_ptr = False, m_NumOut = 0, m_call = (\<lambda>_ kv. (Server_Kill kv, []))\<rparr>,
      \<lparr>m_name = ''Put'', m_PkgPath = '''', m_NumIn = 3, m_In2_ptr = True, m_NumOut = 0,
       m_call = (\<lambda>bs kv. case Server_Put kv (gc_unput gc bs) PutReply0 of
          Inl _ \<Rightarrow> (kv, [])
        | Inr (kv', r) \<Rightarrow> (kv', gc_putr gc r))\<rparr>,
      \<lparr>m_name = ''UpdateRecord'', m_PkgPath = '''', m_NumIn = 3, m_In2_ptr = False, m_NumOut = 1, m_call = (\<lambda>_ kv. (kv, []))\<rparr>]"

definition kv_service :: "gob_codec \<Rightarrow> KVServer Server" where
  "kv_service gc = AddService (MakeService ''KVServer'' (kv_methods gc)) MakeServer"

text \<open>
  The network looks every 100 milliseconds whether the server of the end is still there, and if it is not, it answers the call with a failure
  although the handler that was started is still running.
\<close>

definition left_running :: "string \<Rightarrow> Network \<Rightarrow> wait_event list \<Rightarrow> bool" where
  "left_running en rn evs =
     (let i = readEndnameInfo en rn
      in case (i_servername i, i_server i) of
           (Some sn, Some sv) \<Rightarrow> wait_loop en sn sv evs = Some False
         | _ \<Rightarrow> False)"

text \<open>
  One call on the network: the store after it, and the answer. The server of the end is the key/value server \<open>rs\<close> with store \<open>kv\<close>;
  the other arguments are those of \<open>processReq\<close>. \<open>None\<close>: the call has not ended, or it has ended while the handler that was started is still
  running. Calls of the second kind take effect at a later time, when the store is another one; \<open>Kv_Late\<close> has them.
\<close>

definition kv_rpc :: "string \<Rightarrow> uint8 list \<Rightarrow> choices \<Rightarrow> string \<Rightarrow> Network \<Rightarrow> wait_event list \<Rightarrow> Network \<Rightarrow>
    KVServer Server \<Rightarrow> KVServer \<Rightarrow> (KVServer \<times> replyMsg) go option" where
  "kv_rpc meth args ch en rn evs rn' rs kv =
     (let req = \<lparr>rq_endname = en, rq_svcMeth = meth, rq_args = args\<rparr>
      in case Server_dispatch req rs kv of
           Inl p \<Rightarrow> Some (Inl p)
         | Inr (_, kv', reply) \<Rightarrow> (case processReq (\<lambda>_ _. reply) ch req rn evs rn' of
             None \<Rightarrow> None
           | Some o1 \<Rightarrow> if o_executed o1 = None then Some (Inr (kv, o_reply o1))
                        else if left_running en rn evs then None
                        else Some (Inr (kv', o_reply o1))))"

section \<open>Clerks on the network\<close>

text \<open>
  Clerks that call a server over the network, with no history variable: the store, what each clerk is doing (the call with
  the time it was made and the outcomes of its attempts), the operations returned, with the times of call and return that
  the tests log, and the fault that ended the process. Every step takes one tick of the clock. The network that an
  attempt finds and the random numbers drawn are arbitrary; on a network that was cleaned up an attempt fails at once. Calls that the
  network gives up on while their handler is running are not steps here.
\<close>

datatype net_pc =
    NIdle
  | NPut nat PutArgs "PutReply option list"
  | NGet nat GetArgs "GetReply option list"

record net_op =
  nd_input :: KvInput
  nd_output :: KvOutput
  nd_call :: nat
  nd_ret :: nat

record net_sys =
  ns_srv :: KVServer
  ns_clerks :: "nat \<Rightarrow> net_pc"
  ns_time :: nat
  ns_log :: "net_op list"
  ns_fault :: "fault option"

definition net_init :: net_sys where
  "net_init = \<lparr>ns_srv = MakeKVServer, ns_clerks = (\<lambda>_. NIdle), ns_time = 0, ns_log = [], ns_fault = None\<rparr>"

definition set_clerk :: "nat \<Rightarrow> net_pc \<Rightarrow> net_sys \<Rightarrow> net_sys" where
  "set_clerk c pc n = n\<lparr>ns_clerks := (ns_clerks n)(c := pc), ns_time := Suc (ns_time n)\<rparr>"

text \<open>What \<open>ClientEnd.Call\<close> makes of an answer: the reply is decoded for the retry loop of the clerk.\<close>

definition after_rpc :: "(uint8 list \<Rightarrow> 'r option) \<Rightarrow> nat \<Rightarrow> ('r option \<Rightarrow> net_pc) \<Rightarrow> (KVServer \<times> replyMsg) go \<Rightarrow> net_sys \<Rightarrow> net_sys" where
  "after_rpc dec c pc r n =
     (case r of
        Inl f \<Rightarrow> n\<lparr>ns_fault := Some f\<rparr>
      | Inr (kv, rep) \<Rightarrow>
          (case Call dec False rep of
             Inl f \<Rightarrow> n\<lparr>ns_srv := kv, ns_fault := Some f\<rparr>
           | Inr out \<Rightarrow> set_clerk c (pc out) (n\<lparr>ns_srv := kv\<rparr>)))"

definition log_done :: "KvInput \<Rightarrow> KvOutput \<Rightarrow> nat \<Rightarrow> net_sys \<Rightarrow> net_sys" where
  "log_done i out t n = n\<lparr>ns_log := ns_log n @ [\<lparr>nd_input = i, nd_output = out, nd_call = t, nd_ret = ns_time n\<rparr>]\<rparr>"

inductive net_step :: "gob_codec \<Rightarrow> net_sys \<Rightarrow> net_sys \<Rightarrow> bool" for gc where
  net_start_put: "ns_clerks n c = NIdle \<Longrightarrow> net_step gc n (set_clerk c (NPut (ns_time n) a []) n)"
| net_start_get: "ns_clerks n c = NIdle \<Longrightarrow> net_step gc n (set_clerk c (NGet (ns_time n) g []) n)"
| net_put: "ns_clerks n c = NPut t a os \<Longrightarrow> Clerk_Put os = None \<Longrightarrow>
     kv_rpc (''KVServer'' @ ''.'' @ ''Put'') (gc_put gc a) ch en rn evs rn' (kv_service gc) (ns_srv n) = Some r \<Longrightarrow>
     net_step gc n (after_rpc (gc_unputr gc) c (\<lambda>out. NPut t a (os @ [out])) r n)"
| net_get: "ns_clerks n c = NGet t g os \<Longrightarrow> Clerk_Get os = None \<Longrightarrow>
     kv_rpc (''KVServer'' @ ''.'' @ ''Get'') (gc_get gc g) ch en rn evs rn' (kv_service gc) (ns_srv n) = Some r \<Longrightarrow>
     net_step gc n (after_rpc (gc_ungetr gc) c (\<lambda>out. NGet t g (os @ [out])) r n)"
| net_put_closed: "ns_clerks n c = NPut t a os \<Longrightarrow> Clerk_Put os = None \<Longrightarrow> Call (gc_unputr gc) True rep = Inr out \<Longrightarrow>
     net_step gc n (set_clerk c (NPut t a (os @ [out])) n)"
| net_get_closed: "ns_clerks n c = NGet t g os \<Longrightarrow> Clerk_Get os = None \<Longrightarrow> Call (gc_ungetr gc) True rep = Inr out \<Longrightarrow>
     net_step gc n (set_clerk c (NGet t g (os @ [out])) n)"
| net_put_return: "ns_clerks n c = NPut t a os \<Longrightarrow> Clerk_Put os = Some err \<Longrightarrow>
     net_step gc n (set_clerk c NIdle (log_done (put_input a) (put_output err) t n))"
| net_get_return: "ns_clerks n c = NGet t g os \<Longrightarrow> Clerk_Get os = Some (v, ver, err) \<Longrightarrow>
     net_step gc n (set_clerk c NIdle (log_done (get_input (get_Key g)) (get_output v ver err) t n))"

section \<open>Attempts\<close>

lemma kv_service_dispatch:
  "Server_dispatch \<lparr>rq_endname = en, rq_svcMeth = ''KVServer'' @ ''.'' @ ''Put'', rq_args = args\<rparr> (kv_service gc) kv =
     Inr ((kv_service gc)\<lparr>srv_count := 1\<rparr>, case Server_Put kv (gc_unput gc args) PutReply0 of
       Inl _ \<Rightarrow> (kv, \<lparr>rp_ok = True, rp_reply = []\<rparr>)
     | Inr (kv', r) \<Rightarrow> (kv', \<lparr>rp_ok = True, rp_reply = gc_putr gc r\<rparr>))"
  "Server_dispatch \<lparr>rq_endname = en, rq_svcMeth = ''KVServer'' @ ''.'' @ ''Get'', rq_args = args\<rparr> (kv_service gc) kv =
     Inr ((kv_service gc)\<lparr>srv_count := 1\<rparr>, kv,
       \<lparr>rp_ok = True, rp_reply = gc_getr gc (Server_Get kv (gc_unget gc args) GetReply0)\<rparr>)"
proof -
  have s: "srv_services (kv_service gc) ''KVServer'' = Some (MakeService ''KVServer'' (kv_methods gc))" "srv_count (kv_service gc) = 0"
    by (simp_all add: kv_service_def AddService_def svc_name_MakeService MakeServer_def)
  have d: "distinct (map m_name (kv_methods gc))" by (simp add: kv_methods_def)
  show "Server_dispatch \<lparr>rq_endname = en, rq_svcMeth = ''KVServer'' @ ''.'' @ ''Put'', rq_args = args\<rparr> (kv_service gc) kv =
     Inr ((kv_service gc)\<lparr>srv_count := 1\<rparr>, case Server_Put kv (gc_unput gc args) PutReply0 of
       Inl _ \<Rightarrow> (kv, \<lparr>rp_ok = True, rp_reply = []\<rparr>)
     | Inr (kv', r) \<Rightarrow> (kv', \<lparr>rp_ok = True, rp_reply = gc_putr gc r\<rparr>))"
    using dispatch_routes [OF d _ s(1), of "''Put''" en args kv] s(2)
    by (simp add: kv_methods_def suitable_def split: sum.splits)
  show "Server_dispatch \<lparr>rq_endname = en, rq_svcMeth = ''KVServer'' @ ''.'' @ ''Get'', rq_args = args\<rparr> (kv_service gc) kv =
     Inr ((kv_service gc)\<lparr>srv_count := 1\<rparr>, kv,
       \<lparr>rp_ok = True, rp_reply = gc_getr gc (Server_Get kv (gc_unget gc args) GetReply0)\<rparr>)"
    using dispatch_routes [OF d _ s(1), of "''Get''" en args kv] s(2) by (simp add: kv_methods_def suitable_def)
qed

text \<open>Whatever the network does, the answer is a failure or that of an executed handler.\<close>

lemma processReq_answer:
  assumes "processReq (\<lambda>_ _. reply) ch req rn evs rn' = Some o1"
  shows "o_reply o1 = failed_reply \<or> o_executed o1 \<noteq> None \<and> o_reply o1 = reply"
proof (cases "\<exists>sn sv. live (rq_endname req) sn sv rn")
  case True
  then obtain sn sv where "live (rq_endname req) sn sv rn" by blast
  then show ?thesis using assms by (auto simp: processReq_live Let_def split: option.splits if_splits)
next
  case False
  then show ?thesis using assms processReq_dead by auto
qed

lemma left_running_done [simp]: "\<not> left_running en rn (HandlerDone # evs)"
  by (simp add: left_running_def Let_def split: option.splits)

lemma kv_rpc_cases:
  assumes "kv_rpc meth args ch en rn evs rn' rs kv = Some r"
    and "Server_dispatch \<lparr>rq_endname = en, rq_svcMeth = meth, rq_args = args\<rparr> rs kv = Inr (rs', kv', reply)"
  obtains "r = Inr (kv, failed_reply)" | "r = Inr (kv', failed_reply)" | "r = Inr (kv', reply)"
proof -
  obtain o1 where o1: "processReq (\<lambda>_ _. reply) ch \<lparr>rq_endname = en, rq_svcMeth = meth, rq_args = args\<rparr> rn evs rn' = Some o1"
    and r: "r = Inr (if o_executed o1 = None then kv else kv', o_reply o1)"
    using assms by (auto simp: kv_rpc_def Let_def split: option.splits if_splits)
  show thesis using processReq_answer [OF o1] r that by (cases "o_executed o1") auto
qed

lemma Call_simps [simp]:
  "Call dec False failed_reply = Inr None"
  "dec bs = Some v \<Longrightarrow> Call dec False \<lparr>rp_ok = True, rp_reply = bs\<rparr> = Inr (Some v)"
  by (simp_all add: Call_def failed_reply_def)

lemma labrpc_put_attempt:
  assumes "codec_ok gc" "clerks s c = Putting i a os p" "Clerk_Put os = None"
    and "kv_rpc (''KVServer'' @ ''.'' @ ''Put'') (gc_put gc a) ch en rn evs rn' (kv_service gc) (srv s) = Some r"
  shows "\<exists>kv' rep out s'. r = Inr (kv', rep) \<and> Call (gc_unputr gc) False rep = Inr out \<and> kv_step s s' \<and> srv s' = kv' \<and> hist s' = hist s \<and>
           clerks s' = (clerks s)(c := Putting i a (os @ [out]) p)"
proof -
  obtain kv' reply where sp: "Server_Put (srv s) a PutReply0 = Inr (kv', reply)" by (simp add: Server_Put_eq)
  have d: "Server_dispatch \<lparr>rq_endname = en, rq_svcMeth = ''KVServer'' @ ''.'' @ ''Put'', rq_args = gc_put gc a\<rparr> (kv_service gc) (srv s)
      = Inr ((kv_service gc)\<lparr>srv_count := 1\<rparr>, kv', \<lparr>rp_ok = True, rp_reply = gc_putr gc reply\<rparr>)"
    using assms(1) sp unfolding kv_service_dispatch by (simp add: codec_ok_def)
  have dec: "gc_unputr gc (gc_putr gc reply) = Some reply" using assms(1) by (simp add: codec_ok_def)
  from assms(4) d show ?thesis
  proof (cases rule: kv_rpc_cases)
    case 1
    show ?thesis using 1 put_request_lost [OF assms(2,3)] by fastforce
  next
    case 2
    show ?thesis using 2 put_reply_lost [OF assms(2,3) sp] by fastforce
  next
    case 3
    show ?thesis using 3 put_answered [OF assms(2,3) sp] dec by fastforce
  qed
qed

lemma labrpc_get_attempt:
  assumes "codec_ok gc" "clerks s c = Getting i g os p" "Clerk_Get os = None"
    and "kv_rpc (''KVServer'' @ ''.'' @ ''Get'') (gc_get gc g) ch en rn evs rn' (kv_service gc) (srv s) = Some r"
  shows "\<exists>kv' rep out s'. r = Inr (kv', rep) \<and> Call (gc_ungetr gc) False rep = Inr out \<and> kv_step s s' \<and> srv s' = kv' \<and> hist s' = hist s \<and>
           clerks s' = (clerks s)(c := Getting i g (os @ [out]) p)"
proof -
  let ?reply = "Server_Get (srv s) g GetReply0"
  have d: "Server_dispatch \<lparr>rq_endname = en, rq_svcMeth = ''KVServer'' @ ''.'' @ ''Get'', rq_args = gc_get gc g\<rparr> (kv_service gc) (srv s)
      = Inr ((kv_service gc)\<lparr>srv_count := 1\<rparr>, srv s, \<lparr>rp_ok = True, rp_reply = gc_getr gc ?reply\<rparr>)"
    using assms(1) unfolding kv_service_dispatch by (simp add: codec_ok_def)
  have dec: "gc_ungetr gc (gc_getr gc ?reply) = Some ?reply" using assms(1) by (simp add: codec_ok_def)
  from assms(4) d show ?thesis
  proof (cases rule: kv_rpc_cases)
    case 1
    show ?thesis using 1 get_lost [OF assms(2,3)] by fastforce
  next
    case 2
    show ?thesis using 2 get_lost [OF assms(2,3)] by fastforce
  next
    case 3
    show ?thesis using 3 get_answered [OF assms(2,3) refl] dec by fastforce
  qed
qed

section \<open>Simulation\<close>

text \<open>
  \<open>pos\<close> gives, for every time, the number of operations that had happened at the server. The outcomes of the attempts of a
  put need not be the same on both sides; \<open>R\<close> relates them.
\<close>

fun pc_rel :: "(PutReply option list \<Rightarrow> PutReply option list \<Rightarrow> bool) \<Rightarrow> (nat \<Rightarrow> nat) \<Rightarrow> nat \<Rightarrow> net_pc \<Rightarrow> clerk_pc \<Rightarrow> bool" where
  "pc_rel R pos T NIdle pc \<longleftrightarrow> pc = Idle"
| "pc_rel R pos T (NPut t a os) pc \<longleftrightarrow> t < T \<and> (\<exists>i os'. R os os' \<and> pc = Putting i a os' (pos t))"
| "pc_rel R pos T (NGet t g os) pc \<longleftrightarrow> t < T \<and> (\<exists>i. pc = Getting i g os (pos t))"

definition done_rel :: "(nat \<Rightarrow> nat) \<Rightarrow> nat \<Rightarrow> net_op \<Rightarrow> completed \<Rightarrow> bool" where
  "done_rel pos T d h \<longleftrightarrow> nd_call d < T \<and> nd_ret d < T \<and> c_input h = nd_input d \<and> c_output h = nd_output d \<and>
     c_call h = pos (nd_call d) \<and> c_ret h = pos (nd_ret d)"

definition net_sim :: "(PutReply option list \<Rightarrow> PutReply option list \<Rightarrow> bool) \<Rightarrow> (nat \<Rightarrow> nat) \<Rightarrow> net_sys \<Rightarrow> kv_sys \<Rightarrow> bool" where
  "net_sim R pos n s \<longleftrightarrow> ns_srv n = srv s \<and> ns_fault n = None \<and> mono pos \<and> (\<forall>t\<ge>ns_time n. pos t = length (lin s)) \<and>
     (\<forall>c. pc_rel R pos (ns_time n) (ns_clerks n c) (clerks s c)) \<and> list_all2 (done_rel pos (ns_time n)) (ns_log n) (hist s)"

text \<open>One tick later: the positions of the past stay.\<close>

definition tick :: "(nat \<Rightarrow> nat) \<Rightarrow> nat \<Rightarrow> nat \<Rightarrow> nat \<Rightarrow> nat" where
  "tick pos T len = (\<lambda>t. if t \<le> T then pos t else len)"

lemma tick_old [simp]: "t \<le> T \<Longrightarrow> tick pos T len t = pos t" "T < t \<Longrightarrow> tick pos T len t = len"
  by (simp_all add: tick_def)

lemma tick_mono: "mono pos \<Longrightarrow> pos T \<le> len \<Longrightarrow> mono (tick pos T len)"
  unfolding mono_def tick_def by (auto intro: order_trans)

lemma pc_rel_tick: "pc_rel R pos T npc pc \<Longrightarrow> pc_rel R (tick pos T len) (Suc T) npc pc"
  by (cases npc) auto

lemma done_rel_tick: "done_rel pos T d h \<Longrightarrow> done_rel (tick pos T len) (Suc T) d h"
  by (simp add: done_rel_def)

lemma lin_grows: "kv_step s s' \<Longrightarrow> length (lin s) \<le> length (lin s')"
  by (cases rule: kv_step.cases) auto

text \<open>
  The common part of all steps: one clerk has changed in the same way in both systems, the store agrees, and the
  operations returned correspond.
\<close>

lemma net_sim_step:
  assumes "net_sim R pos n s" and "kv_step s s'" and "ns_srv n' = srv s'" "ns_fault n' = None" "ns_time n' = Suc (ns_time n)"
    and "ns_clerks n' = (ns_clerks n)(c := npc)" "clerks s' = (clerks s)(c := pc)"
    and "pc_rel R (tick pos (ns_time n) (length (lin s'))) (Suc (ns_time n)) npc pc"
    and "list_all2 (done_rel (tick pos (ns_time n) (length (lin s'))) (Suc (ns_time n))) (ns_log n') (hist s')"
  shows "\<exists>pos' s'. kv_step s s' \<and> net_sim R pos' n' s'"
proof (intro exI conjI)
  let ?pos = "tick pos (ns_time n) (length (lin s'))"
  have m: "mono ?pos" using assms(1) lin_grows [OF assms(2)] by (intro tick_mono) (auto simp: net_sim_def)
  then show "net_sim R ?pos n' s'"
    using assms by (auto simp: net_sim_def pc_rel_tick)
qed (rule assms(2))

lemma done_rels_tick:
  "list_all2 (done_rel pos T) ds hs \<Longrightarrow> list_all2 (done_rel (tick pos T len) (Suc T)) ds hs"
  by (erule list_all2_mono) (rule done_rel_tick)

text \<open>
  What the simulation needs of \<open>R\<close>: a loop that has not ended goes on on both sides, with the same outcome, and ends with the same result.
\<close>

locale retry_rel =
  fixes R :: "PutReply option list \<Rightarrow> PutReply option list \<Rightarrow> bool"
  assumes R_Nil: "R [] []"
    and R_result: "R os os' \<Longrightarrow> Clerk_Put os = Clerk_Put os'"
    and R_append: "R os os' \<Longrightarrow> Clerk_Put os = None \<Longrightarrow> R (os @ [out]) (os' @ [out])"
begin

lemma net_sim_put:
  assumes sim: "net_sim R pos n s" and c: "ns_clerks n c = NPut t a os" "Clerk_Put os = None" and "codec_ok gc"
    and rpc: "kv_rpc (''KVServer'' @ ''.'' @ ''Put'') (gc_put gc a) ch en rn evs rn' (kv_service gc) (ns_srv n) = Some r"
  shows "\<exists>pos' s'. kv_step s s' \<and> net_sim R pos' (after_rpc (gc_unputr gc) c (\<lambda>out. NPut t a (os @ [out])) r n) s'"
proof -
  from sim c(1) obtain i os' where t: "t < ns_time n" and R: "R os os'" and pc: "clerks s c = Putting i a os' (pos t)"
    unfolding net_sim_def by (metis pc_rel.simps(2))
  from sim rpc have rpc': "kv_rpc (''KVServer'' @ ''.'' @ ''Put'') (gc_put gc a) ch en rn evs rn' (kv_service gc) (srv s) = Some r"
    by (simp add: net_sim_def)
  obtain kv' rep out s' where r: "r = Inr (kv', rep)" "Call (gc_unputr gc) False rep = Inr out"
    and s': "kv_step s s'" "srv s' = kv'" "hist s' = hist s" "clerks s' = (clerks s)(c := Putting i a (os' @ [out]) (pos t))"
    using labrpc_put_attempt [OF \<open>codec_ok gc\<close> pc _ rpc'] c(2) R_result [OF R] by auto
  show ?thesis
    by (rule net_sim_step [OF sim s'(1), where c = c and npc = "NPut t a (os @ [out])" and pc = "Putting i a (os' @ [out]) (pos t)"])
      (use sim r s' t R_append [OF R c(2)] in \<open>simp_all add: after_rpc_def set_clerk_def net_sim_def done_rels_tick\<close>)
qed

lemma net_sim_get:
  assumes sim: "net_sim R pos n s" and c: "ns_clerks n c = NGet t g os" "Clerk_Get os = None" and "codec_ok gc"
    and rpc: "kv_rpc (''KVServer'' @ ''.'' @ ''Get'') (gc_get gc g) ch en rn evs rn' (kv_service gc) (ns_srv n) = Some r"
  shows "\<exists>pos' s'. kv_step s s' \<and> net_sim R pos' (after_rpc (gc_ungetr gc) c (\<lambda>out. NGet t g (os @ [out])) r n) s'"
proof -
  from sim c(1) obtain i where t: "t < ns_time n" and pc: "clerks s c = Getting i g os (pos t)"
    unfolding net_sim_def by (metis pc_rel.simps(3))
  from sim rpc have rpc': "kv_rpc (''KVServer'' @ ''.'' @ ''Get'') (gc_get gc g) ch en rn evs rn' (kv_service gc) (srv s) = Some r"
    by (simp add: net_sim_def)
  obtain kv' rep out s' where r: "r = Inr (kv', rep)" "Call (gc_ungetr gc) False rep = Inr out"
    and s': "kv_step s s'" "srv s' = kv'" "hist s' = hist s" "clerks s' = (clerks s)(c := Getting i g (os @ [out]) (pos t))"
    using labrpc_get_attempt [OF \<open>codec_ok gc\<close> pc c(2) rpc'] by blast
  show ?thesis
    by (rule net_sim_step [OF sim s'(1), where c = c and npc = "NGet t g (os @ [out])" and pc = "Getting i g (os @ [out]) (pos t)"])
      (use sim r s' t in \<open>simp_all add: after_rpc_def set_clerk_def net_sim_def done_rels_tick\<close>)
qed

lemma net_sim_move:
  assumes "net_sim R pos n s" "kv_step s s'" "srv s' = srv s" "hist s' = hist s" "clerks s' = (clerks s)(c := pc)"
    "pc_rel R (tick pos (ns_time n) (length (lin s'))) (Suc (ns_time n)) npc pc"
  shows "\<exists>pos' s'. kv_step s s' \<and> net_sim R pos' (set_clerk c npc n) s'"
  by (rule net_sim_step [OF assms(1,2), where c = c and npc = npc and pc = pc])
    (use assms in \<open>simp_all add: set_clerk_def net_sim_def done_rels_tick\<close>)

lemma net_sim_return:
  assumes "net_sim R pos n s" "kv_step s s'" "srv s' = srv s" "t < ns_time n" "lin s' = lin s"
    "hist s' = hist s @ [\<lparr>c_id = i, c_input = inp, c_output = out, c_call = pos t, c_ret = length (lin s)\<rparr>]"
    "clerks s' = (clerks s)(c := Idle)"
  shows "\<exists>pos' s'. kv_step s s' \<and> net_sim R pos' (set_clerk c NIdle (log_done inp out t n)) s'"
  by (rule net_sim_step [OF assms(1,2), where c = c and npc = NIdle and pc = Idle])
    (use assms in \<open>simp_all add: set_clerk_def log_done_def net_sim_def done_rels_tick list_all2_appendI done_rel_def\<close>)

lemma net_sim_simulates:
  assumes "net_step gc n n'" and "codec_ok gc" and sim: "net_sim R pos n s"
  shows "\<exists>pos' s'. kv_step s s' \<and> net_sim R pos' n' s'"
proof -
  have rel: "pc_rel R pos (ns_time n) (ns_clerks n c) (clerks s c)" for c using sim by (simp add: net_sim_def)
  have now: "pos (ns_time n) = length (lin s)" using sim by (simp add: net_sim_def)
  show ?thesis using assms(1)
  proof (cases rule: net_step.cases)
    case (net_start_put c a)
    then show ?thesis using rel [of c] net_sim_move [OF sim kv_step.start_put [of s c a]] now R_Nil by simp
  next
    case (net_start_get c g)
    then show ?thesis using rel [of c] net_sim_move [OF sim kv_step.start_get [of s c g]] now by simp
  next
    case (net_put c t a os ch en rn evs rn' r)
    then show ?thesis using net_sim_put [OF sim] assms(2) by simp
  next
    case (net_get c t g os ch en rn evs rn' r)
    then show ?thesis using net_sim_get [OF sim] assms(2) by simp
  next
    case (net_put_closed c t a os rep out)
    then obtain i os' where "clerks s c = Putting i a os' (pos t)" "t < ns_time n" "R os os'" using rel [of c] by auto
    then show ?thesis using net_put_closed net_sim_move [OF sim kv_step.put_request_lost [of s c i a os' "pos t"]] R_result R_append
      by (simp add: Call_def)
  next
    case (net_get_closed c t g os rep out)
    then obtain i where "clerks s c = Getting i g os (pos t)" "t < ns_time n" using rel [of c] by auto
    then show ?thesis using net_get_closed net_sim_move [OF sim kv_step.get_lost [of s c i g os "pos t"]] by (simp add: Call_def)
  next
    case (net_put_return c t a os err)
    then obtain i os' where "clerks s c = Putting i a os' (pos t)" "t < ns_time n" "R os os'" using rel [of c] by auto
    then show ?thesis using net_put_return net_sim_return [OF sim kv_step.put_return [of s c i a os' "pos t" err]] R_result by simp
  next
    case (net_get_return c t g os v ver err)
    then obtain i where "clerks s c = Getting i g os (pos t)" "t < ns_time n" using rel [of c] by auto
    then show ?thesis using net_get_return net_sim_return [OF sim kv_step.get_return [of s c i g os "pos t" v ver err]] by simp
  qed
qed

lemma net_sim_init: "net_sim R (\<lambda>_. 0) net_init kv_init"
  by (simp add: net_sim_def net_init_def kv_init_def mono_def)

lemma net_sim_reachable:
  assumes "reachable net_init (net_step gc) n" "codec_ok gc"
  shows "\<exists>pos s. reachable kv_init kv_step s \<and> net_sim R pos n s"
  using assms(1)
proof (induction rule: reachable.induct)
  case reach_init
  show ?case using net_sim_init reachable.reach_init [of kv_init kv_step] by blast
next
  case (reach_step n n')
  then obtain pos s where s: "reachable kv_init kv_step s" "net_sim R pos n s" by blast
  obtain pos' s' where "kv_step s s'" "net_sim R pos' n' s'" using net_sim_simulates [OF reach_step.hyps(2) assms(2) s(2)] by blast
  then show ?case using reachable.reach_step [OF s(1)] by blast
qed

end

interpretation exact: retry_rel "(=)"
  by unfold_locales simp_all

lemma net_sim_log:
  assumes "net_sim R pos n s"
  shows "map (\<lambda>h. (c_input h, c_output h, c_call h, c_ret h)) (hist s) =
      map (\<lambda>d. (nd_input d, nd_output d, pos (nd_call d), pos (nd_ret d))) (ns_log n)"
proof -
  have "list_all2 (done_rel pos (ns_time n)) (ns_log n) (hist s)" using assms by (simp add: net_sim_def)
  then show ?thesis by (induction rule: list_all2_induct) (simp_all add: done_rel_def)
qed

text \<open>
  C2: the key/value service over the simulated network refines the system of clerks and server. Take any number of clerks
  that call the server by \<open>labrpc\<close>, on a network that loses and delays requests and replies, disconnects ends and removes servers, in any run
  in which it gives up on no call while its handler is running, and assume that gob reads back what
  it wrote. Nothing fails; and there is a run of the system of clerks and server of the linearizability theorem that
  ends with the same store, with every clerk at the same point of the same call, and with the same completed
  calls in the same order. The times of call and return are mapped monotonically to the points of that run, so that calls that do not
  overlap keep their order. The runs in which the network gives up on a running handler are those of \<open>late_step\<close> in \<open>Kv_Late\<close>.
\<close>

theorem labrpc_refines_kv_sys:
  assumes "reachable net_init (net_step gc) n" and "codec_ok gc"
  shows "ns_fault n = None \<and>
     (\<exists>s pos. reachable kv_init kv_step s \<and> srv s = ns_srv n \<and> mono pos \<and>
        (\<forall>c. pc_rel (=) pos (ns_time n) (ns_clerks n c) (clerks s c)) \<and>
        map (\<lambda>h. (c_input h, c_output h, c_call h, c_ret h)) (hist s) =
        map (\<lambda>d. (nd_input d, nd_output d, pos (nd_call d), pos (nd_ret d))) (ns_log n))"
proof -
  obtain pos s where s: "reachable kv_init kv_step s" and sim: "net_sim (=) pos n s" using exact.net_sim_reachable [OF assms] by blast
  then show ?thesis using net_sim_log [OF sim] by (auto simp: net_sim_def intro!: exI [of _ s] exI [of _ pos])
qed

text \<open>A codec for the example: strings as marked bytes up to a zero, numbers in unary.\<close>

fun enc_string :: "string \<Rightarrow> uint8 list" where
  "enc_string [] = [0]"
| "enc_string (ch # cs) = 1 # of_nat (of_char ch) # enc_string cs"

fun dec_string :: "uint8 list \<Rightarrow> string \<times> uint8 list" where
  "dec_string (x # b # bs) = (if x = 0 then ([], b # bs) else let (cs, rest) = dec_string bs in (char_of (unat b) # cs, rest))"
| "dec_string (x # []) = ([], [])"
| "dec_string [] = ([], [])"

definition enc_num :: "nat \<Rightarrow> uint8 list" where "enc_num k = replicate k 1"

definition err_num :: "Err \<Rightarrow> nat" where
  "err_num e = (case e of ErrUnset \<Rightarrow> 0 | OK \<Rightarrow> 1 | ErrNoKey \<Rightarrow> 2 | ErrVersion \<Rightarrow> 3 | ErrMaybe \<Rightarrow> 4 | ErrWrongLeader \<Rightarrow> 5 | ErrWrongGroup \<Rightarrow> 6)"

definition num_err :: "nat \<Rightarrow> Err" where
  "num_err k = [ErrUnset, OK, ErrNoKey, ErrVersion, ErrMaybe, ErrWrongLeader, ErrWrongGroup] ! k"

definition ex_codec :: gob_codec where
  "ex_codec = \<lparr>
     gc_put = (\<lambda>a. enc_string (put_Key a) @ enc_string (put_Value a) @ enc_num (unat (put_Version a))),
     gc_unput = (\<lambda>bs. case dec_string bs of (k, r) \<Rightarrow> case dec_string r of (v, r) \<Rightarrow>
        \<lparr>put_Key = k, put_Value = v, put_Version = of_nat (length r)\<rparr>),
     gc_putr = (\<lambda>r. enc_num (err_num (putr_Err r))),
     gc_unputr = (\<lambda>bs. Some \<lparr>putr_Err = num_err (length bs)\<rparr>),
     gc_get = (\<lambda>a. enc_string (get_Key a)),
     gc_unget = (\<lambda>bs. \<lparr>get_Key = fst (dec_string bs)\<rparr>),
     gc_getr = (\<lambda>r. enc_string (getr_Value r) @ enc_string (replicate (err_num (getr_Err r)) CHR ''e'') @ enc_num (unat (getr_Version r))),
     gc_ungetr = (\<lambda>bs. case dec_string bs of (v, r) \<Rightarrow> case dec_string r of (e, r) \<Rightarrow>
        Some \<lparr>getr_Value = v, getr_Version = of_nat (length r), getr_Err = num_err (length e)\<rparr>)\<rparr>"

lemma byte_char [simp]: "char_of (unat (of_nat (of_char ch) :: uint8)) = (ch :: char)"
  using nat_of_char_less_256 [of ch] by (simp add: unat_of_nat)

lemma dec_enc_string [simp]: "dec_string (enc_string s @ bs) = (s, bs)"
proof (induction s)
  case Nil
  show ?case by (cases bs) simp_all
qed simp

lemma dec_enc_string_all [simp]: "dec_string (enc_string s) = (s, [])"
  using dec_enc_string [of s "[]"] by simp

lemma num_err_err_num [simp]: "num_err (err_num e) = e"
  by (cases e) (simp_all add: num_err_def err_num_def)

lemma ex_codec_ok: "codec_ok ex_codec"
  by (simp add: codec_ok_def ex_codec_def enc_num_def)

lemma ex_live: "live ''e'' ''s'' 7 net_a" "reliable net_a" "\<not> isServerDead ''e'' ''s'' 7 net_a"
  using live_a by (simp_all add: net_a_def Enable_def Connect_def AddServer_def MakeNetwork_def isServerDead_def map_get_def)

lemma ex_rpc:
  "kv_rpc (''KVServer'' @ ''.'' @ ''Put'') (gc_put ex_codec \<lparr>put_Key = ''k'', put_Value = ''v'', put_Version = 0\<rparr>)
     choices_a ''e'' net_a [HandlerDone] net_a (kv_service ex_codec) MakeKVServer =
   Some (Inr (put_store MakeKVServer \<lparr>put_Key = ''k'', put_Value = ''v'', put_Version = 0\<rparr>, \<lparr>rp_ok = True, rp_reply = [1]\<rparr>))"
proof -
  let ?a = "\<lparr>put_Key = ''k'', put_Value = ''v'', put_Version = 0\<rparr>"
  have "gc_unput ex_codec (gc_put ex_codec ?a) = ?a" using ex_codec_ok by (simp add: codec_ok_def)
  moreover have "put_applies MakeKVServer ?a" "put_err MakeKVServer ?a = OK"
    by (simp_all add: put_applies_def put_err_def MakeKVServer_def key_version_def)
  moreover have "gc_putr ex_codec (PutReply0\<lparr>putr_Err := OK\<rparr>) = [1]" by (simp add: ex_codec_def err_num_def enc_num_def)
  ultimately show ?thesis using ex_live
    unfolding kv_rpc_def Let_def kv_service_dispatch
    by (simp add: Server_Put_eq processReq_live [where sn = "''s''" and sv = 7])
qed

theorem labrpc_refines_kv_sys_witness:
  "\<exists>n. reachable net_init (net_step ex_codec) n \<and> map nd_output (ns_log n) = [put_output OK] \<and> ns_fault n = None \<and>
     (\<exists>s pos. reachable kv_init kv_step s \<and> srv s = ns_srv n \<and> map (\<lambda>h. c_output h) (hist s) = [put_output OK] \<and> mono (pos :: nat \<Rightarrow> nat))"
proof -
  let ?a = "\<lparr>put_Key = ''k'', put_Value = ''v'', put_Version = 0\<rparr>"
  let ?n1 = "set_clerk 0 (NPut (ns_time net_init) ?a []) net_init"
  let ?n2 = "after_rpc (gc_unputr ex_codec) 0 (\<lambda>out. NPut 0 ?a ([] @ [out]))
      (Inr (put_store MakeKVServer ?a, \<lparr>rp_ok = True, rp_reply = [1]\<rparr>)) ?n1"
  let ?n3 = "set_clerk 0 NIdle (log_done (put_input ?a) (put_output OK) 0 ?n2)"
  have d: "Call (gc_unputr ex_codec) False \<lparr>rp_ok = True, rp_reply = [1]\<rparr> = Inr (Some \<lparr>putr_Err = OK\<rparr>)"
    by (simp add: ex_codec_def num_err_def)
  have 1: "net_step ex_codec net_init ?n1" by (rule net_start_put) (simp add: net_init_def)
  have n1: "ns_clerks ?n1 0 = NPut 0 ?a []" "ns_srv ?n1 = MakeKVServer" by (simp_all add: set_clerk_def net_init_def)
  have 2: "net_step ex_codec ?n1 ?n2"
    by (rule net_put [OF n1(1) Clerk_Put_append(1)], unfold n1(2), rule ex_rpc)
  have "ns_clerks ?n2 0 = NPut 0 ?a [Some \<lparr>putr_Err = OK\<rparr>]" by (simp add: after_rpc_def d set_clerk_def)
  then have 3: "net_step ex_codec ?n2 ?n3"
    by (rule net_put_return) (simp add: Clerk_Put_def put_result_def)
  let ?R = "reachable net_init (net_step ex_codec)"
  have "?R ?n1" by (rule reachable.reach_step, rule reachable.reach_init, rule 1)
  then have "?R ?n2" by (rule reachable.reach_step) (rule 2)
  then have r: "?R ?n3" by (rule reachable.reach_step) (rule 3)
  have l: "map nd_output (ns_log ?n3) = [put_output OK]"
    by (simp add: after_rpc_def d set_clerk_def log_done_def net_init_def)
  from labrpc_refines_kv_sys [OF r ex_codec_ok] obtain s pos where
    f: "ns_fault ?n3 = None" and s: "reachable kv_init kv_step s" "srv s = ns_srv ?n3" "mono pos"
    and h: "map (\<lambda>h. (c_input h, c_output h, c_call h, c_ret h)) (hist s) =
        map (\<lambda>d. (nd_input d, nd_output d, pos (nd_call d), pos (nd_ret d))) (ns_log ?n3)" by blast
  have "map (\<lambda>h. c_output h) (hist s) = map nd_output (ns_log ?n3)"
    using arg_cong [OF h, of "map (\<lambda>(i, out, x). out)"] by (simp add: comp_def)
  then show ?thesis using r l f s by (intro exI [of _ ?n3] conjI exI [of _ s] exI [of _ pos]) simp_all
qed

end
