(* ===== verification/Kv_Late.thy ===== *)
theory Kv_Late
  imports Kv_Over_Labrpc
begin

text \<open>
  Handlers that run late. \<open>processReq\<close> of \<open>labrpc\<close> starts the handler in a goroutine and looks every 100 milliseconds whether the server is
  still reachable; if it is not, the caller is told that the call failed while the handler is still
  running, and the put takes effect at any later time, even after the clerk has tried again and returned. The clerks and the server are still
  linearizable if every put is started with a version that the key has reached, as
  for clients that put with a version they have read; for other puts they are not.
\<close>

section \<open>Late puts\<close>

text \<open>
  The answer of a call whose handler was started and is left running: its reply is not there yet, and \<open>processReq\<close> does not look at it.
\<close>

definition kv_rpc_late :: "string \<Rightarrow> uint8 list \<Rightarrow> choices \<Rightarrow> string \<Rightarrow> Network \<Rightarrow> wait_event list \<Rightarrow> Network \<Rightarrow> replyMsg option" where
  "kv_rpc_late meth args ch en rn evs rn' =
     (case processReq (\<lambda>_ _. failed_reply) ch \<lparr>rq_endname = en, rq_svcMeth = meth, rq_args = args\<rparr> rn evs rn' of
        Some o1 \<Rightarrow> if o_executed o1 \<noteq> None \<and> left_running en rn evs then Some (o_reply o1) else None
      | None \<Rightarrow> None)"

text \<open>
  The system of clerks on the network, with the arguments of the put handlers that are left running. \<open>ok\<close> restricts the puts
  that are started. A get that is left running has no effect, so only puts are kept. A handler that takes effect shortly before the network gives
  up is one that takes effect right after it: giving up changes nothing but the clerk's count of attempts.
\<close>

type_synonym late_sys = "net_sys \<times> uint8 list list"

definition starts_ok :: "(net_sys \<Rightarrow> PutArgs \<Rightarrow> bool) \<Rightarrow> net_sys \<Rightarrow> net_sys \<Rightarrow> bool" where
  "starts_ok ok n n' \<longleftrightarrow> (\<forall>c t a. ns_clerks n c = NIdle \<and> ns_clerks n' c = NPut t a [] \<longrightarrow> ok n a)"

inductive late_step :: "gob_codec \<Rightarrow> (net_sys \<Rightarrow> PutArgs \<Rightarrow> bool) \<Rightarrow> late_sys \<Rightarrow> late_sys \<Rightarrow> bool" for gc ok where
  late_net: "net_step gc n n' \<Longrightarrow> starts_ok ok n n' \<Longrightarrow> late_step gc ok (n, L) (n', L)"
| late_start: "ns_clerks n c = NPut t a os \<Longrightarrow> Clerk_Put os = None \<Longrightarrow>
     kv_rpc_late (''KVServer'' @ ''.'' @ ''Put'') (gc_put gc a) ch en rn evs rn' = Some rep \<Longrightarrow>
     late_step gc ok (n, L) (after_rpc (gc_unputr gc) c (\<lambda>out. NPut t a (os @ [out])) (Inr (ns_srv n, rep)) n, gc_put gc a # L)"
| late_get: "ns_clerks n c = NGet t g os \<Longrightarrow> Clerk_Get os = None \<Longrightarrow>
     kv_rpc_late (''KVServer'' @ ''.'' @ ''Get'') (gc_get gc g) ch en rn evs rn' = Some rep \<Longrightarrow>
     late_step gc ok (n, L) (after_rpc (gc_ungetr gc) c (\<lambda>out. NGet t g (os @ [out])) (Inr (ns_srv n, rep)) n, L)"
| late_effect: "Server_dispatch \<lparr>rq_endname = en, rq_svcMeth = ''KVServer'' @ ''.'' @ ''Put'', rq_args = args\<rparr> (kv_service gc) (ns_srv n) = Inr (rs, kv', reply) \<Longrightarrow>
     late_step gc ok (n, L1 @ args # L2) (n\<lparr>ns_srv := kv', ns_time := Suc (ns_time n)\<rparr>, L1 @ L2)"

definition late_init :: late_sys where
  "late_init = (net_init, [])"

text \<open>Clients that put only with versions that the key has reached.\<close>

definition known_version :: "net_sys \<Rightarrow> PutArgs \<Rightarrow> bool" where
  "known_version n a \<longleftrightarrow> put_Version a \<le> key_version (ns_srv n) (put_Key a)"

section \<open>Retries\<close>

text \<open>
  A late effect is an attempt more for the system of clerks and server. The result of a put depends on the number of attempts
  only by whether there was more than one.
\<close>

definition same_retries :: "PutReply option list \<Rightarrow> PutReply option list \<Rightarrow> bool" where
  "same_retries os os' \<longleftrightarrow> Clerk_Put os = Clerk_Put os' \<and> (os = [] \<longleftrightarrow> os' = [])"

interpretation late: retry_rel same_retries
proof unfold_locales
  fix os os' :: "PutReply option list" and out
  assume "same_retries os os'" "Clerk_Put os = None"
  then show "same_retries (os @ [out]) (os' @ [out])"
    by (cases out; cases "os = []") (auto simp: same_retries_def put_result_def)
qed (auto simp: same_retries_def)

lemma left_running_failed:
  assumes "kv_rpc_late meth args ch en rn evs rn' = Some rep"
  shows "rep = failed_reply"
  using assms processReq_answer [of failed_reply]
  by (fastforce simp: kv_rpc_late_def split: option.splits if_splits)

section \<open>Versions do not go back\<close>

abbreviation put_after :: "KVServer \<Rightarrow> PutArgs \<Rightarrow> KVServer" where
  "put_after kv a \<equiv> if put_applies kv a then put_store kv a else kv"

definition grows :: "KVServer \<Rightarrow> KVServer \<Rightarrow> bool" where
  "grows kv kv' \<longleftrightarrow> (\<forall>k. key_version kv k \<le> key_version kv' k \<and> unat (key_version kv' k) \<le> Suc (unat (key_version kv k)))"

lemma grows_refl [simp]: "grows kv kv"
  by (simp add: grows_def)

lemma unat_add_one:
  fixes v :: Tversion
  assumes "Suc (unat v) < 2 ^ 64"
  shows "unat (v + 1) = Suc (unat v)"
  using assms unat_word_ariths(1) [of v 1] by simp

lemma put_after_grows:
  assumes "Suc (unat (key_version kv (put_Key a))) < 2 ^ 64"
  shows "grows kv (put_after kv a)"
    and "put_Version a \<le> key_version kv (put_Key a) \<Longrightarrow> put_Version a < key_version (put_after kv a) (put_Key a)"
proof -
  show "grows kv (put_after kv a)" using unat_add_one [OF assms]
    by (auto simp: grows_def key_version_put_store put_applies_def word_le_nat_alt)
  assume "put_Version a \<le> key_version kv (put_Key a)"
  then show "put_Version a < key_version (put_after kv a) (put_Key a)" using unat_add_one [OF assms]
    by (cases "put_applies kv a") (auto simp: key_version_put_store put_applies_def word_less_nat_alt [of "_ :: Tversion" "_ + 1"])
qed

lemma put_rpc_effect:
  assumes "codec_ok gc" "kv_rpc (''KVServer'' @ ''.'' @ ''Put'') (gc_put gc a) ch en rn evs rn' (kv_service gc) kv = Some r"
  obtains kv' rep out where "r = Inr (kv', rep)" "Call (gc_unputr gc) False rep = Inr out"
    "kv' = kv \<and> out = None \<or> kv' = put_after kv a"
proof -
  let ?r = "PutReply0\<lparr>putr_Err := put_err kv a\<rparr>"
  have d: "Server_dispatch \<lparr>rq_endname = en, rq_svcMeth = ''KVServer'' @ ''.'' @ ''Put'', rq_args = gc_put gc a\<rparr> (kv_service gc) kv
      = Inr ((kv_service gc)\<lparr>srv_count := 1\<rparr>, put_after kv a, \<lparr>rp_ok = True, rp_reply = gc_putr gc ?r\<rparr>)"
    using assms(1) unfolding kv_service_dispatch by (simp add: codec_ok_def Server_Put_eq)
  have dec: "gc_unputr gc (gc_putr gc ?r) = Some ?r" using assms(1) by (simp add: codec_ok_def)
  from assms(2) d show thesis by (cases rule: kv_rpc_cases) (use that dec in auto)
qed

lemma get_rpc_effect:
  assumes "codec_ok gc" "kv_rpc (''KVServer'' @ ''.'' @ ''Get'') (gc_get gc g) ch en rn evs rn' (kv_service gc) kv = Some r"
  obtains rep out where "r = Inr (kv, rep)" "Call (gc_ungetr gc) False rep = Inr out"
proof -
  let ?r = "Server_Get kv g GetReply0"
  have d: "Server_dispatch \<lparr>rq_endname = en, rq_svcMeth = ''KVServer'' @ ''.'' @ ''Get'', rq_args = gc_get gc g\<rparr> (kv_service gc) kv
      = Inr ((kv_service gc)\<lparr>srv_count := 1\<rparr>, kv, \<lparr>rp_ok = True, rp_reply = gc_getr gc ?r\<rparr>)"
    using assms(1) unfolding kv_service_dispatch by (simp add: codec_ok_def)
  have dec: "gc_ungetr gc (gc_getr gc ?r) = Some ?r" using assms(1) by (simp add: codec_ok_def)
  from assms(2) d show thesis by (cases rule: kv_rpc_cases) (use that dec in auto)
qed

section \<open>Invariant\<close>

text \<open>
  Every put is of a version that the key has reached, and has passed once the loop of its clerk has an answer. A late put is of a version
  that has passed, or it belongs to a call that is still being retried.
\<close>

definition passed :: "net_sys \<Rightarrow> PutArgs \<Rightarrow> bool" where
  "passed n a \<longleftrightarrow> put_Version a < key_version (ns_srv n) (put_Key a)"

definition retrying :: "net_pc \<Rightarrow> PutArgs \<Rightarrow> bool" where
  "retrying pc a \<longleftrightarrow> (\<exists>t os. pc = NPut t a os \<and> os \<noteq> [] \<and> Clerk_Put os = None)"

fun pc_inv :: "net_sys \<Rightarrow> net_pc \<Rightarrow> bool" where
  "pc_inv n (NPut t a os) \<longleftrightarrow> known_version n a \<and> (Clerk_Put os \<noteq> None \<longrightarrow> passed n a)"
| "pc_inv n pc \<longleftrightarrow> True"

definition late_inv :: "gob_codec \<Rightarrow> late_sys \<Rightarrow> bool" where
  "late_inv gc = (\<lambda>(n, L). (\<forall>k. unat (key_version (ns_srv n) k) \<le> ns_time n) \<and> (\<forall>c. pc_inv n (ns_clerks n c)) \<and>
     (\<forall>args\<in>set L. \<exists>a. args = gc_put gc a \<and> (passed n a \<or> (\<exists>c. retrying (ns_clerks n c) a))))"

lemma grows_inv:
  assumes "grows (ns_srv n) (ns_srv n')"
  shows "known_version n a \<Longrightarrow> known_version n' a" "passed n a \<Longrightarrow> passed n' a" "pc_inv n pc \<Longrightarrow> pc_inv n' pc"
proof -
  have g: "key_version (ns_srv n) k \<le> key_version (ns_srv n') k" for k using assms by (simp add: grows_def)
  show k: "known_version n a \<Longrightarrow> known_version n' a" for a using g [of "put_Key a"] by (auto simp: known_version_def intro: order_trans)
  show p: "passed n a \<Longrightarrow> passed n' a" for a using g [of "put_Key a"] by (auto simp: passed_def)
  show "pc_inv n pc \<Longrightarrow> pc_inv n' pc" using k p by (cases pc) auto
qed

lemma late_inv_step:
  assumes inv: "late_inv gc (n, L)" and g: "grows (ns_srv n) (ns_srv n')" and "ns_time n' = Suc (ns_time n)"
    and cl: "ns_clerks n' = (ns_clerks n)(c := npc)" and pc: "pc_inv n' npc"
    and old: "\<And>a. retrying (ns_clerks n c) a \<Longrightarrow> retrying npc a \<or> passed n' a"
  shows "late_inv gc (n', L)"
  unfolding late_inv_def prod.case
proof (intro conjI allI ballI)
  fix k
  have "unat (key_version (ns_srv n') k) \<le> Suc (unat (key_version (ns_srv n) k))" using g by (simp add: grows_def)
  also have "\<dots> \<le> Suc (ns_time n)" using inv by (simp add: late_inv_def)
  finally show "unat (key_version (ns_srv n') k) \<le> ns_time n'" using assms(3) by simp
next
  fix c'
  show "pc_inv n' (ns_clerks n' c')" using pc cl grows_inv(3) [OF g] inv by (auto simp: late_inv_def)
next
  fix args assume "args \<in> set L"
  then obtain a where a: "args = gc_put gc a" "passed n a \<or> (\<exists>c. retrying (ns_clerks n c) a)"
    using inv unfolding late_inv_def prod.case by blast
  have "passed n' a \<or> (\<exists>c. retrying (ns_clerks n' c) a)"
    using a(2)
  proof (elim disjE exE)
    assume "passed n a"
    then show ?thesis using grows_inv(2) [OF g] by blast
  next
    fix c' assume "retrying (ns_clerks n c') a"
    then have "passed n' a \<or> retrying (ns_clerks n' c') a" using old [of a] cl by (cases "c' = c") auto
    then show ?thesis by blast
  qed
  with a(1) show "\<exists>a. args = gc_put gc a \<and> (passed n' a \<or> (\<exists>c. retrying (ns_clerks n' c) a))" by blast
qed

text \<open>What an answer to a put does to the invariant of its clerk.\<close>

lemma pc_inv_answer:
  assumes "known_version n a" "Clerk_Put os = None" "ns_srv n' = ns_srv n \<and> out = None \<or> ns_srv n' = put_after (ns_srv n) a"
    and b: "Suc (unat (key_version (ns_srv n) (put_Key a))) < 2 ^ 64"
  shows "grows (ns_srv n) (ns_srv n')" "pc_inv n' (NPut t a (os @ [out]))"
    "retrying (NPut t a (os @ [out])) a \<or> passed n' a"
proof -
  show g: "grows (ns_srv n) (ns_srv n')" using assms(3) put_after_grows(1) [OF b] by (metis grows_refl)
  have k: "known_version n' a" using grows_inv(1) [OF g assms(1)] .
  have p: "out = None \<or> passed n' a"
    using assms(1,3) put_after_grows(2) [OF b] unfolding passed_def known_version_def by metis
  show "pc_inv n' (NPut t a (os @ [out]))" using k p assms(2) by auto
  show "retrying (NPut t a (os @ [out])) a \<or> passed n' a" using p assms(2) by (auto simp: retrying_def)
qed

lemma late_inv_net:
  assumes "net_step gc n n'" "starts_ok known_version n n'" "late_inv gc (n, L)" "codec_ok gc" and b: "ns_time n' < 2 ^ 64"
  shows "late_inv gc (n', L)"
proof -
  have pcs: "pc_inv n (ns_clerks n c)" for c using assms(3) by (simp add: late_inv_def)
  have small: "Suc (unat (key_version (ns_srv n) k)) < 2 ^ 64" if "ns_time n' = Suc (ns_time n)" for k
    using assms(3) b that by (auto simp: late_inv_def intro: le_less_trans)
  show ?thesis using assms(1)
  proof (cases rule: net_step.cases)
    case (net_start_put c a)
    then have "ns_clerks n c = NIdle \<and> ns_clerks n' c = NPut (ns_time n) a []" by (simp add: set_clerk_def)
    then have "known_version n a" using assms(2) unfolding starts_ok_def by blast
    then show ?thesis using net_start_put
      by (intro late_inv_step [OF assms(3), where c = c and npc = "NPut (ns_time n) a []"])
        (auto simp: set_clerk_def retrying_def known_version_def)
  next
    case (net_start_get c g)
    then show ?thesis by (intro late_inv_step [OF assms(3), where c = c and npc = "NGet (ns_time n) g []"]) (auto simp: set_clerk_def retrying_def)
  next
    case (net_put c t a os ch en rn evs rn' r)
    obtain kv' rep out where r: "r = Inr (kv', rep)" "Call (gc_unputr gc) False rep = Inr out"
      and kv': "kv' = ns_srv n \<and> out = None \<or> kv' = put_after (ns_srv n) a"
      using put_rpc_effect [OF assms(4) net_put(4)] by blast
    have n': "n' = set_clerk c (NPut t a (os @ [out])) (n\<lparr>ns_srv := kv'\<rparr>)" using net_put(1) r by (simp add: after_rpc_def)
    have k: "known_version n a" using pcs [of c] net_put(2) by simp
    have time: "ns_time n' = Suc (ns_time n)" "ns_srv n' = kv'" using n' by (simp_all add: set_clerk_def)
    note ans = pc_inv_answer [OF k net_put(3), of n' out, unfolded time(2), OF kv' small [OF time(1)]]
    show ?thesis
      by (rule late_inv_step [OF assms(3), where c = c and npc = "NPut t a (os @ [out])"])
        (use ans n' time net_put(2) in \<open>auto simp: set_clerk_def retrying_def\<close>)
  next
    case (net_get c t g os ch en rn evs rn' r)
    obtain rep out where "r = Inr (ns_srv n, rep)" "Call (gc_ungetr gc) False rep = Inr out"
      using get_rpc_effect [OF assms(4) net_get(4)] by blast
    then have "n' = set_clerk c (NGet t g (os @ [out])) n" using net_get(1) by (simp add: after_rpc_def)
    then show ?thesis using net_get(2)
      by (intro late_inv_step [OF assms(3), where c = c and npc = "NGet t g (os @ [out])"]) (auto simp: set_clerk_def retrying_def)
  next
    case (net_put_closed c t a os rep out)
    have out: "out = None" using net_put_closed by (simp add: Call_def)
    have n': "ns_srv n' = ns_srv n" "ns_time n' = Suc (ns_time n)" using net_put_closed by (simp_all add: set_clerk_def)
    have k: "known_version n a" using pcs [of c] net_put_closed(2) by simp
    note ans = pc_inv_answer [OF k net_put_closed(3), of n' out, unfolded n'(1), OF _ small [OF n'(2)]]
    show ?thesis
      by (rule late_inv_step [OF assms(3), where c = c and npc = "NPut t a (os @ [out])"])
        (use ans n' out net_put_closed in \<open>auto simp: set_clerk_def retrying_def\<close>)
  next
    case (net_get_closed c t g os rep out)
    then show ?thesis
      by (intro late_inv_step [OF assms(3), where c = c and npc = "NGet t g (os @ [out])"]) (auto simp: set_clerk_def retrying_def)
  next
    case (net_put_return c t a os err)
    then show ?thesis
      by (intro late_inv_step [OF assms(3), where c = c and npc = NIdle]) (auto simp: set_clerk_def log_done_def retrying_def)
  next
    case (net_get_return c t g os v ver err)
    then show ?thesis
      by (intro late_inv_step [OF assms(3), where c = c and npc = NIdle]) (auto simp: set_clerk_def log_done_def retrying_def)
  qed
qed

lemma late_dispatch:
  assumes "codec_ok gc"
    and "Server_dispatch \<lparr>rq_endname = en, rq_svcMeth = ''KVServer'' @ ''.'' @ ''Put'', rq_args = gc_put gc a\<rparr> (kv_service gc) kv = Inr (rs, kv', reply)"
  shows "kv' = put_after kv a"
  using assms unfolding kv_service_dispatch by (auto simp: codec_ok_def Server_Put_eq)

lemma late_inv_late:
  assumes "late_step gc ok (n, L) (n', L')" "\<And>m m'. ok m m' \<Longrightarrow> known_version m m'" "late_inv gc (n, L)" "codec_ok gc" "ns_time n' < 2 ^ 64"
  shows "late_inv gc (n', L')"
  using assms(1)
proof (cases rule: late_step.cases)
  case late_net
  then show ?thesis using late_inv_net [of gc n n' L] assms(2-5) by (auto simp: starts_ok_def)
next
  case (late_start c t a os ch en rn evs rn' rep)
  have n': "n' = set_clerk c (NPut t a (os @ [None])) n"
    using late_start(1) left_running_failed [OF late_start(5)] by (simp add: after_rpc_def)
  have "pc_inv n (NPut t a os)" using assms(3) late_start(3) by (metis (mono_tags, lifting) late_inv_def prod.case)
  then have "late_inv gc (n', L)" using n' late_start(3,4)
    by (intro late_inv_step [OF assms(3), where c = c and npc = "NPut t a (os @ [None])"])
      (auto simp: set_clerk_def retrying_def known_version_def passed_def)
  moreover have "retrying (ns_clerks n' c) a" using n' late_start(4) by (simp add: set_clerk_def retrying_def)
  ultimately show ?thesis using late_start(2) by (auto simp: late_inv_def)
next
  case (late_get c t g os ch en rn evs rn' rep)
  have n': "n' = set_clerk c (NGet t g (os @ [None])) n"
    using late_get(1) left_running_failed [OF late_get(5)] by (simp add: after_rpc_def)
  have "late_inv gc (n', L)" using n' late_get(3)
    by (intro late_inv_step [OF assms(3), where c = c and npc = "NGet t g (os @ [None])"]) (auto simp: set_clerk_def retrying_def)
  then show ?thesis using late_get(2) by simp
next
  case (late_effect en args rs kv' reply L1 L2)
  obtain a where a: "args = gc_put gc a" using assms(3) late_effect(1) by (auto simp: late_inv_def)
  have kv': "kv' = put_after (ns_srv n) a" using late_dispatch [OF assms(4)] late_effect(4) a by blast
  have "Suc (unat (key_version (ns_srv n) (put_Key a))) < 2 ^ 64"
    using assms(3,5) late_effect(2) by (auto simp: late_inv_def intro: le_less_trans)
  then have g: "grows (ns_srv n) (ns_srv n')" using put_after_grows(1) kv' late_effect(2) by simp
  have "late_inv gc (n', L)"
    by (rule late_inv_step [OF assms(3) g, where c = 0 and npc = "ns_clerks n 0"])
      (use late_effect(2) grows_inv(3) [OF g] assms(3) in \<open>auto simp: late_inv_def\<close>)
  then show ?thesis using late_effect(1,3) by (auto simp: late_inv_def)
qed

section \<open>Simulation\<close>

lemma net_sim_stutter:
  assumes "net_sim R pos n s"
  shows "net_sim R (tick pos (ns_time n) (length (lin s))) (n\<lparr>ns_time := Suc (ns_time n)\<rparr>) s"
  using assms tick_mono [of pos "ns_time n" "length (lin s)"] by (auto simp: net_sim_def pc_rel_tick done_rels_tick)

lemma late_simulates:
  assumes "late_step gc ok (n, L) (n', L')" "late_inv gc (n, L)" "codec_ok gc" and sim: "net_sim same_retries pos n s"
  shows "\<exists>pos' s'. (s' = s \<or> kv_step s s') \<and> net_sim same_retries pos' n' s'"
  using assms(1)
proof (cases rule: late_step.cases)
  case late_net
  then show ?thesis using late.net_sim_simulates [OF late_net(2) assms(3) sim] by blast
next
  case (late_start c t a os ch en rn evs rn' rep)
  have n': "n' = set_clerk c (NPut t a (os @ [None])) n"
    using late_start(1) left_running_failed [OF late_start(5)] by (simp add: after_rpc_def)
  have "pc_rel same_retries pos (ns_time n) (ns_clerks n c) (clerks s c)" using sim by (simp add: net_sim_def)
  then obtain i os' where "clerks s c = Putting i a os' (pos t)" "t < ns_time n" "same_retries os os'" using late_start(3) by auto
  then show ?thesis
    using n' late_start(4) late.net_sim_move [OF sim kv_step.put_request_lost [of s c i a os' "pos t"], of c "Putting i a (os' @ [None]) (pos t)" "NPut t a (os @ [None])"]
      late.R_result late.R_append by fastforce
next
  case (late_get c t g os ch en rn evs rn' rep)
  have n': "n' = set_clerk c (NGet t g (os @ [None])) n"
    using late_get(1) left_running_failed [OF late_get(5)] by (simp add: after_rpc_def)
  have "pc_rel same_retries pos (ns_time n) (ns_clerks n c) (clerks s c)" using sim by (simp add: net_sim_def)
  then obtain i where "clerks s c = Getting i g os (pos t)" "t < ns_time n" using late_get(3) by auto
  then show ?thesis
    using n' late_get(4) late.net_sim_move [OF sim kv_step.get_lost [of s c i g os "pos t"], of c "Getting i g (os @ [None]) (pos t)" "NGet t g (os @ [None])"]
    by fastforce
next
  case (late_effect en args rs kv' reply L1 L2)
  obtain a where a: "args = gc_put gc a" and ra: "passed n a \<or> (\<exists>c. retrying (ns_clerks n c) a)"
    using assms(2) late_effect(1) unfolding late_inv_def prod.case by (metis in_set_conv_decomp)
  have kv': "kv' = put_after (ns_srv n) a" using late_dispatch [OF assms(3)] late_effect(4) a by blast
  show ?thesis
  proof (cases "passed n a")
    case True
    then have "n' = n\<lparr>ns_time := Suc (ns_time n)\<rparr>" using kv' late_effect(2) by (auto simp: passed_def put_applies_def)
    then show ?thesis using net_sim_stutter [OF sim] by blast
  next
    case False
    then obtain c t os where c: "ns_clerks n c = NPut t a os" "os \<noteq> []" "Clerk_Put os = None" using ra by (auto simp: retrying_def)
    have "pc_rel same_retries pos (ns_time n) (ns_clerks n c) (clerks s c)" using sim by (simp add: net_sim_def)
    then obtain i os' where pc: "clerks s c = Putting i a os' (pos t)" and t: "t < ns_time n" and R: "same_retries os os'" using c(1) by auto
    have os': "Clerk_Put os' = None" using c(3) R by (simp add: same_retries_def)
    have R': "same_retries os (os' @ [None])" using c R by (simp add: same_retries_def)
    have "Server_Put (srv s) a PutReply0 = Inr (kv', PutReply0\<lparr>putr_Err := put_err (srv s) a\<rparr>)"
      using kv' sim by (simp add: Server_Put_eq net_sim_def)
    note st = kv_step.put_reply_lost [OF pc os' this]
    have "\<exists>pos' s'. kv_step s s' \<and> net_sim same_retries pos' n' s'"
      by (rule net_sim_step [OF sim st, where c = c and npc = "NPut t a os" and pc = "Putting i a (os' @ [None]) (pos t)"])
        (use sim late_effect(2) t R' c(1) in \<open>simp_all add: net_sim_def done_rels_tick fun_upd_idem\<close>)
    then show ?thesis by blast
  qed
qed

lemma late_time: "late_step gc ok (n, L) (n', L') \<Longrightarrow> ns_time n \<le> ns_time n'"
  by (erule late_step.cases; (erule net_step.cases)?)
    (auto simp: after_rpc_def set_clerk_def log_done_def split: sum.splits prod.splits)

lemma late_reachable:
  assumes "reachable late_init (late_step gc known_version) q" "codec_ok gc" "ns_time (fst q) < 2 ^ 64"
  shows "late_inv gc q \<and> (\<exists>pos s. reachable kv_init kv_step s \<and> net_sim same_retries pos (fst q) s)"
  using assms(1,3)
proof (induction rule: reachable.induct)
  case reach_init
  have "late_inv gc late_init" by (simp add: late_inv_def late_init_def net_init_def key_version_def MakeKVServer_def)
  then show ?case using late.net_sim_init reachable.reach_init [of kv_init kv_step] by (auto simp: late_init_def)
next
  case (reach_step q q')
  obtain n L n' L' where q: "q = (n, L)" "q' = (n', L')" by (metis surj_pair)
  have st: "late_step gc known_version (n, L) (n', L')" using reach_step.hyps(2) q by simp
  have b: "ns_time n < 2 ^ 64" "ns_time n' < 2 ^ 64" using late_time [OF st] reach_step.prems q by simp_all
  then obtain pos s where inv: "late_inv gc (n, L)" and s: "reachable kv_init kv_step s" "net_sim same_retries pos n s"
    using reach_step.IH q by auto
  obtain pos' s' where s': "s' = s \<or> kv_step s s'" "net_sim same_retries pos' n' s'"
    using late_simulates [OF st inv assms(2) s(2)] by blast
  have "reachable kv_init kv_step s'" using s' s(1) reachable.reach_step [OF s(1)] by blast
  then show ?case using late_inv_late [OF st _ inv assms(2) b(2)] s'(2) q by auto
qed

text \<open>
  C10: late handlers do no harm to clients that put with versions they know. Take any number of clerks on the network and let
  every put handler that a caller has given up on take effect at any later time, once. If every put is started with a version that
  its key has reached, and fewer than \<open>2 ^ 64\<close> steps are made, so that no version repeats, then nothing fails and there is a
  run of the system of clerks and server of the linearizability theorem with the same store and the same completed
  calls, in the same order and with times that are mapped monotonically; every clerk is in the same call, with the same result if
  its loop has ended.
\<close>

theorem late_handlers_refine_kv_sys:
  assumes "reachable late_init (late_step gc known_version) (n, L)" and "codec_ok gc" and "ns_time n < 2 ^ 64"
  shows "ns_fault n = None \<and>
     (\<exists>s pos. reachable kv_init kv_step s \<and> srv s = ns_srv n \<and> mono pos \<and>
        (\<forall>c. pc_rel same_retries pos (ns_time n) (ns_clerks n c) (clerks s c)) \<and>
        map (\<lambda>h. (c_input h, c_output h, c_call h, c_ret h)) (hist s) =
        map (\<lambda>d. (nd_input d, nd_output d, pos (nd_call d), pos (nd_ret d))) (ns_log n))"
proof -
  obtain pos s where s: "reachable kv_init kv_step s" and sim: "net_sim same_retries pos n s"
    using late_reachable [OF assms(1,2)] assms(3) by auto
  then show ?thesis using net_sim_log [OF sim] by (auto simp: net_sim_def intro!: exI [of _ s] exI [of _ pos])
qed

section \<open>Examples\<close>

text \<open>Attempts on the live network of the examples: answered at once, or given up on while the handler is left running.\<close>

lemma ex_process:
  "processReq d choices_a \<lparr>rq_endname = ''e'', rq_svcMeth = meth, rq_args = args\<rparr> net_a [HandlerDone] net_a =
     Some \<lparr>o_executed = Some 7, o_delay = 0, o_reply = d 7 \<lparr>rq_endname = ''e'', rq_svcMeth = meth, rq_args = args\<rparr>, o_counted = True\<rparr>"
  using ex_live by (simp add: processReq_live [where sn = "''s''" and sv = 7] net_a_def Enable_def Connect_def AddServer_def MakeNetwork_def)

lemma ex_answered_put:
  assumes "ns_clerks n c = NPut t a os" "Clerk_Put os = None"
  shows "net_step ex_codec n (set_clerk c (NPut t a (os @ [Some \<lparr>putr_Err = put_err (ns_srv n) a\<rparr>])) (n\<lparr>ns_srv := put_after (ns_srv n) a\<rparr>))"
proof -
  let ?r = "PutReply0\<lparr>putr_Err := put_err (ns_srv n) a\<rparr>"
  have dec: "gc_unput ex_codec (gc_put ex_codec a) = a" "gc_unputr ex_codec (gc_putr ex_codec ?r) = Some ?r"
    using ex_codec_ok by (simp_all add: codec_ok_def)
  have "kv_rpc (''KVServer'' @ ''.'' @ ''Put'') (gc_put ex_codec a) choices_a ''e'' net_a [HandlerDone] net_a (kv_service ex_codec) (ns_srv n) =
      Some (Inr (put_after (ns_srv n) a, \<lparr>rp_ok = True, rp_reply = gc_putr ex_codec ?r\<rparr>))"
    unfolding kv_rpc_def Let_def kv_service_dispatch ex_process dec by (simp add: Server_Put_eq)
  from net_put [OF assms this] show ?thesis using dec by (simp add: after_rpc_def PutReply0_def)
qed

lemma ex_answered_get:
  assumes "ns_clerks n c = NGet t g os" "Clerk_Get os = None"
  shows "net_step ex_codec n (set_clerk c (NGet t g (os @ [Some (Server_Get (ns_srv n) g GetReply0)])) n)"
proof -
  let ?r = "Server_Get (ns_srv n) g GetReply0"
  have dec: "gc_unget ex_codec (gc_get ex_codec g) = g" "gc_ungetr ex_codec (gc_getr ex_codec ?r) = Some ?r"
    using ex_codec_ok by (simp_all add: codec_ok_def)
  have "kv_rpc (''KVServer'' @ ''.'' @ ''Get'') (gc_get ex_codec g) choices_a ''e'' net_a [HandlerDone] net_a (kv_service ex_codec) (ns_srv n) =
      Some (Inr (ns_srv n, \<lparr>rp_ok = True, rp_reply = gc_getr ex_codec ?r\<rparr>))"
    unfolding kv_rpc_def Let_def kv_service_dispatch ex_process dec by simp
  from net_get [OF assms this] show ?thesis using dec by (simp add: after_rpc_def)
qed

lemma ex_given_up:
  assumes "ns_clerks n c = NPut t a os" "Clerk_Put os = None"
  shows "late_step ex_codec ok (n, L) (set_clerk c (NPut t a (os @ [None])) n, gc_put ex_codec a # L)"
proof -
  let ?dead = "Enable ''e'' False net_a"
  have w: "wait_loop ''e'' ''s'' 7 [Poll ?dead] = Some False" by (simp add: isServerDead_def map_get_def Enable_def)
  have i: "i_servername (readEndnameInfo ''e'' net_a) = Some ''s''" "i_server (readEndnameInfo ''e'' net_a) = Some 7"
    using live_a by (simp_all add: live_info)
  have "kv_rpc_late (''KVServer'' @ ''.'' @ ''Put'') (gc_put ex_codec a) choices_a ''e'' net_a [Poll ?dead] ?dead = Some failed_reply"
    using ex_live w i by (simp add: kv_rpc_late_def processReq_live [where sn = "''s''" and sv = 7] left_running_def Let_def)
  from late_start [OF assms this] show ?thesis by (simp add: after_rpc_def)
qed

lemma ex_effect:
  "late_step ex_codec ok (n, args # L) (n\<lparr>ns_srv := put_after (ns_srv n) (gc_unput ex_codec args), ns_time := Suc (ns_time n)\<rparr>, L)"
  using late_effect [of "''e''" args ex_codec n _ "put_after (ns_srv n) (gc_unput ex_codec args)" _ ok "[]" L]
  unfolding kv_service_dispatch by (simp add: Server_Put_eq)

lemma starts_ok_move:
  "ns_clerks n c \<noteq> NIdle \<or> (\<forall>t a. pc \<noteq> NPut t a []) \<Longrightarrow> ns_clerks m = ns_clerks n \<Longrightarrow> starts_ok ok n (set_clerk c pc m)"
  by (auto simp: starts_ok_def set_clerk_def)

lemma ns_clerks_log_done [simp]: "ns_clerks (log_done i out t n) = ns_clerks n"
  by (simp add: log_done_def)

text \<open>Runs of the examples as lists of events; the attempts are those of the lemmas above.\<close>

datatype ex_event = StartPut nat PutArgs | StartGet nat GetArgs | Answer nat | GiveUp nat | Effect | Return nat

fun ex_act :: "(net_sys \<Rightarrow> PutArgs \<Rightarrow> bool) \<Rightarrow> ex_event \<Rightarrow> late_sys \<Rightarrow> late_sys option" where
  "ex_act ok (StartPut c a) (n, L) = (if ns_clerks n c = NIdle \<and> ok n a then Some (set_clerk c (NPut (ns_time n) a []) n, L) else None)"
| "ex_act ok (StartGet c g) (n, L) = (if ns_clerks n c = NIdle then Some (set_clerk c (NGet (ns_time n) g []) n, L) else None)"
| "ex_act ok (Answer c) (n, L) = (case ns_clerks n c of
      NPut t a os \<Rightarrow> if Clerk_Put os = None
        then Some (set_clerk c (NPut t a (os @ [Some \<lparr>putr_Err = put_err (ns_srv n) a\<rparr>])) (n\<lparr>ns_srv := put_after (ns_srv n) a\<rparr>), L) else None
    | NGet t g os \<Rightarrow> if Clerk_Get os = None then Some (set_clerk c (NGet t g (os @ [Some (Server_Get (ns_srv n) g GetReply0)])) n, L) else None
    | NIdle \<Rightarrow> None)"
| "ex_act ok (GiveUp c) (n, L) = (case ns_clerks n c of
      NPut t a os \<Rightarrow> if Clerk_Put os = None then Some (set_clerk c (NPut t a (os @ [None])) n, gc_put ex_codec a # L) else None
    | _ \<Rightarrow> None)"
| "ex_act ok Effect (n, L) = (case L of
      args # L \<Rightarrow> Some (n\<lparr>ns_srv := put_after (ns_srv n) (gc_unput ex_codec args), ns_time := Suc (ns_time n)\<rparr>, L)
    | [] \<Rightarrow> None)"
| "ex_act ok (Return c) (n, L) = (case ns_clerks n c of
      NPut t a os \<Rightarrow> map_option (\<lambda>err. (set_clerk c NIdle (log_done (put_input a) (put_output err) t n), L)) (Clerk_Put os)
    | NGet t g os \<Rightarrow> map_option (\<lambda>(v, ver, err). (set_clerk c NIdle (log_done (get_input (get_Key g)) (get_output v ver err) t n), L)) (Clerk_Get os)
    | NIdle \<Rightarrow> None)"

fun ex_run :: "(net_sys \<Rightarrow> PutArgs \<Rightarrow> bool) \<Rightarrow> ex_event list \<Rightarrow> late_sys \<Rightarrow> late_sys option" where
  "ex_run ok [] q = Some q"
| "ex_run ok (ev # evs) q = Option.bind (ex_act ok ev q) (ex_run ok evs)"

lemma ex_act_step:
  assumes "ex_act ok ev (n, L) = Some q"
  shows "late_step ex_codec ok (n, L) q"
proof (cases ev)
  case (StartPut c a)
  moreover have "starts_ok ok n (set_clerk c (NPut (ns_time n) a []) n)" if "ok n a"
    using that by (auto simp: starts_ok_def set_clerk_def split: if_splits)
  ultimately show ?thesis using assms by (auto split: if_splits intro: late_net net_start_put)
next
  case (Answer c)
  show ?thesis
  proof (cases "ns_clerks n c")
    case (NPut t a os)
    then have o: "Clerk_Put os = None" using assms Answer by (cases "Clerk_Put os") auto
    show ?thesis using assms Answer NPut o by (auto intro!: late_net ex_answered_put starts_ok_move simp del: if_split)
  next
    case (NGet t g os)
    then show ?thesis using assms Answer by (auto split: if_splits intro!: late_net ex_answered_get starts_ok_move)
  qed (use assms Answer in simp)
next
  case (Return c)
  then show ?thesis using assms
    by (auto split: net_pc.splits intro!: late_net net_put_return net_get_return starts_ok_move)
next
  case (GiveUp c)
  then show ?thesis using assms by (auto split: net_pc.splits if_splits intro: ex_given_up)
next
  case Effect
  then show ?thesis using assms ex_effect by (auto split: list.splits simp del: if_split)
next
  case (StartGet c g)
  then show ?thesis using assms by (auto split: if_splits intro!: late_net net_start_get starts_ok_move)
qed

lemma ex_run_reachable:
  "reachable late_init (late_step ex_codec ok) q \<Longrightarrow> ex_run ok evs q = Some q' \<Longrightarrow> reachable late_init (late_step ex_codec ok) q'"
proof (induction evs arbitrary: q)
  case (Cons ev evs)
  obtain q1 where "ex_act ok ev q = Some q1" "ex_run ok evs q1 = Some q'" using Cons.prems(2) by (auto split: bind_splits)
  then have "reachable late_init (late_step ex_codec ok) q1"
    using reachable.reach_step [OF Cons.prems(1)] ex_act_step [of ok ev "fst q" "snd q"] by simp
  then show ?case using Cons.IH \<open>ex_run ok evs q1 = Some q'\<close> by blast
qed simp

lemmas ex_simps = late_init_def net_init_def set_clerk_def log_done_def put_applies_def put_store_def put_err_def key_version_def MakeKVServer_def
  Clerk_Put_def put_result_def Server_Get_def GetReply0_def Let_def known_version_def

lemma ex_reads_back [simp]: "gc_unput ex_codec (gc_put ex_codec a) = a"
  using ex_codec_ok by (simp add: codec_ok_def)

theorem late_handlers_refine_kv_sys_witness:
  "\<exists>n. reachable late_init (late_step ex_codec known_version) (n, []) \<and> map nd_output (ns_log n) = [put_output ErrMaybe] \<and>
     key_value (ns_srv n) ''k'' = ''v'' \<and> (\<exists>s. reachable kv_init kv_step s \<and> srv s = ns_srv n)"
proof -
  let ?a = "\<lparr>put_Key = ''k'', put_Value = ''v'', put_Version = 0\<rparr>"
  obtain n where run: "ex_run known_version [StartPut 0 ?a, GiveUp 0, Effect, Answer 0, Return 0] late_init = Some (n, [])"
    and n: "ns_time n < 2 ^ 64" "map nd_output (ns_log n) = [put_output ErrMaybe]" "key_value (ns_srv n) ''k'' = ''v''"
    by (simp add: ex_simps key_value_def)
  have r: "reachable late_init (late_step ex_codec known_version) (n, [])" by (rule ex_run_reachable [OF reachable.reach_init run])
  obtain s where "reachable kv_init kv_step s" "srv s = ns_srv n" using late_handlers_refine_kv_sys [OF r ex_codec_ok n(1)] by blast
  then show ?thesis using r n(2,3) by (intro exI [of _ n]) auto
qed

text \<open>
  C11: without that restriction a put that was refused can happen after all. There is a run on the network in which a clerk's put
  with version 1 of a missing key returns \<open>ErrNoKey\<close>, on the second attempt, then another put creates the key, and a get after both
  returns the value of the refused put, whose first handler has run late. No two of the calls overlap, and \<open>KvModel\<close> does not accept the
  second put and the get in their order.
\<close>

theorem late_put_after_refusal:
  "\<exists>n. reachable late_init (late_step ex_codec (\<lambda>_ _. True)) (n, []) \<and> sorted_wrt (\<lambda>d e. nd_ret d < nd_call e) (ns_log n) \<and>
     map (\<lambda>d. (nd_input d, nd_output d)) (ns_log n) =
       [(put_input \<lparr>put_Key = ''k'', put_Value = ''late'', put_Version = 1\<rparr>, put_output ErrNoKey),
        (put_input \<lparr>put_Key = ''k'', put_Value = ''new'', put_Version = 0\<rparr>, put_output OK),
        (get_input ''k'', get_output ''late'' 2 OK)] \<and>
     \<not> model_accepts (\<lambda>_. KvModel_Init) (map (\<lambda>d. (nd_input d, nd_output d)) (tl (ns_log n)))"
proof -
  let ?a = "\<lparr>put_Key = ''k'', put_Value = ''late'', put_Version = 1\<rparr>" and ?b = "\<lparr>put_Key = ''k'', put_Value = ''new'', put_Version = 0\<rparr>"
  obtain n where run: "ex_run (\<lambda>_ _. True) [StartPut 0 ?a, GiveUp 0, Answer 0, Return 0, StartPut 1 ?b, Answer 1, Return 1, Effect,
      StartGet 1 \<lparr>get_Key = ''k''\<rparr>, Answer 1, Return 1] late_init = Some (n, [])"
    and log: "ns_log n = [\<lparr>nd_input = put_input ?a, nd_output = put_output ErrNoKey, nd_call = 0, nd_ret = 3\<rparr>,
      \<lparr>nd_input = put_input ?b, nd_output = put_output OK, nd_call = 4, nd_ret = 6\<rparr>,
      \<lparr>nd_input = get_input ''k'', nd_output = get_output ''late'' 2 OK, nd_call = 8, nd_ret = 10\<rparr>]"
    by (simp add: ex_simps)
  have "reachable late_init (late_step ex_codec (\<lambda>_ _. True)) (n, [])" by (rule ex_run_reachable [OF reachable.reach_init run])
  moreover have "\<not> model_accepts (\<lambda>_. KvModel_Init) (map (\<lambda>d. (nd_input d, nd_output d)) (tl (ns_log n)))"
    unfolding log by (simp add: put_input_def put_output_def get_input_def get_output_def KvModel_Init_def KvModel_Step_def)
  ultimately show ?thesis using log by (intro exI [of _ n]) simp
qed

end
