(* ===== verification/Shardcfg_Json.thy ===== *)
theory Shardcfg_Json
  imports Shardcfg Go_Json
begin

text \<open>
  \<open>String\<close> and \<open>FromString\<close> of \<open>shardkv1/shardcfg/shardcfg.go\<close>, by which a shard controller is to store configurations in
  a key/value service: a configuration as the JSON text that \<open>Marshal\<close> writes, and back. Names of servers are ASCII strings, written with the
  escapes of \<open>Marshal\<close> (of Go 1.22); slices are not nil. Of the texts that \<open>Unmarshal\<close> accepts, those in the compact form that \<open>Marshal\<close> writes
  are modelled, with every escape in their strings.
\<close>

section \<open>Texts\<close>

definition ascii :: "string \<Rightarrow> bool" where
  "ascii s \<longleftrightarrow> list_all (\<lambda>c. (of_char c :: nat) < 128) s"

definition hex_digit :: "nat \<Rightarrow> char" where
  "hex_digit n = (if n < 10 then char_of (48 + n) else char_of (87 + n))"

text \<open>The escapes with a letter, and the characters that they stand for.\<close>

definition letter_escapes :: "(char \<times> char) list" where
  "letter_escapes = [(CHR 0x5C, CHR 0x5C), (CHR 0x22, CHR 0x22), (CHR 0x08, CHR ''b''), (CHR 0x0C, CHR ''f''),
     (CHR 0x0A, CHR ''n''), (CHR 0x0D, CHR ''r''), (CHR 0x09, CHR ''t'')]"

text \<open>Other control characters and those that have a meaning in HTML are written with their code.\<close>

definition escape_char :: "char \<Rightarrow> string" where
  "escape_char c =
     (case map_of letter_escapes c of
        Some e \<Rightarrow> [CHR 0x5C, e]
      | None \<Rightarrow>
          let n = of_char c :: nat
          in if n < 32 \<or> c \<in> {CHR ''<'', CHR ''>'', CHR ''&''}
             then CHR 0x5C # ''u00'' @ [hex_digit (n div 16), hex_digit (n mod 16)]
             else [c])"

definition json_string :: "string \<Rightarrow> string" where
  "json_string s = CHR 0x22 # concat (map escape_char s) @ [CHR 0x22]"

definition json_strings :: "string list \<Rightarrow> string" where
  "json_strings ss = ''['' @ strings_join '','' (map json_string ss) @ '']''"

definition json_group :: "Tgid \<times> string list \<Rightarrow> string" where
  "json_group = (\<lambda>(g, srvs). json_field (itoa g) @ json_strings srvs)"

text \<open>
  The keys of a map are written in the order of their texts. \<open>None\<close>: a name is not ASCII, and its text is not modelled.
\<close>

definition ShardConfig_String :: "ShardConfig \<Rightarrow> string option" where
  "ShardConfig_String cfg = (if \<not> list_all (\<lambda>(g, srvs). list_all ascii srvs) (Groups cfg) then None else Some (
     (''{'' @ json_field ''Num'') @ itoa (Num cfg) @ ('','' @ json_field ''Shards'' @ ''['') @
     strings_join '','' (map itoa (Shards cfg)) @ CHR '']'' # ('','' @ json_field ''Groups'' @ ''{'') @
     strings_join '','' (map json_group (sort_key (itoa \<circ> fst) (Groups cfg))) @ CHR ''}'' # ''}''))"

section \<open>Reading\<close>

definition hex_val :: "char \<Rightarrow> nat option" where
  "hex_val c = (let n = of_char c
     in if 48 \<le> n \<and> n \<le> 57 then Some (n - 48)
        else if 97 \<le> n \<and> n \<le> 102 then Some (n - 87)
        else if 65 \<le> n \<and> n \<le> 70 then Some (n - 55) else None)"

fun hex_number :: "nat \<Rightarrow> string \<Rightarrow> nat option" where
  "hex_number v [] = Some v"
| "hex_number v (c # s) = Option.bind (hex_val c) (\<lambda>d. hex_number (16 * v + d) s)"

definition unescape :: "char \<Rightarrow> char option" where
  "unescape e = (if e = CHR ''/'' then Some e else map_of (map (\<lambda>(c, e). (e, c)) letter_escapes) e)"

text \<open>
  The rest of a string literal after its opening quote, and what follows it. A code above 127 or a character that is not ASCII is not modelled; the
  other failures are texts that are not JSON.
\<close>

function read_chars :: "string \<Rightarrow> (string \<times> string) option" where
  "read_chars s = (case s of
      [] \<Rightarrow> None
    | c # s \<Rightarrow>
        if c = CHR 0x22 then Some ([], s)
        else if c \<noteq> CHR 0x5C
        then if (of_char c :: nat) < 32 \<or> (of_char c :: nat) \<ge> 128 then None
             else map_option (\<lambda>(t, r). (c # t, r)) (read_chars s)
        else if s = [] then None
        else if hd s \<noteq> CHR ''u''
        then Option.bind (unescape (hd s)) (\<lambda>c. map_option (\<lambda>(t, r). (c # t, r)) (read_chars (tl s)))
        else if length s < 5 then None
        else Option.bind (hex_number 0 (take 4 (tl s))) (\<lambda>n.
               if n < 128 then map_option (\<lambda>(t, r). (char_of n # t, r)) (read_chars (drop 5 s)) else None))"
  by pat_completeness auto
termination by (relation "measure length") auto

declare read_chars.simps [simp del]

definition read_string :: "string \<Rightarrow> (string \<times> string) option" where
  "read_string s = Option.bind (expect [CHR 0x22] s) read_chars"

definition read_group :: "string \<Rightarrow> ((Tgid \<times> string list) \<times> string) option" where
  "read_group s = Option.bind (expect [CHR 0x22] s) (\<lambda>s. Option.bind (read_int s) (\<lambda>(g, s).
     Option.bind (expect ([CHR 0x22] @ '':['') s) (\<lambda>s. map_option (\<lambda>(srvs, s). ((g, srvs), s)) (read_list read_string CHR '']'' s))))"

text \<open>
  An array of another length is cut or filled up with zeros, and a later entry for a key of a map replaces an earlier one.
\<close>

definition to_array :: "Tgid list \<Rightarrow> Tgid list" where
  "to_array gs = take NShards (gs @ replicate NShards 0)"

definition to_map :: "(Tgid \<times> string list) list \<Rightarrow> (Tgid \<times> string list) list" where
  "to_map kvs = foldl (\<lambda>m (k, v). filter (\<lambda>e. fst e \<noteq> k) m @ [(k, v)]) [] kvs"

definition read_config :: "string \<Rightarrow> (ShardConfig \<times> string) option" where
  "read_config s = Option.bind (expect (''{'' @ json_field ''Num'') s) (\<lambda>s. Option.bind (read_int s) (\<lambda>(n, s).
     Option.bind (expect ('','' @ json_field ''Shards'' @ ''['') s) (\<lambda>s. Option.bind (read_list read_int CHR '']'' s) (\<lambda>(gs, s).
     Option.bind (expect ('','' @ json_field ''Groups'' @ ''{'') s) (\<lambda>s. Option.bind (read_list read_group CHR ''}'' s) (\<lambda>(kvs, s).
     map_option (\<lambda>s. (\<lparr>Num = n, Shards = to_array gs, Groups = to_map kvs\<rparr>, s)) (expect ''}'' s)))))))"

text \<open>
  \<open>None\<close>: the text is not in the form that \<open>Marshal\<close> writes. \<open>Unmarshal\<close> also accepts other texts of that shape (spaces, fields in another order, \<open>null\<close>),
  and \<open>FromString\<close> ends the process on the rest; which of the two happens is not modelled.
\<close>

definition FromString :: "string \<Rightarrow> ShardConfig option" where
  "FromString s = (case read_config s of Some (cfg, []) \<Rightarrow> Some cfg | _ \<Rightarrow> None)"

section \<open>Reading what was written\<close>

lemma expect_Cons [simp]: "expect [c] (c # s) = Some s"
  using expect_append [of "[c]" s] by simp

lemma hex_val_digit: "k < 16 \<Longrightarrow> hex_val (hex_digit k) = Some k"
  by (auto simp: hex_val_def hex_digit_def Let_def)

lemma letter_escape_cases:
  assumes "map_of letter_escapes c = Some e"
  shows "unescape e = Some c \<and> e \<noteq> CHR ''u''"
  using assms by (auto simp: letter_escapes_def unescape_def split: if_splits)

lemma letter_escape_none:
  "map_of letter_escapes c = None \<Longrightarrow> c \<noteq> CHR 0x22 \<and> c \<noteq> CHR 0x5C"
  by (auto simp: letter_escapes_def split: if_splits)

lemma read_escape:
  assumes "(of_char c :: nat) < 128"
  shows "read_chars (escape_char c @ s) = map_option (\<lambda>(t, r). (c # t, r)) (read_chars s)"
proof (cases "map_of letter_escapes c")
  case (Some e)
  then show ?thesis using letter_escape_cases [OF Some] by (subst read_chars.simps) (simp add: escape_char_def)
next
  case None
  let ?n = "of_char c :: nat"
  have zero: "hex_val CHR ''0'' = Some 0" by (simp add: hex_val_def)
  have h: "hex_number 0 [CHR ''0'', CHR ''0'', hex_digit (?n div 16), hex_digit (?n mod 16)] = Some ?n"
    using hex_val_digit [of "?n div 16"] hex_val_digit [of "?n mod 16"] zero assms by simp
  show ?thesis
  proof (cases "?n < 32 \<or> c \<in> {CHR ''<'', CHR ''>'', CHR ''&''}")
    case True
    then have "escape_char c @ s = CHR 0x5C # CHR ''u'' # [CHR ''0'', CHR ''0'', hex_digit (?n div 16), hex_digit (?n mod 16)] @ s"
      using None by (simp add: escape_char_def Let_def)
    then show ?thesis using h assms by (simp only: read_chars.simps [of "CHR 0x5C # _"]) (simp del: hex_number.simps)
  next
    case False
    then have "escape_char c = [c]" using None by (simp add: escape_char_def Let_def)
    then show ?thesis using False assms letter_escape_none [OF None] by (subst read_chars.simps) simp
  qed
qed

lemma read_escapes: "ascii x \<Longrightarrow> read_chars (concat (map escape_char x) @ CHR 0x22 # s) = Some (x, s)"
proof (induction x)
  case Nil
  then show ?case by (simp add: read_chars.simps [of "CHR 0x22 # s"])
next
  case (Cons c x)
  then show ?case by (simp add: ascii_def read_escape)
qed

lemma read_json_string: "ascii x \<Longrightarrow> read_string (json_string x @ s) = Some (x, s)"
  by (simp add: read_string_def json_string_def read_escapes)

lemma read_json_group:
  assumes "\<forall>x\<in>set (snd g). ascii x"
  shows "read_group (json_group g @ s) = Some (g, s)"
proof -
  have eq: "json_group g @ s = [CHR 0x22] @ itoa (fst g) @ ([CHR 0x22] @ '':['') @ strings_join '','' (map json_string (snd g)) @ CHR '']'' # s"
    by (simp add: json_group_def json_field_def json_strings_def split: prod.splits)
  have "read_int (itoa (fst g) @ ([CHR 0x22] @ '':['') @ t) = Some (fst g, ([CHR 0x22] @ '':['') @ t)" for t
    by (rule read_int_itoa) (simp add: digit_def)
  moreover have "read_list read_string CHR '']'' (strings_join '','' (map json_string (snd g)) @ CHR '']'' # s) = Some (snd g, s)"
    by (rule read_list_join) (use assms in \<open>simp_all add: read_json_string\<close>, simp add: json_string_def)
  ultimately show ?thesis unfolding read_group_def eq by (simp only: expect_append bind.simps case_prod_conv) simp
qed

lemma to_map_id:
  assumes "distinct (map fst kvs)"
  shows "to_map kvs = kvs"
proof -
  have "foldl (\<lambda>m (k, v). filter (\<lambda>e. fst e \<noteq> k) m @ [(k, v)]) m kvs = m @ kvs" if "distinct (map fst (m @ kvs))" for m
    using that
  proof (induction kvs arbitrary: m)
    case (Cons e kvs)
    have "filter (\<lambda>x. fst x \<noteq> fst e) m = m" using Cons.prems by (intro filter_True) (auto simp: image_iff)
    then show ?case using Cons.IH [of "m @ [e]"] Cons.prems by (cases e) simp
  qed simp
  from this [of "[]"] show ?thesis using assms by (simp add: to_map_def)
qed

lemma to_array_id: "length gs = NShards \<Longrightarrow> to_array gs = gs"
  by (simp add: to_array_def)

lemma digits_hd: "\<exists>c t. nat_digits n = c # t \<and> digit c"
  using nat_digits_nonempty [of n] nat_digits_digit [of n] by (cases "nat_digits n") auto

lemma itoa_hd: "\<exists>c t. itoa g = c # t \<and> c \<noteq> CHR '']''"
proof (cases "g < 0")
  case True
  then show ?thesis by (simp add: itoa_def)
next
  case False
  obtain c t where "nat_digits (nat g) = c # t" "digit c" using digits_hd [of "nat g"] by blast
  then show ?thesis using False by (auto simp: itoa_def digit_def)
qed

lemma read_config_String:
  assumes "ShardConfig_String cfg = Some jtext"
  shows "read_config jtext =
     Some (\<lparr>Num = Num cfg, Shards = to_array (Shards cfg), Groups = to_map (sort_key (itoa \<circ> fst) (Groups cfg))\<rparr>, [])"
proof -
  let ?gs = "sort_key (itoa \<circ> fst) (Groups cfg)"
  have names: "\<forall>g\<in>set (Groups cfg). \<forall>x\<in>set (snd g). ascii x"
    and jtext: "jtext = (''{'' @ json_field ''Num'') @ itoa (Num cfg) @ ('','' @ json_field ''Shards'' @ ''['') @
      strings_join '','' (map itoa (Shards cfg)) @ CHR '']'' # ('','' @ json_field ''Groups'' @ ''{'') @
      strings_join '','' (map json_group ?gs) @ CHR ''}'' # ''}''"
    using assms by (auto simp: ShardConfig_String_def list_all_iff split: if_splits)
  have n: "read_int (itoa i @ ('','' @ json_field ''Shards'' @ ''['') @ t) = Some (i, ('','' @ json_field ''Shards'' @ ''['') @ t)" for i t
    by (rule read_int_itoa) (simp add: digit_def)
  have sh: "read_list read_int CHR '']'' (strings_join '','' (map itoa (Shards cfg)) @ CHR '']'' # t) = Some (Shards cfg, t)" for t
    by (rule read_list_join) (simp, rule itoa_hd, auto simp: digit_def intro!: read_int_itoa)
  have "read_list read_group CHR ''}'' (strings_join '','' (map json_group ?gs) @ CHR ''}'' # t) = Some (?gs, t)" for t
    by (rule read_list_join) (simp, simp add: json_group_def json_field_def split: prod.splits, use names in \<open>simp add: read_json_group\<close>)
  then show ?thesis using n sh
    unfolding read_config_def jtext by (simp only: expect_append bind.simps case_prod_conv) simp
qed

text \<open>
  C40: a configuration survives being stored, for server names of any ASCII characters, those that JSON escapes included, and server lists that are not
  nil. \<open>String\<close> writes a text, and \<open>FromString\<close> of this text returns a configuration with the same number, the same
  assignment of shards and the same map from groups to servers.
\<close>

theorem FromString_String:
  assumes "length (Shards cfg) = NShards" and "distinct (map fst (Groups cfg))"
    and "\<forall>g\<in>set (Groups cfg). \<forall>x\<in>set (snd g). ascii x"
  shows "\<exists>jtext cfg'. ShardConfig_String cfg = Some jtext \<and> FromString jtext = Some cfg' \<and> Num cfg' = Num cfg \<and> Shards cfg' = Shards cfg \<and>
     map_of (Groups cfg') = map_of (Groups cfg)"
proof -
  let ?gs = "sort_key (itoa \<circ> fst) (Groups cfg)"
  obtain jtext where jtext: "ShardConfig_String cfg = Some jtext"
    using assms(3) by (fastforce simp: ShardConfig_String_def list_all_iff)
  have m: "mset (map fst ?gs) = mset (map fst (Groups cfg))" by simp
  then have d: "distinct (map fst ?gs)" using assms(2) mset_eq_imp_distinct_iff by blast
  then have "map_of ?gs = map_of (Groups cfg)" using assms(2) by (intro map_of_eqI) auto
  then show ?thesis using jtext to_map_id [OF d] to_array_id [OF assms(1)] read_config_String [OF jtext] by (simp add: FromString_def)
qed

theorem FromString_String_witness:
  "\<exists>jtext cfg'. ShardConfig_String \<lparr>Num = 2, Shards = replicate 6 10 @ replicate 6 9, Groups = [(9, [''server-9-0'']), (10, [''<a>'', [CHR 0x22, CHR 0x07]])]\<rparr> = Some jtext \<and>
     FromString jtext = Some cfg' \<and> Num cfg' = 2 \<and> map_of (Groups cfg') 10 = Some [''<a>'', [CHR 0x22, CHR 0x07]]"
proof -
  have "ascii ''server-9-0''" "ascii ''<a>''" "ascii [CHR 0x22, CHR 0x07]" by (simp_all add: ascii_def)
  then show ?thesis
    using FromString_String [of "\<lparr>Num = 2, Shards = replicate 6 10 @ replicate 6 9, Groups = [(9, [''server-9-0'']), (10, [''<a>'', [CHR 0x22, CHR 0x07]])]\<rparr>"]
    by (auto simp: NShards_def)
qed

end
