(* ===== verification/Spec2Isabelle.thy ===== *)
theory Spec2Isabelle
  imports Lock Main_Cmds Test_Setup Kv_Late Shardcfg_Json
begin

text \<open>
  A verification library for the laboratory code of a course on distributed systems: a MapReduce system, a
  single-node key/value server with a lock on top, a partial Raft implementation, shard configurations, the beginnings of
  replicated and sharded key/value services, and the framework that tests all of them (a simulated network, server
  groups, persisters, clients, annotations, checks). Paths below are relative to \<open>src/src/\<close>.

  \<^bold>\<open>How the code is modelled.\<close> A Go struct is a record, an enumeration or a value of an interface a datatype, a method a
  function from the receiver to the new receiver and its results. A function that may panic, end the process or
  end the test returns \<open>'a go\<close>, the sum of \<open>fault\<close> and \<open>'a\<close> (theory \<open>Prelude\<close>); slice accesses are checked. A loop that may run
  for ever is a function of the results it meets (RPC outcomes, clerk results, rounds) with no result while it is
  still running, or an \<open>option\<close> obtained by the while combinator; where the code returns, that is proved. Time, random numbers, map
  traversal orders and file systems are arguments. Versions are 64-bit words and wrap around; hashes and random
  bytes are words; Go ints that count or number things are unbounded. Mutexes are dropped where a method holds one
  throughout: each method is one step, and concurrency is the interleaving of such steps (\<open>inductive\<close> relations and
  \<open>reachable\<close> of \<open>Prelude\<close>).

  \<^bold>\<open>Shared theories.\<close> \<open>Prelude\<close> has faults, checked slices, fallible loops (\<open>go_fold\<close>), association lists that stand for Go maps,
  reachability, and the locales for invariants of step relations and for refinement of fallible operations. \<open>Go_Lib\<close> and
  \<open>Go_Json\<close> model what the sources use of Go's libraries: numerals, string functions, hashes, JSON of the structs the tests
  store (read back as written).

  \<^bold>\<open>Key/value server\<close> (\<open>kvsrv1\<close>, \<open>models1\<close>). \<open>Kv_Rpc\<close> has error codes, versions and RPC structs, \<open>Kv_Server\<close> the handlers,
  \<open>Kv_Model\<close> the sequential model that the tests check histories against. The handlers refine the steps of the model,
  a version counts the applied puts modulo \<open>2 ^ 64\<close>, a get returns what was put, and the partition of a history by
  key is correct. \<open>Kv_Clerk\<close> has the clerk with its retries and the system of any number of clerks, a server and a network that
  loses requests and replies, where a handler has taken effect or never will when its call ends; \<open>Kv_Linear\<close> proves it linearizable with respect to the
  model, extended by the one answer of the server that the model rejects (\<open>ErrNoKey\<close> for a put), and what each result of a put
  means there. \<open>Kv_Over_Labrpc\<close> puts the server behind the simulated network as the tests do, for any gob that reads back what it wrote, and shows
  that clerks on it refine that system in the runs in which the network gives up on no call while its handler is running. \<open>Kv_Late\<close> has the other runs,
  in which handlers run on after their caller was told that the call failed:
  clients that put with versions they know do not notice, others can see a refused put happen. Both simulations are one proof, in the locale
  \<open>retry_rel\<close>, interpreted for each relation of retries. \<open>Kv_Clerk_Api\<close> states the contract of a clerk for its callers as the locales \<open>ikv_clerk\<close> and \<open>ikv_clerk_codes\<close>,
  interpreted on the clerk and server; \<open>Lock\<close> (\<open>kvsrv1/lock\<close>) proves mutual exclusion over that contract, while the
  versions fit, and that the lock can be lost when the reply to the first put is.

  \<^bold>\<open>Raft\<close> (\<open>raft1\<close>, \<open>raftapi\<close>). \<open>Raft_Api\<close> and \<open>Raft_Peer\<close> have the messages and every method of a peer; the vote handler
  refines the rule of the Raft paper; heartbeats after the first are refused. \<open>Raft_Cluster\<close> puts peers on a network that loses, delays
  and reorders messages: a peer that does not restart votes at most once per term, but replies are counted
  without looking at the vote, so that two peers can lead one term, and replies of earlier terms are counted too. With crashes and restarts peers vote twice, because nothing
  is persisted. \<open>Raft_Tester\<close> (\<open>raft1/server.go\<close>, \<open>raft1/test.go\<close>) shows
  that the checks of applied entries and of leaders accept exactly what they should.

  \<^bold>\<open>MapReduce\<close> (\<open>mr\<close>, \<open>mrapps\<close>, \<open>main\<close>). \<open>Mr_Apps\<close> has the applications, \<open>Mr_Sequential\<close> the sequential program with its
  functional correctness for any application, word count in particular. \<open>Mr_Coordinator\<close> has the task table, handlers and
  timeouts, with the safety of the order of tasks and of reassignments and the possibility to finish, for workers that report only tasks they were given; \<open>Mr_Worker\<close> the worker, which
  as written gets no task and whose reduce panics; \<open>Main_Cmds\<close> the programs of \<open>main/\<close>, of which coordinator and worker
  never finish once the sockets could be opened and dialed.

  \<^bold>\<open>Shards\<close> (\<open>shardkv1\<close>). \<open>Shardcfg\<close> has configurations; rebalancing terminates, is balanced, and joining and leaving
  keep configurations well-formed. \<open>Shardcfg_Json\<close> has their JSON texts with escapes, from which they are read back, for ASCII names of servers; other JSON that
  the reader accepts is not modelled. \<open>Shard_Kv\<close> has the parts of the sharded service that are written.

  \<^bold>\<open>Replicated services\<close> (\<open>kvraft1\<close>). \<open>Rsm\<close> has the replicated state machine, its counter and its tests: a new replica that
  restores a snapshot is equivalent to the one that took it; restoring into a replica that already counts is what labgob warns about. \<open>Kv_Raft\<close> has the replicated key/value service, on whose clerk
  the tests fail.

  \<^bold>\<open>Test framework\<close> (\<open>tester1\<close>, \<open>labrpc\<close>, \<open>labgob\<close>, \<open>kvtest1\<close>). \<open>Labrpc\<close> has the simulated network: a positive answer comes from one execution
  of the handler at a server that was still there, and a reliable network answers. \<open>Labgob\<close> has the checks before
  encoding and decoding, which count exactly the fields and values they should, but panic on scalars that are read-only for \<open>reflect\<close>. \<open>Persister\<close> has the
  storage of a server over a heap of byte arrays: sharing is never visible. \<open>Tester_Group\<close> and \<open>Tester_Links\<close> have server groups,
  which implement an abstract matrix of links, partition a leader into a minority and give restarted servers what was
  persisted; \<open>Tester_Clnts\<close> the clients, which reach the servers that their contract allows as long as \<open>ConnectTo\<close> drops no server that can be reached: then it
  leaves the end enabled, against its comment; \<open>Tester_Config\<close> the configuration of a test.
  \<open>Annotation\<close> has the annotations of histories. \<open>Kv_Test\<close> has the clients and checks of the key/value tests, and \<open>Kv_Test_Clients\<close> runs
  them concurrently over the clerk's contract: on a correct service they raise no false alarm. \<open>Test_Setup\<close> has the setup of the tests of each service
  (\<open>kvsrv1/test.go\<close>, \<open>kvraft1/test.go\<close>, \<open>kvraft1/rsm/test.go\<close>, \<open>shardkv1/test.go\<close>) and the tests of racing controllers, which cannot pass.

  \<^bold>\<open>Bounds.\<close> Linearizability, mutual exclusion and the append test assume that fewer than \<open>2 ^ 64\<close> or \<open>2 ^ 63\<close> operations or puts are made, because versions wrap
  around; mutual exclusion also assumes that the random tokens do not repeat, and the theorems on links and clients that the random names of ends do not; late handlers are harmless for fewer than \<open>2 ^ 64\<close> steps. The recursion of \<open>checkType\<close> is bounded by the number of types in its table, which is proved enough. The observed
  iterations of the worker are bounded by an argument, and its theorems hold for every bound.

  \<^bold>\<open>Third-party code\<close> is a parameter: the linearizability checker and its visualization, gob's encoder and decoder, the JSON decoder and
  the sort of the worker, plugins, and the packages of older services that \<open>main/\<close> imports but the repository does not
  contain. Where a theorem needs a law of a parameter it is a named hypothesis, with a witness that meets it.

  \<^bold>\<open>Not modelled.\<close> Printing and logging (\<open>DPrintf\<close>, \<open>Fatalf\<close>'s stack trace), what opening and dialing sockets does beyond success or failure,
  the interrupt handler's goroutine, and the test cases themselves. What the goroutines of \<open>partitionCtrler\<close> and \<open>concurCtrler\<close> do is
  taken in whole rounds.
\<close>

section \<open>Names of servers in configurations\<close>

text \<open>The names that the framework gives to servers are ASCII strings, so that configurations with them can be stored.\<close>

lemma itoa_ascii: "ascii (itoa i)"
proof -
  have "\<forall>c\<in>set (nat_digits n). (of_char c :: nat) < 128" for n
    using nat_digits_digit [of n] by (force simp: digit_def)
  then show ?thesis by (auto simp: itoa_def ascii_def list_all_iff)
qed

lemma ServerName_ascii: "ascii (ServerName gid i)"
  using itoa_ascii by (simp add: ServerName_def ascii_def)

end
